(* ===== verification/Prelude.thy ===== *)
theory Prelude
  imports Main "HOL-Library.Word" "HOL-Library.Char_ord" "HOL-Library.List_Lexorder"
begin

text \<open>
  What the components share: Go's error values, the result of an operation that may fail,
  panic or block, bytes and 64-bit integers, the remainder of Go's \<^verbatim>\<open>%\<close>, decimal numerals
  (\<^verbatim>\<open>strconv.Itoa\<close>), the locale of transition systems with an invariant, and the generic
  lemmas and collections the component proofs use.
\<close>

section \<open>Collections\<close>

named_theorems wire_simps
  \<open>reading back what was written: characteristic equations of the wire primitives\<close>
named_theorems step_defs
  \<open>definitions of the atomic steps of a state machine\<close>

section \<open>Types of the program\<close>

type_synonym byte = "8 word"
type_synonym u64 = "64 word"
type_synonym i64 = "64 word"

text \<open>
  The error values the code compares or creates: \<^verbatim>\<open>io.EOF\<close>, \<^verbatim>\<open>io.ErrUnexpectedEOF\<close>, the
  sentinels of the package, the errors of a context, and everything made by
  \<^verbatim>\<open>errors.New\<close> or \<^verbatim>\<open>fmt.Errorf\<close>, which carries only its text. An \<^verbatim>\<open>error\<close> variable is a
  \<open>go_error option\<close>, \<open>None\<close> being \<^verbatim>\<open>nil\<close>.
\<close>

datatype go_error =
    EOF
  | UnexpectedEOF
  | ErrNotFounded
  | ErrClientStopped
  | Canceled
  | DeadlineExceeded
  | ErrorString string

fun error_text :: "go_error \<Rightarrow> string" where
  "error_text EOF = ''EOF''"
| "error_text UnexpectedEOF = ''unexpected EOF''"
| "error_text ErrNotFounded = ''can'' @ [CHR 0x27] @ ''t find any client''"
| "error_text ErrClientStopped = ''client stopped''"
| "error_text Canceled = ''context canceled''"
| "error_text DeadlineExceeded = ''context deadline exceeded''"
| "error_text (ErrorString s) = s"

text \<open>
  The result of a call: it returns a value, returns an error, panics, or cannot proceed
  (a channel operation that blocks).
\<close>

datatype 'a res = Ok 'a | Err go_error | Panic string | Blocked

fun res_of_err :: "go_error option \<Rightarrow> unit res" where
  "res_of_err None = Ok ()"
| "res_of_err (Some e) = Err e"

section \<open>Strings and bytes\<close>

definition bytes_of_string :: "string \<Rightarrow> byte list" where
  "bytes_of_string s = List.map (\<lambda>c. word_of_nat (of_char c)) s"

definition string_of_bytes :: "byte list \<Rightarrow> string" where
  "string_of_bytes bs = List.map (\<lambda>b. char_of (unat b)) bs"

lemma byte_char_byte: "word_of_nat (of_char (char_of (unat b) :: char)) = (b :: byte)"
proof -
  have "unat b < 2 ^ LENGTH(8)"
    by (rule unsigned_less)
  then show ?thesis
    by simp
qed

lemma char_byte_char: "char_of (unat (word_of_nat (of_char c) :: byte)) = (c :: char)"
proof -
  have "of_char c < (256 :: nat)"
    by simp
  then show ?thesis
    by (simp add: unat_of_nat)
qed

lemma string_of_bytes_of_string [simp]: "string_of_bytes (bytes_of_string s) = s"
  by (simp add: string_of_bytes_def bytes_of_string_def char_byte_char o_def)

lemma bytes_of_string_of_bytes [simp]: "bytes_of_string (string_of_bytes bs) = bs"
  by (simp add: string_of_bytes_def bytes_of_string_def byte_char_byte o_def del: of_char_of)

lemma length_bytes_of_string [simp]: "length (bytes_of_string s) = length s"
  by (simp add: bytes_of_string_def)

lemma length_string_of_bytes [simp]: "length (string_of_bytes bs) = length bs"
  by (simp add: string_of_bytes_def)

lemma bytes_of_string_Nil [simp]: "bytes_of_string [] = []"
  and string_of_bytes_Nil [simp]: "string_of_bytes [] = []"
  by (simp_all add: bytes_of_string_def string_of_bytes_def)

lemma bytes_of_string_Nil_iff [simp]: "bytes_of_string s = [] \<longleftrightarrow> s = []"
  by (simp add: bytes_of_string_def)

lemma bytes_of_string_inj [simp]: "bytes_of_string s = bytes_of_string t \<longleftrightarrow> s = t"
  by (metis string_of_bytes_of_string)

text \<open>A string in double quotes, as the error messages have it.\<close>

definition quoted :: "string \<Rightarrow> string" where
  "quoted s = [CHR 0x22] @ s @ [CHR 0x22]"

section \<open>Integers\<close>

text \<open>Go's \<^verbatim>\<open>%\<close> on integers: the remainder has the sign of the dividend.\<close>

definition go_rem :: "int \<Rightarrow> int \<Rightarrow> int" where
  "go_rem a b = sgn a * (\<bar>a\<bar> mod \<bar>b\<bar>)"

lemma go_rem_nonneg: "0 \<le> a \<Longrightarrow> 0 < b \<Longrightarrow> go_rem a b = a mod b"
  by (cases "a = 0") (simp_all add: go_rem_def)

lemma go_rem_neg: "a < 0 \<Longrightarrow> 0 < b \<Longrightarrow> go_rem a b = - ((- a) mod b)"
  by (simp add: go_rem_def)

text \<open>
  Lengths on the wire are \<^verbatim>\<open>uint64\<close> values the reading side converts to a signed integer:
  the conversion is faithful below \<open>2 ^ 63\<close> and negative from there on.
\<close>

lemma sint_word_of_nat: "n < 2 ^ 63 \<Longrightarrow> sint (word_of_nat n :: 64 word) = int n"
  by (simp add: signed_of_nat signed_take_bit_int_eq_self_iff)

lemma unat_word_of_nat64: "n < 2 ^ 64 \<Longrightarrow> unat (word_of_nat n :: 64 word) = n"
  by (simp add: unat_of_nat)

lemma sint_nonneg_iff: "0 \<le> sint (w :: 64 word) \<longleftrightarrow> unat w < 2 ^ 63"
proof -
  have "unat w < 2 ^ LENGTH(64)"
    by (rule unsigned_less)
  then have hi: "uint w div 2 ^ 63 = (if unat w < 2 ^ 63 then 0 else 1)"
    by (auto simp: uint_nat zdiv_int [symmetric] div_nat_eqI simp del: of_nat_unat)
  have "0 \<le> sint w \<longleftrightarrow> \<not> bit (uint w) 63"
    by (simp add: sint_uint)
  also have "\<dots> \<longleftrightarrow> unat w < 2 ^ 63"
    unfolding bit_iff_odd hi by simp
  finally show ?thesis .
qed

section \<open>Decimal numerals\<close>

definition digit_char :: "nat \<Rightarrow> char" where
  "digit_char d = char_of (48 + d)"

fun utoa :: "nat \<Rightarrow> string" where
  "utoa n = (if n < 10 then [digit_char n] else utoa (n div 10) @ [digit_char (n mod 10)])"

declare utoa.simps [simp del]

text \<open>\<^verbatim>\<open>strconv.Itoa\<close> (and \<^verbatim>\<open>FormatInt\<close> in base 10).\<close>

definition itoa :: "int \<Rightarrow> string" where
  "itoa i = (if i < 0 then ''-'' @ utoa (nat (- i)) else utoa (nat i))"

lemma utoa_not_Nil [simp]: "utoa n \<noteq> []"
  by (subst utoa.simps) simp

section \<open>Transition systems\<close>

text \<open>
  The goroutines of a component are a step relation on its state. This is the contract of
  an invariant: it holds initially and no step breaks it. The machines of the development
  (the client's connection, the server's connection, the lifecycles) interpret it.
\<close>

inductive reaches :: "('s \<Rightarrow> bool) \<Rightarrow> ('s \<Rightarrow> 's \<Rightarrow> bool) \<Rightarrow> 's \<Rightarrow> bool"
  for init :: "'s \<Rightarrow> bool" and step :: "'s \<Rightarrow> 's \<Rightarrow> bool" where
  reaches_init: "init s \<Longrightarrow> reaches init step s"
| reaches_step: "reaches init step s \<Longrightarrow> step s t \<Longrightarrow> reaches init step t"

locale machine_invariant =
  fixes init :: "'s \<Rightarrow> bool"
    and step :: "'s \<Rightarrow> 's \<Rightarrow> bool"
    and inv :: "'s \<Rightarrow> bool"
  assumes inv_init: "init s \<Longrightarrow> inv s"
    and inv_step: "inv s \<Longrightarrow> step s t \<Longrightarrow> inv t"
begin

lemma reaches_inv: "reaches init step s \<Longrightarrow> inv s"
  by (induction rule: reaches.induct) (auto intro: inv_init inv_step)

lemma steps_inv: "step\<^sup>*\<^sup>* s t \<Longrightarrow> inv s \<Longrightarrow> inv t"
  by (induction rule: rtranclp_induct) (auto intro: inv_step)

end

text \<open>A listed run from a reachable state, and a run of any length.\<close>

lemma reaches_run: "reaches init step s \<Longrightarrow> successively step (s # ss) \<Longrightarrow> t \<in> set (s # ss) \<Longrightarrow> reaches init step t"
  by (induction ss arbitrary: s) (auto intro: reaches_step)

lemma reaches_steps: "step\<^sup>*\<^sup>* s t \<Longrightarrow> reaches init step s \<Longrightarrow> reaches init step t"
  by (induction rule: rtranclp_induct) (auto intro: reaches_step)

section \<open>Lists\<close>

text \<open>Replacing one element changes a count by what the two elements differ in.\<close>

lemma length_filter_update:
  "i < length ts \<Longrightarrow> length (filter P (ts[i := t])) + (if P (ts ! i) then 1 else 0)
    = length (filter P ts) + (if P t then 1 else 0)"
proof (induction ts arbitrary: i)
  case (Cons a ts)
  then show ?case
    by (cases i) auto
qed simp

end
