(* ===== verification/Go_IO.thy ===== *)
theory Go_IO
  imports Prelude
begin

text \<open>
  What the sources use of Go's \<^verbatim>\<open>encoding/binary\<close>, \<^verbatim>\<open>io\<close> and \<^verbatim>\<open>bytes\<close>: big-endian 64-bit
  integers, \<^verbatim>\<open>io.ReadFull\<close>, \<^verbatim>\<open>io.CopyN\<close>, \<^verbatim>\<open>Buffer.Grow\<close>, \<^verbatim>\<open>Write\<close>. A reader is the bytes that
  will still arrive and the error that follows them (\<open>EOF\<close> for a closed connection and
  for a \<^verbatim>\<open>bytes.Buffer\<close>); a writer collects what was written and may fail after a number
  of further bytes. The locale \<open>prefix_codec\<close> is the contract of a self-delimiting
  encoding: reading back gives the value and leaves what follows, and a cut-off encoding is
  an error, never a value.
\<close>

section \<open>Readers and writers\<close>

record reader =
  rd_data :: "byte list"
  rd_end :: go_error

record writer =
  wr_out :: "byte list"
  wr_room :: "nat option"
  wr_err :: go_error

definition buffer_reader :: "byte list \<Rightarrow> reader" where
  "buffer_reader bs = \<lparr>rd_data = bs, rd_end = EOF\<rparr>"

text \<open>\<^verbatim>\<open>io.ReadFull\<close>: a short read with some bytes turns \<open>EOF\<close> into \<open>UnexpectedEOF\<close>.\<close>

definition read_full :: "nat \<Rightarrow> reader \<Rightarrow> (go_error + byte list) \<times> reader" where
  "read_full n r =
     (let d = rd_data r in
      if n \<le> length d then (Inr (take n d), r\<lparr>rd_data := drop n d\<rparr>)
      else (Inl (if d \<noteq> [] \<and> rd_end r = EOF then UnexpectedEOF else rd_end r),
            r\<lparr>rd_data := []\<rparr>))"

text \<open>\<^verbatim>\<open>io.CopyN(dst, src, n)\<close>: the bytes copied, the error, the rest of the source.\<close>

definition copyN :: "int \<Rightarrow> reader \<Rightarrow> byte list \<times> go_error option \<times> reader" where
  "copyN n r =
     (let d = rd_data r; k = nat n in
      if n \<le> 0 then ([], None, r)
      else if k \<le> length d then (take k d, None, r\<lparr>rd_data := drop k d\<rparr>)
      else (d, Some (rd_end r), r\<lparr>rd_data := []\<rparr>))"

text \<open>
  \<^verbatim>\<open>Buffer.Grow(n)\<close> panics on a negative count and when the memory cannot be had; the
  largest buffer the runtime provides is the parameter \<open>lim\<close>.
\<close>

definition buf_grow :: "nat \<Rightarrow> int \<Rightarrow> string option" where
  "buf_grow lim n =
     (if n < 0 then Some ''bytes.Buffer.Grow: negative count''
      else if lim < nat n then Some ''bytes.Buffer: too large''
      else None)"

text \<open>\<^verbatim>\<open>Write\<close>: all the bytes, or as many as the writer still takes and then its error.\<close>

definition wr_write :: "byte list \<Rightarrow> writer \<Rightarrow> go_error option \<times> writer" where
  "wr_write bs w =
     (case wr_room w of
        None \<Rightarrow> (None, w\<lparr>wr_out := wr_out w @ bs\<rparr>)
      | Some k \<Rightarrow>
          if length bs \<le> k
          then (None, w\<lparr>wr_out := wr_out w @ bs, wr_room := Some (k - length bs)\<rparr>)
          else (Some (wr_err w), w\<lparr>wr_out := wr_out w @ take k bs, wr_room := Some 0\<rparr>))"

section \<open>Big-endian integers\<close>

definition be_put :: "u64 \<Rightarrow> byte list" where
  "be_put w = List.map (\<lambda>i. ucast (drop_bit i w)) [56, 48, 40, 32, 24, 16, 8, 0]"

definition be_get :: "byte list \<Rightarrow> u64" where
  "be_get bs = foldl (\<lambda>acc b. or (push_bit 8 acc) (ucast b)) 0 bs"

definition read_u64 :: "reader \<Rightarrow> (go_error + u64) \<times> reader" where
  "read_u64 r =
     (case read_full 8 r of
        (Inl e, r') \<Rightarrow> (Inl e, r')
      | (Inr bs, r') \<Rightarrow> (Inr (be_get bs), r'))"

lemma length_be_put [simp]: "length (be_put w) = 8"
  by (simp add: be_put_def)

lemma be_put_not_Nil [simp]: "be_put w \<noteq> []"
  by (simp add: be_put_def)

lemma be_get_put [simp, wire_simps]: "be_get (be_put w) = w"
proof (rule bit_word_eqI)
  fix n :: nat
  assume "n < LENGTH(64)"
  then consider "n < 8" | "8 \<le> n" "n < 16" | "16 \<le> n" "n < 24" | "24 \<le> n" "n < 32"
    | "32 \<le> n" "n < 40" | "40 \<le> n" "n < 48" | "48 \<le> n" "n < 56" | "56 \<le> n" "n < 64"
    by fastforce
  then show "bit (be_get (be_put w)) n = bit w n"
    by cases (auto simp: be_get_def be_put_def bit_simps less_diff_conv2)
qed

lemma wr_write_unlimited [simp]:
  "wr_room w = None \<Longrightarrow> wr_write bs w = (None, w\<lparr>wr_out := wr_out w @ bs\<rparr>)"
  by (simp add: wr_write_def)

lemma write_out_prefix: "wr_write bs w = (e, w') \<Longrightarrow> \<exists>k. wr_out w' = wr_out w @ take k bs"
  by (auto simp: wr_write_def split: option.splits if_splits intro: exI [of _ "length bs"])

section \<open>Self-delimiting encodings\<close>

locale prefix_codec =
  fixes put :: "'a \<Rightarrow> byte list"
    and get :: "reader \<Rightarrow> (go_error + 'a) \<times> reader"
    and ok :: "'a \<Rightarrow> bool"
  assumes get_put: "ok x \<Longrightarrow>
      get \<lparr>rd_data = put x @ rest, rd_end = e\<rparr> = (Inr x, \<lparr>rd_data = rest, rd_end = e\<rparr>)"
    and get_cut: "ok x \<Longrightarrow> put x = p @ q \<Longrightarrow> q \<noteq> [] \<Longrightarrow>
      \<exists>err r. get \<lparr>rd_data = p, rd_end = e\<rparr> = (Inl err, r)"
begin

lemma get_put_all: "ok x \<Longrightarrow>
    get \<lparr>rd_data = put x, rd_end = e\<rparr> = (Inr x, \<lparr>rd_data = [], rd_end = e\<rparr>)"
  using get_put [of x "[]" e] by simp

lemma put_inj: "ok x \<Longrightarrow> ok y \<Longrightarrow> put x = put y \<Longrightarrow> x = y"
  by (metis get_put_all prod.inject sum.inject(2))

lemma put_prefix_free: "ok x \<Longrightarrow> ok y \<Longrightarrow> put x @ a = put y @ b \<Longrightarrow> x = y \<and> a = b"
  by (metis get_put prod.inject sum.inject(2) reader.iffs)

end

text \<open>One encoding after the other.\<close>

definition put_pair :: "('a \<Rightarrow> byte list) \<Rightarrow> ('b \<Rightarrow> byte list) \<Rightarrow> 'a \<times> 'b \<Rightarrow> byte list" where
  "put_pair pa pb x = pa (fst x) @ pb (snd x)"

definition get_pair :: "(reader \<Rightarrow> (go_error + 'a) \<times> reader) \<Rightarrow>
    (reader \<Rightarrow> (go_error + 'b) \<times> reader) \<Rightarrow> reader \<Rightarrow> (go_error + 'a \<times> 'b) \<times> reader" where
  "get_pair ga gb r =
     (case ga r of
        (Inl e, r1) \<Rightarrow> (Inl e, r1)
      | (Inr a, r1) \<Rightarrow>
          (case gb r1 of
             (Inl e, r2) \<Rightarrow> (Inl e, r2)
           | (Inr b, r2) \<Rightarrow> (Inr (a, b), r2)))"

definition ok_pair :: "('a \<Rightarrow> bool) \<Rightarrow> ('b \<Rightarrow> bool) \<Rightarrow> 'a \<times> 'b \<Rightarrow> bool" where
  "ok_pair oa ob x \<longleftrightarrow> oa (fst x) \<and> ob (snd x)"

locale pair_codec =
  A: prefix_codec putA getA okA + B: prefix_codec putB getB okB
  for putA :: "'a \<Rightarrow> byte list" and getA and okA
    and putB :: "'b \<Rightarrow> byte list" and getB and okB
begin

lemma get_pair_cut:
  assumes ok: "ok_pair okA okB x" and cut: "put_pair putA putB x = p @ q" and q: "q \<noteq> []"
  shows "\<exists>err r. get_pair getA getB \<lparr>rd_data = p, rd_end = e\<rparr> = (Inl err, r)"
proof -
  from ok have okA: "okA (fst x)" and okB: "okB (snd x)"
    by (simp_all add: ok_pair_def)
  from cut have "putA (fst x) @ putB (snd x) = p @ q"
    by (simp add: put_pair_def)
  then obtain us where "putA (fst x) = p @ us \<and> us @ putB (snd x) = q
      \<or> putA (fst x) @ us = p \<and> putB (snd x) = us @ q"
    unfolding append_eq_append_conv2 by blast
  with q consider us where "putA (fst x) = p @ us" "us \<noteq> []"
    | us where "p = putA (fst x) @ us" "putB (snd x) = us @ q"
    by (cases "us = []") auto
  then show ?thesis
  proof cases
    case 1
    with A.get_cut [OF okA, of p us e] show ?thesis
      by (auto simp: get_pair_def)
  next
    case 2
    with B.get_cut [OF okB 2(2) q, of e] show ?thesis
      by (auto simp: get_pair_def A.get_put [OF okA])
  qed
qed

end

sublocale pair_codec \<subseteq> prefix_codec "put_pair putA putB" "get_pair getA getB" "ok_pair okA okB"
  by unfold_locales
    (simp add: get_pair_def put_pair_def ok_pair_def A.get_put B.get_put, rule get_pair_cut)

section \<open>The wire formats\<close>

lemma prefix_split_le:
  assumes "xs @ ys = p @ q" and "length xs \<le> length p"
  obtains us where "p = xs @ us" and "ys = us @ q"
  using assms by (auto simp: append_eq_append_conv2)

lemma read_u64_put [simp, wire_simps]:
  "read_u64 \<lparr>rd_data = be_put w @ rest, rd_end = e\<rparr> = (Inr w, \<lparr>rd_data = rest, rd_end = e\<rparr>)"
  by (simp add: read_u64_def read_full_def)

lemma read_u64_short:
  "length p < 8 \<Longrightarrow> \<exists>err r. read_u64 \<lparr>rd_data = p, rd_end = e\<rparr> = (Inl err, r)"
  by (simp add: read_u64_def read_full_def)

interpretation u64c: prefix_codec be_put read_u64 "\<lambda>_. True"
proof
  fix x :: u64 and p q e
  assume "be_put x = p @ q" "q \<noteq> []"
  then have "length p < 8"
    by (metis length_append length_be_put length_greater_0_conv less_add_same_cancel1)
  then show "\<exists>err r. read_u64 \<lparr>rd_data = p, rd_end = e\<rparr> = (Inl err, r)"
    by (rule read_u64_short)
qed simp

text \<open>A frame: the length in eight bytes, then the bytes.\<close>

definition put_frame :: "byte list \<Rightarrow> byte list" where
  "put_frame bs = be_put (word_of_nat (length bs)) @ bs"

definition read_frame :: "reader \<Rightarrow> (go_error + byte list) \<times> reader" where
  "read_frame r =
     (case read_u64 r of
        (Inl e, r1) \<Rightarrow> (Inl e, r1)
      | (Inr n, r1) \<Rightarrow>
          (case copyN (sint n) r1 of
             (bs, Some e, r2) \<Rightarrow> (Inl e, r2)
           | (bs, None, r2) \<Rightarrow> (Inr bs, r2)))"

definition frame_ok :: "byte list \<Rightarrow> bool" where
  "frame_ok bs \<longleftrightarrow> length bs < 2 ^ 63"

lemma word_of_nat_length_0_iff: "frame_ok bs \<Longrightarrow> (word_of_nat (length bs) :: 64 word) = 0 \<longleftrightarrow> bs = []"
proof -
  assume "frame_ok bs"
  then have "sint (word_of_nat (length bs) :: 64 word) = int (length bs)"
    unfolding frame_ok_def by (rule sint_word_of_nat)
  then show ?thesis
    by (cases "bs = []") auto
qed

lemma copyN_exact [simp, wire_simps]:
  "frame_ok bs \<Longrightarrow> copyN (sint (word_of_nat (length bs) :: 64 word))
     \<lparr>rd_data = bs @ rest, rd_end = e\<rparr> = (bs, None, \<lparr>rd_data = rest, rd_end = e\<rparr>)"
  by (auto simp: copyN_def frame_ok_def sint_word_of_nat Let_def)

lemma copyN_exact_all [simp, wire_simps]:
  "frame_ok bs \<Longrightarrow> copyN (sint (word_of_nat (length bs) :: 64 word))
     \<lparr>rd_data = bs, rd_end = e\<rparr> = (bs, None, \<lparr>rd_data = [], rd_end = e\<rparr>)"
  using copyN_exact [of bs "[]" e] by simp

lemma copyN_short:
  "int (length p) < n \<Longrightarrow> copyN n \<lparr>rd_data = p, rd_end = e\<rparr> = (p, Some e, \<lparr>rd_data = [], rd_end = e\<rparr>)"
  by (auto simp: copyN_def Let_def)

text \<open>A length of \<open>2 ^ 63\<close> or more is negative after the conversion: nothing is read, no error.\<close>

lemma copyN_negative: "n < 0 \<Longrightarrow> copyN n r = ([], None, r)"
  by (simp add: copyN_def)

lemma read_frame_put [simp, wire_simps]:
  "frame_ok bs \<Longrightarrow> read_frame \<lparr>rd_data = put_frame bs @ rest, rd_end = e\<rparr>
     = (Inr bs, \<lparr>rd_data = rest, rd_end = e\<rparr>)"
  by (simp add: read_frame_def put_frame_def)

lemma read_frame_cut:
  assumes ok: "frame_ok bs" and cut: "put_frame bs = p @ q" and q: "q \<noteq> []"
  shows "\<exists>err r. read_frame \<lparr>rd_data = p, rd_end = e\<rparr> = (Inl err, r)"
proof (cases "length p < 8")
  case True
  with read_u64_short [of p e] show ?thesis
    by (auto simp: read_frame_def)
next
  case False
  with cut obtain us where p: "p = be_put (word_of_nat (length bs)) @ us" and bs: "bs = us @ q"
    using prefix_split_le [of "be_put (word_of_nat (length bs))" bs p q]
    by (auto simp: put_frame_def)
  from ok have "sint (word_of_nat (length bs) :: 64 word) = int (length bs)"
    unfolding frame_ok_def by (rule sint_word_of_nat)
  with bs q have "int (length us) < sint (word_of_nat (length bs) :: 64 word)"
    by simp
  then show ?thesis
    by (simp add: p read_frame_def copyN_short)
qed

interpretation framec: prefix_codec put_frame read_frame frame_ok
  by unfold_locales (auto intro: read_frame_cut)

interpretation hdr: pair_codec be_put read_u64 "\<lambda>_. True" put_frame read_frame frame_ok
  by unfold_locales

interpretation frames2: pair_codec put_frame read_frame frame_ok put_frame read_frame frame_ok
  by unfold_locales

interpretation resp: pair_codec be_put read_u64 "\<lambda>_. True"
    "put_pair put_frame put_frame" "get_pair read_frame read_frame" "ok_pair frame_ok frame_ok"
  by unfold_locales

end
