(* ===== verification/Codec.thy ===== *)
theory Codec
  imports Go_IO
begin

text \<open>
  \<^verbatim>\<open>codec/codec.go\<close>: the interface the client and the server encode and decode values
  with. A value of the program is of a type \<open>'v\<close> (what an \<^verbatim>\<open>interface{}\<close> holds); decoding
  writes into a target, so it maps the target's old content to its new content and an
  error. What the calls rely on is \<open>encodable\<close>, that a value has an encoding, and \<open>fits\<close>, that
  decoding it into the target at hand gives it back: a codec that switches on the type of its
  target does so only for targets of the right type.
\<close>

record 'v codec =
  Encode :: "'v \<Rightarrow> go_error + byte list"
  Decode :: "byte list \<Rightarrow> 'v \<Rightarrow> 'v \<times> go_error option"

definition encodable :: "'v codec \<Rightarrow> 'v set \<Rightarrow> bool" where
  "encodable cd V \<longleftrightarrow> (\<forall>v\<in>V. \<exists>raw. Encode cd v = Inr raw \<and> frame_ok raw)"

text \<open>The bytes of a value, where it has an encoding.\<close>

definition raw_of :: "'v codec \<Rightarrow> 'v \<Rightarrow> byte list" where
  "raw_of cd v = (case Encode cd v of Inl _ \<Rightarrow> [] | Inr raw \<Rightarrow> raw)"

text \<open>A target is fit for a value when decoding the value's bytes into it gives the value back.\<close>

definition fits :: "'v codec \<Rightarrow> 'v \<Rightarrow> 'v \<Rightarrow> bool" where
  "fits cd t v \<longleftrightarrow> Decode cd (raw_of cd v) t = (v, None)"

lemma encodable_raw: "encodable cd V \<Longrightarrow> v \<in> V \<Longrightarrow> Encode cd v = Inr (raw_of cd v) \<and> frame_ok (raw_of cd v)"
  by (auto simp: encodable_def raw_of_def split: sum.splits dest!: bspec)

text \<open>The frames of a list of values: what both sides write for arguments and results.\<close>

definition put_values :: "'v codec \<Rightarrow> 'v list \<Rightarrow> byte list" where
  "put_values cd vs = concat (List.map (\<lambda>v. put_frame (raw_of cd v)) vs)"

lemma put_values_simps [simp]:
  "put_values cd [] = []"
  "put_values cd (v # vs) = put_frame (raw_of cd v) @ put_values cd vs"
  by (simp_all add: put_values_def)

text \<open>A concrete codec: a value is its own encoding.\<close>

definition id_codec :: "byte list codec" where
  "id_codec = \<lparr>Encode = Inr, Decode = (\<lambda>raw _. (raw, None))\<rparr>"

lemma id_codec_simps [simp]:
  "Encode id_codec v = Inr v" "Decode id_codec raw t = (raw, None)" "raw_of id_codec v = v"
  by (simp_all add: id_codec_def raw_of_def)

lemma id_codec_encodable: "(\<And>v. v \<in> V \<Longrightarrow> frame_ok v) \<Longrightarrow> encodable id_codec V"
  by (simp add: encodable_def)

lemma id_codec_fits [simp]: "fits id_codec t v"
  by (simp add: fits_def)

lemma id_codec_fits_all: "list_all2 (fits id_codec) ts vs \<longleftrightarrow> length ts = length vs"
  by (auto simp: list_all2_conv_all_nth)

end
