(* ===== verification/Client_Request.thy ===== *)
theory Client_Request
  imports Codec
begin

text \<open>
  \<^verbatim>\<open>client_request.go\<close>: a request of the client, its encoding on the connection
  (\<open>cr_writeTo\<close>) and the decoding of its response (\<open>cr_readFrom\<close>). The buffered channel
  \<^verbatim>\<open>done\<close> has room for one signal and may be closed. Every error return and panic of the
  code is a branch; the largest buffer \<^verbatim>\<open>Grow\<close> can make is the parameter \<open>lim\<close>.
\<close>

section \<open>State\<close>

datatype done_chan = DoneEmpty | DoneFull | DoneClosed

record 'v client_request =
  cr_err :: "go_error option"
  cr_skip :: bool
  cr_done :: done_chan
  cr_args :: "'v list"
  cr_reply :: "'v list"
  cr_rBuf :: "byte list"
  cr_errLen :: u64
  cr_payloadLen :: u64
  cr_wBuf :: "byte list"
  cr_name :: "byte list"
  cr_nameLen :: u64

section \<open>Making a request\<close>

definition newClientRequest :: "'v client_request" where
  "newClientRequest =
     \<lparr>cr_err = None, cr_skip = False, cr_done = DoneEmpty, cr_args = [], cr_reply = [],
      cr_rBuf = [], cr_errLen = 0, cr_payloadLen = 0, cr_wBuf = [], cr_name = [], cr_nameLen = 0\<rparr>"

text \<open>\<^verbatim>\<open>Client.Request\<close> on the request object the pool returned.\<close>

definition cl_Request :: "string \<Rightarrow> 'v client_request \<Rightarrow> 'v client_request" where
  "cl_Request name r =
     r\<lparr>cr_name := bytes_of_string name,
       cr_nameLen := word_of_nat (length (bytes_of_string name))\<rparr>"

definition Args :: "'v list \<Rightarrow> 'v client_request \<Rightarrow> 'v client_request" where
  "Args args r = r\<lparr>cr_args := args\<rparr>"

definition Reply :: "'v list \<Rightarrow> 'v client_request \<Rightarrow> 'v client_request" where
  "Reply reply r = r\<lparr>cr_reply := reply\<rparr>"

section \<open>The done channel\<close>

text \<open>A send fills an empty channel, blocks on a full one and panics on a closed one.\<close>

fun done_send :: "done_chan \<Rightarrow> done_chan res" where
  "done_send DoneEmpty = Ok DoneFull"
| "done_send DoneFull = Blocked"
| "done_send DoneClosed = Panic ''send on closed channel''"

fun done_close :: "done_chan \<Rightarrow> done_chan res" where
  "done_close DoneClosed = Panic ''close of closed channel''"
| "done_close _ = Ok DoneClosed"

text \<open>The receive of \<^verbatim>\<open>reset\<close>, with its \<^verbatim>\<open>default\<close> branch.\<close>

fun done_drain :: "done_chan \<Rightarrow> done_chan" where
  "done_drain DoneFull = DoneEmpty"
| "done_drain d = d"

text \<open>A receive succeeds on a full channel and on a closed one.\<close>

definition done_ready :: "done_chan \<Rightarrow> bool" where
  "done_ready d \<longleftrightarrow> d \<noteq> DoneEmpty"

section \<open>Writing a request\<close>

text \<open>The loop over the arguments: what it appends to \<^verbatim>\<open>wBuf\<close>, and the first error.\<close>

fun cr_encode_args :: "'v codec \<Rightarrow> 'v list \<Rightarrow> byte list \<Rightarrow> go_error option \<times> byte list" where
  "cr_encode_args cd [] wb = (None, wb)"
| "cr_encode_args cd (v # vs) wb =
     (case Encode cd v of
        Inl e \<Rightarrow> (Some e, wb)
      | Inr raw \<Rightarrow> cr_encode_args cd vs (wb @ be_put (word_of_nat (length raw)) @ raw))"

definition cr_writeTo ::
    "'v codec \<Rightarrow> 'v client_request \<Rightarrow> writer \<Rightarrow> go_error option \<times> 'v client_request \<times> writer" where
  "cr_writeTo cd r w =
     (let wb1 = cr_wBuf r @ be_put (cr_nameLen r) @ cr_name r in
      case cr_encode_args cd (cr_args r) wb1 of
        (Some e, wb2) \<Rightarrow> (Some e, r\<lparr>cr_wBuf := wb2\<rparr>, w)
      | (None, wb2) \<Rightarrow>
          (case wr_write (be_put (word_of_nat (length wb2))) w of
             (Some e, w1) \<Rightarrow> (Some e, r\<lparr>cr_wBuf := wb2\<rparr>, w1)
           | (None, w1) \<Rightarrow>
               (case wr_write wb2 w1 of
                  (Some e, w2) \<Rightarrow>
                    (Some e, r\<lparr>cr_wBuf := drop (length (wr_out w2) - length (wr_out w1)) wb2\<rparr>, w2)
                | (None, w2) \<Rightarrow> (None, r\<lparr>cr_wBuf := []\<rparr>, w2))))"

section \<open>Reading a response\<close>

text \<open>The loop over the reply targets, reading from \<^verbatim>\<open>rBuf\<close>.\<close>

fun cr_decode_reply ::
    "nat \<Rightarrow> 'v codec \<Rightarrow> reader \<Rightarrow> 'v list \<Rightarrow> unit res \<times> reader \<times> 'v list" where
  "cr_decode_reply lim cd rb [] = (Ok (), rb, [])"
| "cr_decode_reply lim cd rb (v # vs) =
     (case read_u64 rb of
        (Inl e, rb1) \<Rightarrow> (Err e, rb1, v # vs)
      | (Inr sz, rb1) \<Rightarrow>
          (case buf_grow lim (sint sz) of
             Some p \<Rightarrow> (Panic p, rb1, v # vs)
           | None \<Rightarrow>
               (case copyN (sint sz) rb1 of
                  (raw, Some e, rb2) \<Rightarrow> (Err e, rb2, v # vs)
                | (raw, None, rb2) \<Rightarrow>
                    (case Decode cd raw v of
                       (v', Some e) \<Rightarrow> (Err e, rb2, v' # vs)
                     | (v', None) \<Rightarrow>
                         (case cr_decode_reply lim cd rb2 vs of
                            (res, rb3, vs') \<Rightarrow> (res, rb3, v' # vs'))))))"

text \<open>The payload part of \<^verbatim>\<open>readFrom\<close>, from the read of its length on.\<close>

definition cr_read_payload ::
    "nat \<Rightarrow> 'v codec \<Rightarrow> 'v client_request \<Rightarrow> reader \<Rightarrow> unit res \<times> 'v client_request \<times> reader" where
  "cr_read_payload lim cd r rd =
     (case read_u64 rd of
        (Inl e, rd1) \<Rightarrow> (Err e, r, rd1)
      | (Inr n, rd1) \<Rightarrow>
          (let r1 = r\<lparr>cr_payloadLen := n, cr_rBuf := []\<rparr> in
           case buf_grow lim (sint n) of
             Some p \<Rightarrow> (Panic p, r1, rd1)
           | None \<Rightarrow>
               (case copyN (sint n) rd1 of
                  (bs, Some e, rd2) \<Rightarrow> (Err e, r1\<lparr>cr_rBuf := bs\<rparr>, rd2)
                | (bs, None, rd2) \<Rightarrow>
                    (case cr_decode_reply lim cd (buffer_reader bs) (cr_reply r1) of
                       (res, rb, reply') \<Rightarrow>
                         (res, r1\<lparr>cr_rBuf := rd_data rb, cr_reply := reply'\<rparr>, rd2)))))"

text \<open>The error part, then the payload.\<close>

definition cr_read_body ::
    "nat \<Rightarrow> 'v codec \<Rightarrow> 'v client_request \<Rightarrow> reader \<Rightarrow> unit res \<times> 'v client_request \<times> reader" where
  "cr_read_body lim cd r rd =
     (case read_u64 rd of
        (Inl e, rd1) \<Rightarrow> (Err e, r, rd1)
      | (Inr n, rd1) \<Rightarrow>
          (let r1 = r\<lparr>cr_errLen := n\<rparr> in
           if 0 < n then
             (case buf_grow lim (sint n) of
                Some p \<Rightarrow> (Panic p, r1, rd1)
              | None \<Rightarrow>
                  (case copyN (sint n) rd1 of
                     (bs, Some e, rd2) \<Rightarrow> (Err e, r1\<lparr>cr_rBuf := cr_rBuf r1 @ bs\<rparr>, rd2)
                   | (bs, None, rd2) \<Rightarrow>
                       cr_read_payload lim cd
                         (r1\<lparr>cr_rBuf := cr_rBuf r1 @ bs,
                             cr_err := Some (ErrorString (string_of_bytes (cr_rBuf r1 @ bs)))\<rparr>)
                         rd2))
           else cr_read_payload lim cd r1 rd1))"

text \<open>\<^verbatim>\<open>readFrom\<close>: the body, and in any case, panics included, the deferred signal on \<^verbatim>\<open>done\<close>.\<close>

definition cr_readFrom ::
    "nat \<Rightarrow> 'v codec \<Rightarrow> 'v client_request \<Rightarrow> reader \<Rightarrow> unit res \<times> 'v client_request \<times> reader" where
  "cr_readFrom lim cd r rd =
     (case cr_read_body lim cd r rd of
        (res, r', rd') \<Rightarrow>
          (case done_send (cr_done r') of
             Ok d \<Rightarrow> (res, r'\<lparr>cr_done := d\<rparr>, rd')
           | Err e \<Rightarrow> (Err e, r', rd')
           | Panic p \<Rightarrow> (Panic p, r', rd')
           | Blocked \<Rightarrow> (Blocked, r', rd')))"

section \<open>Returning a request to the pool\<close>

definition cr_reset :: "'v client_request \<Rightarrow> 'v client_request" where
  "cr_reset r =
     r\<lparr>cr_err := None, cr_skip := False, cr_name := [], cr_args := [], cr_reply := [],
       cr_errLen := 0, cr_nameLen := 0, cr_payloadLen := 0, cr_rBuf := [], cr_wBuf := [],
       cr_done := done_drain (cr_done r)\<rparr>"

text \<open>A request whose channel is open is as good as new after \<^verbatim>\<open>reset\<close>.\<close>

lemma cr_reset_new: "cr_done r \<noteq> DoneClosed \<Longrightarrow> cr_reset r = newClientRequest"
  by (cases "cr_done r") (simp_all add: cr_reset_def newClientRequest_def)

section \<open>What a request writes\<close>

text \<open>The bytes of a call: the name, then the encoded arguments, in one frame.\<close>

definition call_payload :: "'v codec \<Rightarrow> string \<Rightarrow> 'v list \<Rightarrow> byte list" where
  "call_payload cd name args = put_frame (bytes_of_string name) @ put_values cd args"

lemma cr_encode_args_ok:
  "encodable cd V \<Longrightarrow> set vs \<subseteq> V \<Longrightarrow> cr_encode_args cd vs wb = (None, wb @ put_values cd vs)"
  by (induction vs arbitrary: wb) (auto simp: put_frame_def dest: encodable_raw)

lemma cr_encode_args_prefix: "cr_encode_args cd vs wb = (e, wb') \<Longrightarrow> \<exists>us. wb' = wb @ us"
proof (induction vs arbitrary: wb)
  case (Cons v vs)
  then show ?case
    by (cases "Encode cd v") (auto, metis append.assoc)
qed simp

lemma cr_writeTo_ok:
  assumes "encodable cd V" and "set (cr_args r) \<subseteq> V" and "wr_room w = None"
    and "cr_wBuf r = []" and "cr_name r = bytes_of_string name"
    and "cr_nameLen r = word_of_nat (length (bytes_of_string name))"
  shows "cr_writeTo cd r w =
    (None, r\<lparr>cr_wBuf := []\<rparr>,
     w\<lparr>wr_out := wr_out w @ put_frame (call_payload cd name (cr_args r))\<rparr>)"
  using cr_encode_args_ok [OF assms(1,2)] assms(3-)
  by (simp add: cr_writeTo_def Let_def call_payload_def put_frame_def add.assoc)

text \<open>An argument that cannot be encoded: nothing of the body reaches the connection.\<close>

lemma cr_writeTo_encode_error:
  assumes "cr_encode_args cd (cr_args r) wb = (Some e, wb')"
    and "wb = cr_wBuf r @ be_put (cr_nameLen r) @ cr_name r"
  shows "cr_writeTo cd r w = (Some e, r\<lparr>cr_wBuf := wb'\<rparr>, w)"
  using assms by (simp add: cr_writeTo_def Let_def)

section \<open>What a response does to a request\<close>

text \<open>
  The two frames of a response body, the error text and the payload, read without the
  limits of \<^verbatim>\<open>Grow\<close>, agree with what the code reads.
\<close>

definition within :: "nat \<Rightarrow> byte list \<Rightarrow> bool" where
  "within lim bs \<longleftrightarrow> frame_ok bs \<and> length bs \<le> lim"

lemma buf_grow_within [simp]:
  "within lim bs \<Longrightarrow> buf_grow lim (sint (word_of_nat (length bs) :: 64 word)) = None"
  by (simp add: buf_grow_def within_def frame_ok_def sint_word_of_nat)

lemma within_frame_ok [simp]: "within lim bs \<Longrightarrow> frame_ok bs"
  by (simp add: within_def)

lemma cr_decode_reply_ok:
  assumes "list_all2 (fits cd) ts vs"
    and "\<And>v. v \<in> set vs \<Longrightarrow> within lim (raw_of cd v)"
  shows "cr_decode_reply lim cd \<lparr>rd_data = put_values cd vs @ rest, rd_end = e\<rparr> ts
    = (Ok (), \<lparr>rd_data = rest, rd_end = e\<rparr>, vs)"
  using assms
proof (induction ts vs rule: list_all2_induct)
  case (Cons t ts v vs)
  have "frame_ok (raw_of cd v)"
    using Cons.prems [of v] by (intro within_frame_ok [of lim]) simp
  with Cons show ?case
    by (simp add: put_frame_def fits_def)
qed simp

text \<open>A complete response: the reply targets get the values, the error its text, no panic.\<close>

lemma cr_read_body_ok:
  assumes cd: "list_all2 (fits cd) (cr_reply r) vs"
    and lims: "\<And>v. v \<in> set vs \<Longrightarrow> within lim (raw_of cd v)" "within lim (put_values cd vs)"
      "within lim (bytes_of_string msg)"
    and buf: "cr_rBuf r = []"
  shows "cr_read_body lim cd r
      \<lparr>rd_data = put_frame (bytes_of_string msg) @ put_frame (put_values cd vs) @ rest, rd_end = e\<rparr>
    = (Ok (),
       r\<lparr>cr_errLen := word_of_nat (length msg),
         cr_err := (if msg = [] then cr_err r else Some (ErrorString msg)),
         cr_payloadLen := word_of_nat (length (put_values cd vs)), cr_reply := vs\<rparr>,
       \<lparr>rd_data = rest, rd_end = e\<rparr>)"
proof -
  have dec: "cr_decode_reply lim cd (buffer_reader (put_values cd vs)) (cr_reply r)
      = (Ok (), \<lparr>rd_data = [], rd_end = EOF\<rparr>, vs)"
    using cr_decode_reply_ok [OF cd lims(1), where rest = "[]" and e = EOF]
    by (simp add: buffer_reader_def)
  have grow: "buf_grow lim (sint (word_of_nat (length (put_values cd vs)) :: 64 word)) = None"
    using lims(2) by (rule buf_grow_within)
  have pos: "0 < (word_of_nat (length msg) :: 64 word) \<longleftrightarrow> msg \<noteq> []"
    using word_of_nat_length_0_iff [of "bytes_of_string msg"] lims(3)
    by (auto simp: word_neq_0_conv)
  have pay: "cr_read_payload lim cd q \<lparr>rd_data = put_frame (put_values cd vs) @ rest, rd_end = e\<rparr>
      = (Ok (), q\<lparr>cr_payloadLen := word_of_nat (length (put_values cd vs)), cr_rBuf := [],
           cr_reply := vs\<rparr>, \<lparr>rd_data = rest, rd_end = e\<rparr>)"
    if "cr_reply q = cr_reply r" for q :: "'a client_request"
    using that dec grow lims(2) by (simp add: cr_read_payload_def put_frame_def Let_def)
  show ?thesis
  proof (cases "msg = []")
    case True
    then show ?thesis
      using buf by (simp add: cr_read_body_def put_frame_def [of "[]"] pay Let_def)
  next
    case False
    then show ?thesis
      using buf pos buf_grow_within [OF lims(3)] copyN_exact [OF within_frame_ok [OF lims(3)]]
      by (simp add: cr_read_body_def put_frame_def [of "bytes_of_string msg"] pay Let_def)
  qed
qed

lemma cr_readFrom_ok:
  assumes "cr_read_body lim cd r rd = (res, r', rd')" and "cr_done r = DoneEmpty"
    and "cr_done r' = cr_done r"
  shows "cr_readFrom lim cd r rd = (res, r'\<lparr>cr_done := DoneFull\<rparr>, rd')"
  using assms by (simp add: cr_readFrom_def)

section \<open>What the request operations keep\<close>

lemma cr_read_payload_frame:
  "cr_read_payload lim cd r rd = (res, r', rd') \<Longrightarrow> cr_skip r' = cr_skip r \<and> cr_done r' = cr_done r"
  by (auto simp: cr_read_payload_def Let_def split: prod.splits sum.splits option.splits)

lemma cr_read_body_frame:
  "cr_read_body lim cd r rd = (res, r', rd') \<Longrightarrow> cr_skip r' = cr_skip r \<and> cr_done r' = cr_done r"
  by (auto simp: cr_read_body_def Let_def dest: cr_read_payload_frame
      split: prod.splits sum.splits option.splits if_splits)

lemma cr_decode_reply_not_Blocked: "fst (cr_decode_reply lim cd rb vs) \<noteq> Blocked"
proof (induction vs arbitrary: rb)
  case (Cons v vs)
  then show ?case
    by (auto split: prod.splits sum.splits option.splits) (metis fst_conv)+
qed simp

lemma cr_read_body_not_Blocked: "fst (cr_read_body lim cd r rd) \<noteq> Blocked"
  using cr_decode_reply_not_Blocked [of lim cd]
  by (auto simp: cr_read_body_def cr_read_payload_def Let_def
      split: prod.splits sum.splits option.splits) (metis fst_conv)+

lemma cr_readFrom_frame:
  assumes "cr_readFrom lim cd r rd = (res, r', rd')" and "cr_done r = DoneEmpty"
  shows "cr_skip r' = cr_skip r \<and> cr_done r' = DoneFull \<and> res \<noteq> Blocked"
  using assms cr_read_body_frame [of lim cd r rd] cr_read_body_not_Blocked [of lim cd r rd]
  by (auto simp: cr_readFrom_def split: prod.splits)

lemma cr_writeTo_frame:
  "cr_writeTo cd r w = (e, r', w') \<Longrightarrow>
    cr_skip r' = cr_skip r \<and> cr_done r' = cr_done r \<and> cr_err r' = cr_err r"
  by (auto simp: cr_writeTo_def Let_def split: prod.splits option.splits)

section \<open>Properties\<close>

lemma read_u64_cut:
  assumes "length p < 8"
  obtains err rd where "read_u64 \<lparr>rd_data = p, rd_end = e\<rparr> = (Inl err, rd)"
  using read_u64_short [OF assms, of e] by blast

lemma cr_read_payload_cut:
  assumes "within lim out" "put_frame out = p @ q" "q \<noteq> []"
  shows "\<exists>err r' rd'. cr_read_payload lim cd r \<lparr>rd_data = p, rd_end = e\<rparr> = (Err err, r', rd')
    \<and> cr_err r' = cr_err r \<and> cr_reply r' = cr_reply r"
proof (cases "length p < 8")
  case True
  then obtain err rd where "read_u64 \<lparr>rd_data = p, rd_end = e\<rparr> = (Inl err, rd)"
    by (rule read_u64_cut)
  then show ?thesis
    by (simp add: cr_read_payload_def)
next
  case False
  with assms(2) obtain us where p: "p = be_put (word_of_nat (length out)) @ us" and out: "out = us @ q"
    using prefix_split_le [of "be_put (word_of_nat (length out))" out p q] by (auto simp: put_frame_def)
  have "sint (word_of_nat (length out) :: 64 word) = int (length out)"
    using assms(1) by (simp add: sint_word_of_nat within_def frame_ok_def)
  with out assms(3) have "int (length us) < sint (word_of_nat (length out) :: 64 word)"
    by simp
  then show ?thesis
    using buf_grow_within [OF assms(1)] by (simp add: cr_read_payload_def p copyN_short Let_def)
qed

text \<open>A response without an error text that is cut off anywhere is an error for the reader of
  the connection; but the deferred signal is sent all the same, so the caller of the request
  is told it has an answer, without an error and with its reply targets as they were.\<close>

lemma truncated_response_signals:
  assumes "within lim out" "put_frame [] @ put_frame out = p @ q" "q \<noteq> []"
    and "cr_done r = DoneEmpty" "cr_err r = None"
  shows "\<exists>err r' rd'. cr_readFrom lim cd r \<lparr>rd_data = p, rd_end = e\<rparr> = (Err err, r', rd')
    \<and> cr_done r' = DoneFull \<and> cr_err r' = None \<and> cr_reply r' = cr_reply r"
proof -
  have "\<exists>err r' rd'. cr_read_body lim cd r \<lparr>rd_data = p, rd_end = e\<rparr> = (Err err, r', rd')
    \<and> cr_err r' = None \<and> cr_reply r' = cr_reply r"
  proof (cases "length p < 8")
    case True
    then obtain err rd where "read_u64 \<lparr>rd_data = p, rd_end = e\<rparr> = (Inl err, rd)"
      by (rule read_u64_cut)
    with assms(5) show ?thesis
      by (simp add: cr_read_body_def)
  next
    case False
    with assms(2) obtain us where p: "p = be_put 0 @ us" and out: "put_frame out = us @ q"
      using prefix_split_le [of "be_put 0" "put_frame out" p q] by (auto simp: put_frame_def [of "[]"])
    show ?thesis
      using cr_read_payload_cut [OF assms(1) out assms(3), of cd "r\<lparr>cr_errLen := 0\<rparr>" e] assms(5)
      by (simp add: cr_read_body_def p)
  qed
  then obtain err r' rd' where r': "cr_read_body lim cd r \<lparr>rd_data = p, rd_end = e\<rparr> = (Err err, r', rd')"
      "cr_err r' = None" "cr_reply r' = cr_reply r"
    by blast
  moreover have "cr_done r' = DoneEmpty"
    using cr_read_body_frame [OF r'(1)] assms(4) by simp
  ultimately show ?thesis
    by (simp add: cr_readFrom_def)
qed

lemma truncated_response_signals_witness:
  "\<exists>err r' rd'. cr_readFrom 9 id_codec (Reply [[7]] newClientRequest)
      \<lparr>rd_data = be_put 0 @ be_put 2 @ [1], rd_end = EOF\<rparr> = (Err err, r', rd')
    \<and> cr_done r' = DoneFull \<and> cr_err r' = None \<and> cr_reply r' = cr_reply (Reply [[7]] newClientRequest)"
  by (rule truncated_response_signals [where out = "[1, 2]" and q = "[2]"])
    (simp_all add: within_def frame_ok_def put_frame_def Reply_def newClientRequest_def)

text \<open>A request object that goes back to the pool is as good as new unless its channel was
  closed: \<^verbatim>\<open>reset\<close> empties the channel but does not make another, so the object of a drained
  request is ready at once whoever uses it again.\<close>

lemma reset_is_new:
  "cr_reset r = newClientRequest\<lparr>cr_done := (if cr_done r = DoneClosed then DoneClosed else DoneEmpty)\<rparr>"
  by (cases "cr_done r") (simp_all add: cr_reset_def newClientRequest_def)

end
