(* ===== verification/Client_Conn.thy ===== *)
theory Client_Conn
  imports Client_Request
begin

text \<open>
  \<^verbatim>\<open>handleConnection\<close>, \<^verbatim>\<open>connectionReader\<close>, \<^verbatim>\<open>connectionWriter\<close>, \<^verbatim>\<open>call\<close> and \<^verbatim>\<open>send\<close> of
  \<^verbatim>\<open>client.go\<close> as a machine: one connection (the default number), its two goroutines, the
  goroutine that waits for them and any number of callers. A step is what one goroutine does
  between two points where another can see the difference: a channel operation, a region
  under the lock, a read or a write. Request objects live in a store, because the queue, the
  table of pending requests and the callers share them. The network may replace what it will
  deliver at any time, so a closed or broken connection is a reader that ends in an error, and
  it may stop taking bytes after any number of them.
\<close>

section \<open>State\<close>

datatype writer_pc =
    WIdle
  | WWrite nat u64
  | WLoop
  | WDone go_error
  | WGone

datatype reader_pc = RIdle | RReading | RBody nat | RDone go_error | RGone

datatype handler_pc =
    HWait
  | HWaitWriter "go_error option"
  | HWaitReader "go_error option"
  | HWaitBoth
  | HDrain "go_error option"
  | HDone "go_error option"
  | HPanic

datatype caller_pc = CNone | CWait | CReturning | CReturned "go_error option"

record 'v conn_state =
  reqs :: "nat \<Rightarrow> 'v client_request"
  queue :: "nat list"
  pending :: "(u64 \<times> nat) list"
  nextId :: u64
  reqCount :: u64
  pool :: "nat list"
  wpc :: writer_pc
  rpc :: reader_pc
  hpc :: handler_pc
  callers :: "nat \<Rightarrow> caller_pc"
  incoming :: reader
  outgoing :: writer
  connStop :: bool
  clientStop :: bool

record 'v conn_env =
  env_lim :: nat
  env_codec :: "'v codec"
  env_max :: nat
  env_addr :: string

section \<open>Ids\<close>

text \<open>
  The loop that looks for a free id; \<open>None\<close> means that it does not end, which takes all
  \<open>2 ^ 64\<close> ids to be pending.
\<close>

partial_function (option) next_free :: "(u64 \<times> nat) list \<Rightarrow> u64 \<Rightarrow> u64 option" where
  "next_free p i = (if map_of p i = None then Some i else next_free p (i + 1))"

section \<open>The writer\<close>

definition overflow_error :: "string \<Rightarrow> nat \<Rightarrow> go_error" where
  "overflow_error addr n = ErrorString
     (''the Server '' @ quoted addr @ '' didn'' @ [CHR 0x27] @ ''t return '' @ quoted (utoa n)
      @ '' responses yet. Closing Server connection in order to prevent Client resource leaks'')"

definition store_request :: "'v conn_env \<Rightarrow> nat \<Rightarrow> 'v conn_state \<Rightarrow> 'v conn_state" where
  "store_request env q s =
     (let start = (if nextId s = 0 then 1 else nextId s); n = length (pending s) in
      case next_free (pending s) start of
        None \<Rightarrow> s\<lparr>wpc := WLoop\<rparr>
      | Some i \<Rightarrow>
          (let s1 = s\<lparr>nextId := i, pending := (i, q) # pending s, reqCount := reqCount s + 1\<rparr> in
           if env_max env < n then s1\<lparr>wpc := WDone (overflow_error (env_addr env) n)\<rparr>
           else s1\<lparr>wpc := WWrite q i\<rparr>))"

definition release :: "nat \<Rightarrow> 'v conn_state \<Rightarrow> 'v conn_state" where
  "release q s = s\<lparr>reqs := (reqs s)(q := cr_reset (reqs s q)), pool := q # pool s\<rparr>"

definition take_request :: "'v conn_env \<Rightarrow> nat \<Rightarrow> 'v conn_state \<Rightarrow> 'v conn_state" where
  "take_request env q s =
     (if cr_err (reqs s q) \<noteq> None then release q s
      else if cr_skip (reqs s q) then s\<lparr>wpc := WWrite q 0\<rparr>
      else store_request env q s)"

definition write_request :: "'v conn_env \<Rightarrow> nat \<Rightarrow> u64 \<Rightarrow> 'v conn_state \<Rightarrow> 'v conn_state" where
  "write_request env q i s =
     (case wr_write (be_put i) (outgoing s) of
        (Some e, w1) \<Rightarrow> s\<lparr>outgoing := w1, wpc := WDone e\<rparr>
      | (None, w1) \<Rightarrow>
          (case cr_writeTo (env_codec env) (reqs s q) w1 of
             (Some e, r, w2) \<Rightarrow> s\<lparr>reqs := (reqs s)(q := r), outgoing := w2, wpc := WDone e\<rparr>
           | (None, r, w2) \<Rightarrow>
               (let s1 = s\<lparr>reqs := (reqs s)(q := r), outgoing := w2, wpc := WIdle\<rparr> in
                if cr_skip r then release q s1 else s1)))"

section \<open>The reader\<close>

definition receive_id :: "'v conn_state \<Rightarrow> 'v conn_state" where
  "receive_id s =
     (case read_u64 (incoming s) of
        (Inl e, rd) \<Rightarrow> s\<lparr>incoming := rd, rpc := RDone e\<rparr>
      | (Inr i, rd) \<Rightarrow>
          (case map_of (pending s) i of
             None \<Rightarrow>
               s\<lparr>incoming := rd,
                 rpc := RDone (ErrorString (''unexpected message '' @ utoa (unat i)))\<rparr>
           | Some q \<Rightarrow>
               s\<lparr>incoming := rd, pending := filter (\<lambda>(j, _). j \<noteq> i) (pending s),
                 reqCount := reqCount s - 1, rpc := RBody q\<rparr>))"

fun after_body :: "unit res \<Rightarrow> reader_pc" where
  "after_body (Ok _) = RIdle"
| "after_body (Err e) = RDone e"
| "after_body (Panic p) = RDone (ErrorString (''panic occured: '' @ p))"
| "after_body Blocked = RReading"

text \<open>A send that blocks is a goroutine that stays where it is: the step is not taken.\<close>

definition receive_body :: "'v conn_env \<Rightarrow> nat \<Rightarrow> 'v conn_state \<Rightarrow> 'v conn_state option" where
  "receive_body env q s =
     (case cr_readFrom (env_lim env) (env_codec env) (reqs s q) (incoming s) of
        (res, r, rd) \<Rightarrow>
          if res = Blocked then None
          else Some (s\<lparr>reqs := (reqs s)(q := r), incoming := rd, rpc := after_body res\<rparr>))"

section \<open>The end of a connection\<close>

text \<open>
  The loop over the requests still pending: each gets the error and a closed channel. Closing
  a closed channel panics outside any \<^verbatim>\<open>recover\<close>. The table is local to the connection and
  gone when the goroutine returns.
\<close>

fun drain_list :: "go_error option \<Rightarrow> nat list \<Rightarrow> 'v conn_state \<Rightarrow> 'v conn_state" where
  "drain_list e [] s = s\<lparr>pending := [], hpc := HDone e\<rparr>"
| "drain_list e (q # qs) s =
     (case done_close (cr_done (reqs s q)) of
        Ok d \<Rightarrow>
          drain_list e qs
            (s\<lparr>reqs := (reqs s)(q := (reqs s q)\<lparr>cr_err := e, cr_done := d\<rparr>),
               reqCount := reqCount s - 1\<rparr>)
      | _ \<Rightarrow> s\<lparr>reqs := (reqs s)(q := (reqs s q)\<lparr>cr_err := e\<rparr>), hpc := HPanic\<rparr>)"

definition drain :: "go_error option \<Rightarrow> 'v conn_state \<Rightarrow> 'v conn_state" where
  "drain e s = drain_list e (List.map snd (pending s)) s"

section \<open>The machine\<close>

fun reader_holds :: "reader_pc \<Rightarrow> nat list" where
  "reader_holds (RBody q) = [q]"
| "reader_holds _ = []"

text \<open>A request without reply is the writer's alone until it is written.\<close>

fun writer_holds :: "(nat \<Rightarrow> bool) \<Rightarrow> writer_pc \<Rightarrow> nat list" where
  "writer_holds skip (WWrite q i) = (if skip q then [q] else [])"
| "writer_holds skip _ = []"

definition skips :: "'v conn_state \<Rightarrow> nat \<Rightarrow> bool" where
  "skips s = (\<lambda>q. cr_skip (reqs s q))"

definition in_flight :: "'v conn_state \<Rightarrow> nat list" where
  "in_flight s = queue s @ List.map snd (pending s) @ reader_holds (rpc s)
     @ writer_holds (skips s) (wpc s)"

text \<open>The objects some goroutine of the connection still works on.\<close>

definition in_use :: "'v conn_state \<Rightarrow> nat set" where
  "in_use s = set (in_flight s) \<union> set (writer_holds (\<lambda>_. True) (wpc s))"

text \<open>A request object as \<^verbatim>\<open>Call\<close> and \<^verbatim>\<open>Send\<close> put it into the queue: new, or reset.\<close>

definition fresh_request :: "'v client_request \<Rightarrow> bool" where
  "fresh_request r \<longleftrightarrow> cr_err r = None \<and> cr_done r = DoneEmpty \<and> cr_wBuf r = []"

inductive cstep :: "'v conn_env \<Rightarrow> 'v conn_state \<Rightarrow> 'v conn_state \<Rightarrow> bool"
  for env :: "'v conn_env" where
  c_call: "length (queue s) < env_max env \<Longrightarrow> q \<notin> in_use s \<Longrightarrow> callers s q \<noteq> CWait \<Longrightarrow>
    fresh_request r \<Longrightarrow> \<not> cr_skip r \<Longrightarrow>
    cstep env s (s\<lparr>reqs := (reqs s)(q := r), queue := queue s @ [q], pool := removeAll q (pool s),
      callers := (callers s)(q := CWait)\<rparr>)"
| c_send: "length (queue s) < env_max env \<Longrightarrow> q \<notin> in_use s \<Longrightarrow> callers s q \<noteq> CWait \<Longrightarrow>
    fresh_request r \<Longrightarrow> cr_skip r \<Longrightarrow>
    cstep env s (s\<lparr>reqs := (reqs s)(q := r), queue := queue s @ [q], pool := removeAll q (pool s),
      callers := (callers s)(q := CNone)\<rparr>)"
| c_cancel: "callers s q = CWait \<Longrightarrow>
    cstep env s (s\<lparr>reqs := (reqs s)(q := (reqs s q)\<lparr>cr_err := Some e\<rparr>),
      callers := (callers s)(q := CReturning)\<rparr>)"
| c_done: "callers s q = CWait \<Longrightarrow> done_ready (cr_done (reqs s q)) \<Longrightarrow>
    cstep env s (s\<lparr>reqs := (reqs s)(q := (reqs s q)\<lparr>cr_done := done_drain (cr_done (reqs s q))\<rparr>),
      callers := (callers s)(q := CReturning)\<rparr>)"
| c_return: "callers s q = CReturning \<Longrightarrow>
    cstep env s (s\<lparr>callers := (callers s)(q := CReturned (cr_err (reqs s q)))\<rparr>)"
| w_stop: "wpc s = WIdle \<Longrightarrow> connStop s \<Longrightarrow> cstep env s (s\<lparr>wpc := WDone ErrClientStopped\<rparr>)"
| w_take: "wpc s = WIdle \<Longrightarrow> queue s = q # qs \<Longrightarrow> cstep env s (take_request env q (s\<lparr>queue := qs\<rparr>))"
| w_write: "wpc s = WWrite q i \<Longrightarrow> cstep env s (write_request env q i s)"
| r_check: "rpc s = RIdle \<Longrightarrow>
    cstep env s (s\<lparr>rpc := (if connStop s then RDone ErrClientStopped else RReading)\<rparr>)"
| r_id: "rpc s = RReading \<Longrightarrow> cstep env s (receive_id s)"
| r_body: "rpc s = RBody q \<Longrightarrow> receive_body env q s = Some t \<Longrightarrow> cstep env s t"
| h_reader: "hpc s = HWait \<Longrightarrow> rpc s = RDone e \<Longrightarrow>
    cstep env s (s\<lparr>rpc := RGone, connStop := True, hpc := HWaitWriter (Some e)\<rparr>)"
| h_writer: "hpc s = HWait \<Longrightarrow> wpc s = WDone e \<Longrightarrow>
    cstep env s (s\<lparr>wpc := WGone, connStop := True, hpc := HWaitReader (Some e)\<rparr>)"
| h_stop: "hpc s = HWait \<Longrightarrow> clientStop s \<Longrightarrow> cstep env s (s\<lparr>connStop := True, hpc := HWaitBoth\<rparr>)"
| h_both: "hpc s = HWaitBoth \<Longrightarrow> rpc s = RDone e \<Longrightarrow>
    cstep env s (s\<lparr>rpc := RGone, hpc := HWaitWriter None\<rparr>)"
| h_last_writer: "hpc s = HWaitWriter err \<Longrightarrow> wpc s = WDone e \<Longrightarrow>
    cstep env s (s\<lparr>wpc := WGone, hpc := HDrain err\<rparr>)"
| h_last_reader: "hpc s = HWaitReader err \<Longrightarrow> rpc s = RDone e \<Longrightarrow>
    cstep env s (s\<lparr>rpc := RGone, hpc := HDrain err\<rparr>)"
| h_drain: "hpc s = HDrain err \<Longrightarrow> cstep env s (drain err s)"
| n_network: "cstep env s (s\<lparr>incoming := rd\<rparr>)"
| n_break: "cstep env s (s\<lparr>outgoing := (outgoing s)\<lparr>wr_room := k, wr_err := e\<rparr>\<rparr>)"
| n_stop: "cstep env s (s\<lparr>clientStop := True\<rparr>)"

definition conn_init :: "'v conn_state \<Rightarrow> bool" where
  "conn_init s \<longleftrightarrow> queue s = [] \<and> pending s = [] \<and> nextId s = 0 \<and> reqCount s = 0 \<and> pool s = []
     \<and> wpc s = WIdle \<and> rpc s = RIdle \<and> hpc s = HWait \<and> callers s = (\<lambda>_. CNone)
     \<and> \<not> connStop s \<and> \<not> clientStop s"

section \<open>Ids are fresh\<close>

lemma next_free_skips:
  "(\<And>l. l < k \<Longrightarrow> map_of p (i + word_of_nat l) \<noteq> None) \<Longrightarrow> map_of p (i + word_of_nat k) = None \<Longrightarrow>
    next_free p i = Some (i + word_of_nat k)"
proof (induction k arbitrary: i)
  case 0
  then show ?case
    by (subst next_free.simps) simp
next
  case (Suc k)
  have "map_of p (i + 1 + word_of_nat l) \<noteq> None" if "l < k" for l
    using Suc.prems(1) [of "Suc l"] that by (simp add: add.assoc)
  moreover have "map_of p (i + 1 + word_of_nat k) = None"
    using Suc.prems(2) by (simp add: add.assoc)
  ultimately have "next_free p (i + 1) = Some (i + 1 + word_of_nat k)"
    by (rule Suc.IH)
  with Suc.prems(1) [of 0] show ?case
    by (subst next_free.simps) (auto simp: add.assoc)
qed

text \<open>
  With fewer than \<open>2 ^ 64\<close> pending requests the loop ends, at the first free id from its
  start on; it passes at most as many ids as are pending.
\<close>

lemma next_free_spec:
  assumes "length p < 2 ^ 64"
  obtains k where "k \<le> length p" and "next_free p i = Some (i + word_of_nat k)"
    and "map_of p (i + word_of_nat k) = None" and "\<And>l. l < k \<Longrightarrow> map_of p (i + word_of_nat l) \<noteq> None"
proof -
  let ?f = "\<lambda>l. i + (word_of_nat l :: u64)"
  have inj: "inj_on ?f {..length p}"
    using assms by (auto intro!: inj_onI simp: word_of_nat_eq_iff take_bit_nat_eq_self)
  have "\<exists>l\<le>length p. map_of p (?f l) = None"
  proof (rule ccontr)
    assume "\<not> (\<exists>l\<le>length p. map_of p (?f l) = None)"
    then have "?f ` {..length p} \<subseteq> fst ` set p"
      by (auto simp: map_of_eq_None_iff)
    then have "card (?f ` {..length p}) \<le> card (fst ` set p)"
      by (intro card_mono) simp_all
    also have "card (fst ` set p) \<le> length p"
      by (metis card_length length_map list.set_map)
    finally show False
      using card_image [OF inj] by simp
  qed
  then obtain l where l: "l \<le> length p" "map_of p (?f l) = None"
    by blast
  define k where "k = (LEAST l. map_of p (?f l) = None)"
  have k: "map_of p (?f k) = None" "k \<le> length p"
    using LeastI [of "\<lambda>l. map_of p (?f l) = None" l] Least_le [of "\<lambda>l. map_of p (?f l) = None" l] l
    by (auto simp: k_def)
  have before: "\<And>m. m < k \<Longrightarrow> map_of p (?f m) \<noteq> None"
    unfolding k_def by (rule not_less_Least)
  from next_free_skips [OF before k(1)] before k show ?thesis
    by (intro that [of k]) simp_all
qed

text \<open>Below the wrap-around the id found is not smaller than the start, so it is not 0.\<close>

lemma next_free_no_wrap:
  assumes "next_free p i = Some j" and "unat i + length p < 2 ^ 64"
  shows "unat i \<le> unat j \<and> unat j \<le> unat i + length p"
proof -
  have "length p < 2 ^ 64"
    using assms(2) by simp
  then obtain k where k: "k \<le> length p" "j = i + word_of_nat k"
    using assms(1) by (elim next_free_spec [of p i]) simp
  then have "unat j = (unat i + k) mod 2 ^ 64"
    by (simp add: unat_word_ariths unat_of_nat mod_add_right_eq)
  with k(1) assms(2) show ?thesis
    by simp
qed

section \<open>The invariant\<close>

text \<open>Every request object is in one place, and its channel is empty while it is in flight.\<close>

definition inv_objects :: "'v conn_state \<Rightarrow> bool" where
  "inv_objects s \<longleftrightarrow> distinct (in_flight s @ pool s)
     \<and> (\<forall>q\<in>set (in_flight s). cr_done (reqs s q) = DoneEmpty)"

text \<open>The ids are distinct, the counter counts the pending requests, and they are bounded.\<close>

definition writer_active :: "'v conn_state \<Rightarrow> bool" where
  "writer_active s \<longleftrightarrow> (case wpc s of WIdle \<Rightarrow> True | WWrite q i \<Rightarrow> True | _ \<Rightarrow> False)"

definition inv_table :: "'v conn_env \<Rightarrow> 'v conn_state \<Rightarrow> bool" where
  "inv_table env s \<longleftrightarrow> distinct (List.map fst (pending s))
     \<and> reqCount s = word_of_nat (length (pending s))
     \<and> length (pending s) \<le> env_max env + (if writer_active s then 1 else 2)
     \<and> wpc s \<noteq> WLoop"

text \<open>A caller that waits has its request on the way, or its channel is ready.\<close>

definition on_the_way :: "'v conn_state \<Rightarrow> nat \<Rightarrow> bool" where
  "on_the_way s q \<longleftrightarrow> q \<in> set (queue s) \<and> cr_err (reqs s q) = None
     \<or> q \<in> snd ` set (pending s) \<or> rpc s = RBody q"

definition inv_waiting :: "'v conn_state \<Rightarrow> bool" where
  "inv_waiting s \<longleftrightarrow> (\<forall>q. callers s q = CWait \<longrightarrow>
     \<not> cr_skip (reqs s q) \<and> (on_the_way s q \<or> done_ready (cr_done (reqs s q))))"

text \<open>
  Which goroutines have ended when the connection's goroutine is at which point; it leaves its
  first \<^verbatim>\<open>select\<close> only after closing the channel that stops the two.
\<close>

fun phase_ok :: "handler_pc \<Rightarrow> bool \<Rightarrow> bool \<Rightarrow> bool \<Rightarrow> bool" where
  "phase_ok HWait r w p = (\<not> r \<and> \<not> w)"
| "phase_ok HWaitBoth r w p = (\<not> r \<and> \<not> w)"
| "phase_ok (HWaitWriter e) r w p = (r \<and> \<not> w)"
| "phase_ok (HWaitReader e) r w p = (\<not> r \<and> w)"
| "phase_ok (HDrain e) r w p = (r \<and> w)"
| "phase_ok (HDone e) r w p = (r \<and> w \<and> p)"
| "phase_ok HPanic r w p = False"

definition inv_phase :: "'v conn_state \<Rightarrow> bool" where
  "inv_phase s \<longleftrightarrow> phase_ok (hpc s) (rpc s = RGone) (wpc s = WGone) (pending s = [])
     \<and> (hpc s \<noteq> HWait \<longrightarrow> connStop s)"

definition conn_inv :: "'v conn_env \<Rightarrow> 'v conn_state \<Rightarrow> bool" where
  "conn_inv env s \<longleftrightarrow> inv_objects s \<and> inv_table env s \<and> inv_waiting s \<and> inv_phase s"

end
