(* ===== verification/Client_Conn_Inv.thy ===== *)
theory Client_Conn_Inv
  imports Client_Conn
begin

text \<open>
  Every step of the client's connection keeps the invariant \<open>conn_inv\<close>: a lemma per step and
  part of the invariant, then all steps together, then the machine as an interpretation of
  \<open>machine_invariant\<close> and what follows for its reachable states.
\<close>

section \<open>Each step keeps each part\<close>

lemma writer_holds_cong: "(\<And>q. q \<in> set (writer_holds (\<lambda>_. True) w) \<Longrightarrow> f q = g q) \<Longrightarrow> writer_holds f w = writer_holds g w"
  by (cases w) auto

lemma inv_call_objects:
  assumes "inv_objects s" "q \<notin> in_use s" "fresh_request r"
  shows "inv_objects (s\<lparr>reqs := (reqs s)(q := r), queue := queue s @ [q],
    pool := removeAll q (pool s), callers := cs\<rparr>)" (is "inv_objects ?t")
proof -
  have "writer_holds (skips ?t) (wpc s) = writer_holds (skips s) (wpc s)"
    using assms(2) by (intro writer_holds_cong) (auto simp: in_use_def skips_def)
  with assms show ?thesis
  by (auto simp: inv_objects_def in_flight_def in_use_def fresh_request_def distinct_removeAll)
qed

lemma inv_call_waiting:
  "inv_waiting s \<Longrightarrow> q \<notin> in_use s \<Longrightarrow> fresh_request r \<Longrightarrow> inv_waiting (s\<lparr>reqs := (reqs s)(q := r), queue := queue s @ [q],
    pool := removeAll q (pool s), callers := (callers s)(q := (if cr_skip r then CNone else CWait))\<rparr>)"
  by (auto simp: inv_waiting_def on_the_way_def in_flight_def in_use_def fresh_request_def)

lemma inv_release_objects: 
  "inv_objects (s\<lparr>queue := q # queue s\<rparr>) \<Longrightarrow> wpc s = WIdle \<Longrightarrow> inv_objects (release q s)"
  by (auto simp: inv_objects_def in_flight_def release_def)

lemma store_request_cases:
  assumes "length (pending s) < 2 ^ 64"
  obtains i where "map_of (pending s) i = None"
    and "store_request env q s = s\<lparr>nextId := i, pending := (i, q) # pending s, reqCount := reqCount s + 1,
      wpc := (if env_max env < length (pending s)
              then WDone (overflow_error (env_addr env) (length (pending s))) else WWrite q i)\<rparr>"
proof -
  let ?start = "if nextId s = 0 then 1 else nextId s"
  obtain k where "next_free (pending s) ?start = Some (?start + word_of_nat k)"
      and "map_of (pending s) (?start + word_of_nat k) = None"
    using assms by (rule next_free_spec)
  then show ?thesis
    by (intro that [of "?start + word_of_nat k"]) (simp_all add: store_request_def Let_def)
qed

lemma inv_store_objects:
  assumes "inv_objects (s\<lparr>queue := q # queue s\<rparr>)" "wpc s = WIdle" "length (pending s) < 2 ^ 64" "\<not> cr_skip (reqs s q)"
  shows "inv_objects (store_request env q s)"
  using assms(3)
  by (cases rule: store_request_cases [of s env q])
    (use assms in \<open>auto simp: inv_objects_def in_flight_def skips_def\<close>)

lemma inv_take_objects:
  "inv_objects s \<Longrightarrow> wpc s = WIdle \<Longrightarrow> queue s = q # qs \<Longrightarrow> length (pending s) < 2 ^ 64 \<Longrightarrow> inv_objects (take_request env q (s\<lparr>queue := qs\<rparr>))"
  using inv_release_objects [of q "s\<lparr>queue := qs\<rparr>"] inv_store_objects [of q "s\<lparr>queue := qs\<rparr>" env]
  by (auto simp: take_request_def inv_objects_def in_flight_def skips_def)

lemma inv_take_table:
  assumes "inv_table env s" "wpc s = WIdle" "length (pending s) < 2 ^ 64"
  shows "inv_table env (take_request env q (s\<lparr>queue := qs\<rparr>))"
proof -
  have "length (pending (s\<lparr>queue := qs\<rparr>)) < 2 ^ 64"
    using assms(3) by simp
  then have "inv_table env (store_request env q (s\<lparr>queue := qs\<rparr>))"
    by (cases rule: store_request_cases [of _ env q])
      (use assms in \<open>auto simp: inv_table_def writer_active_def map_of_eq_None_iff add.commute\<close>)
  with assms show ?thesis
    by (auto simp: take_request_def release_def inv_table_def writer_active_def)
qed

lemma queued_waiting:
  assumes "inv_waiting s" "inv_objects s" "q \<in> set (queue s)" "callers s q = CWait"
  shows "cr_err (reqs s q) = None \<and> \<not> cr_skip (reqs s q)"
proof -
  from assms(2,3) have "q \<notin> snd ` set (pending s)" "rpc s \<noteq> RBody q" "\<not> done_ready (cr_done (reqs s q))"
    by (auto simp: inv_objects_def in_flight_def done_ready_def)
  with assms(1,4) show ?thesis
    by (auto simp: inv_waiting_def on_the_way_def)
qed

lemma inv_take_waiting:
  assumes "inv_waiting s" "inv_objects s" "queue s = q # qs" "length (pending s) < 2 ^ 64"
  shows "inv_waiting (take_request env q (s\<lparr>queue := qs\<rparr>))"
proof -
  have q: "callers s q = CWait \<Longrightarrow> cr_err (reqs s q) = None \<and> \<not> cr_skip (reqs s q)"
    using assms(1-3) by (intro queued_waiting) simp_all
  consider "cr_err (reqs s q) \<noteq> None" | "cr_err (reqs s q) = None" "cr_skip (reqs s q)"
    | "cr_err (reqs s q) = None" "\<not> cr_skip (reqs s q)"
    by blast
  then show ?thesis
  proof cases
    case 1
    with q have "callers s q \<noteq> CWait"
      by auto
    with 1 assms(1,3) show ?thesis
      by (auto simp: take_request_def release_def inv_waiting_def on_the_way_def)
  next
    case 2
    with q have "callers s q \<noteq> CWait"
      by auto
    with 2 assms(1,3) show ?thesis
      by (auto simp: take_request_def inv_waiting_def on_the_way_def)
  next
    case 3
    have "length (pending (s\<lparr>queue := qs\<rparr>)) < 2 ^ 64"
      using assms(4) by simp
    then have "inv_waiting (store_request env q (s\<lparr>queue := qs\<rparr>))"
      by (cases rule: store_request_cases [of _ env q])
        (use 3 assms(1,3) in \<open>auto simp: inv_waiting_def on_the_way_def\<close>)
    with 3 show ?thesis
      by (simp add: take_request_def)
  qed
qed

lemma write_request_cases:
  obtains (fail) r w e where "write_request env q i s = s\<lparr>reqs := (reqs s)(q := r), outgoing := w, wpc := WDone e\<rparr>"
    and "cr_skip r = cr_skip (reqs s q)" "cr_done r = cr_done (reqs s q)" "cr_err r = cr_err (reqs s q)"
  | (written) r w where "write_request env q i s = s\<lparr>reqs := (reqs s)(q := r), outgoing := w, wpc := WIdle\<rparr>"
    and "\<not> cr_skip r" "cr_skip r = cr_skip (reqs s q)" "cr_done r = cr_done (reqs s q)" "cr_err r = cr_err (reqs s q)"
  | (released) r w where "write_request env q i s = release q (s\<lparr>reqs := (reqs s)(q := r), outgoing := w, wpc := WIdle\<rparr>)"
    and "cr_skip r" "cr_skip r = cr_skip (reqs s q)"
proof (cases "wr_write (be_put i) (outgoing s)")
  case (Pair x w1)
  show ?thesis
  proof (cases x)
    case (Some e)
    with Pair show ?thesis
      by (intro fail [where r = "reqs s q" and w = w1 and e = e]) (simp_all add: write_request_def)
  next
    case None
    obtain x' r w2 where r: "cr_writeTo (env_codec env) (reqs s q) w1 = (x', r, w2)"
      by (cases "cr_writeTo (env_codec env) (reqs s q) w1") auto
    note f = cr_writeTo_frame [OF r]
    show ?thesis
    proof (cases x')
      case (Some e)
      with Pair None r f show ?thesis
        by (intro fail [where r = r and w = w2 and e = e]) (simp_all add: write_request_def)
    next
      case x': None
      with Pair None r f show ?thesis
        by (cases "cr_skip r")
          (simp_all add: write_request_def Let_def written [where r = r and w = w2] released [where r = r and w = w2])
    qed
  qed
qed

lemma inv_write_objects:
  assumes "inv_objects s" "wpc s = WWrite q i"
  shows "inv_objects (write_request env q i s)"
  by (cases rule: write_request_cases [of env q i s])
    (use assms in \<open>auto simp: inv_objects_def in_flight_def skips_def release_def split: if_splits\<close>)

lemma inv_write_waiting:
  assumes "inv_waiting s"
  shows "inv_waiting (write_request env q i s)"
  by (cases rule: write_request_cases [of env q i s])
    (use assms in \<open>auto simp: inv_waiting_def on_the_way_def release_def\<close>)

lemma inv_write_table:
  assumes "inv_table env s" "wpc s = WWrite q i"
  shows "inv_table env (write_request env q i s)"
  by (cases rule: write_request_cases [of env q i s])
    (use assms in \<open>auto simp: inv_table_def writer_active_def release_def\<close>)

lemma inv_write_phase: 
  assumes "inv_phase s" "wpc s = WWrite q i"
  shows "inv_phase (write_request env q i s)"
  by (cases rule: write_request_cases [of env q i s])
    (use assms in \<open>auto simp: inv_phase_def release_def split: handler_pc.splits\<close>)

lemma filter_key:
  assumes "distinct (List.map fst p)" and "map_of p i = Some q"
  obtains xs ys where "p = xs @ (i, q) # ys" and "filter (\<lambda>(j, _). j \<noteq> i) p = xs @ ys"
proof -
  obtain xs ys where p: "p = xs @ (i, q) # ys"
    using map_of_SomeD [OF assms(2)] by (meson split_list)
  with assms(1) have "filter (\<lambda>(j, _). j \<noteq> i) xs = xs" "filter (\<lambda>(j, _). j \<noteq> i) ys = ys"
    by (force intro!: filter_True)+
  with p show ?thesis
    by (intro that) simp_all
qed

lemma receive_id_cases:
  assumes "inv_table env s"
  obtains (fail) e rd where "receive_id s = s\<lparr>incoming := rd, rpc := RDone e\<rparr>"
  | (found) i q xs ys rd where "pending s = xs @ (i, q) # ys"
    and "receive_id s = s\<lparr>incoming := rd, pending := xs @ ys, reqCount := reqCount s - 1, rpc := RBody q\<rparr>"
proof (cases "read_u64 (incoming s)")
  case (Pair x rd)
  show ?thesis
  proof (cases "\<exists>i q. x = Inr i \<and> map_of (pending s) i = Some q")
    case True
    then obtain i q where x: "x = Inr i" "map_of (pending s) i = Some q"
      by blast
    from assms have "distinct (List.map fst (pending s))"
      by (simp add: inv_table_def)
    then obtain xs ys where "pending s = xs @ (i, q) # ys"
        and "filter (\<lambda>(j, _). j \<noteq> i) (pending s) = xs @ ys"
      using x(2) by (rule filter_key)
    with x Pair show ?thesis
      by (intro found [of xs i q ys rd]) (simp_all add: receive_id_def)
  next
    case False
    with Pair show ?thesis
      by (cases x) (auto simp: receive_id_def intro: fail)
  qed
qed

lemma inv_id_objects:
  assumes "inv_objects s" "inv_table env s" "rpc s = RReading"
  shows "inv_objects (receive_id s)"
  using assms(2)
  by (cases rule: receive_id_cases) (use assms in \<open>auto simp: inv_objects_def in_flight_def skips_def\<close>)

lemma inv_id_table:
  assumes "inv_table env s" 
  shows "inv_table env (receive_id s)"
  using assms
  by (cases rule: receive_id_cases) (use assms in \<open>auto simp: inv_table_def writer_active_def\<close>)

lemma inv_id_waiting:
  assumes "inv_waiting s" "inv_table env s" "rpc s = RReading"
  shows "inv_waiting (receive_id s)"
  using assms(2)
  by (cases rule: receive_id_cases) (use assms in \<open>auto simp: inv_waiting_def on_the_way_def\<close>)

lemma inv_body_objects:
  assumes "inv_objects s" "rpc s = RBody q" "receive_body env q s = Some t"
  shows "inv_objects t"
proof -
  obtain res r rd where r: "cr_readFrom (env_lim env) (env_codec env) (reqs s q) (incoming s) = (res, r, rd)"
    by (cases "cr_readFrom (env_lim env) (env_codec env) (reqs s q) (incoming s)")
  have "cr_done (reqs s q) = DoneEmpty"
    using assms by (simp add: inv_objects_def in_flight_def)
  with r have f: "cr_skip r = cr_skip (reqs s q)" "res \<noteq> Blocked"
    by (auto dest: cr_readFrom_frame)
  then have t: "t = s\<lparr>reqs := (reqs s)(q := r), incoming := rd, rpc := after_body res\<rparr>"
    using assms(3) r by (simp add: receive_body_def)
  then have "skips t = skips s" 
    using f by (auto simp: skips_def)
  moreover have "reader_holds (after_body res) = []"
    by (cases res) simp_all
  ultimately show ?thesis
    using assms t by (auto simp: inv_objects_def in_flight_def)
qed

lemma inv_body_waiting:
  assumes "inv_waiting s" "inv_objects s" "rpc s = RBody q" "receive_body env q s = Some t"
  shows "inv_waiting t"
proof -
  obtain res r rd where r: "cr_readFrom (env_lim env) (env_codec env) (reqs s q) (incoming s) = (res, r, rd)"
    by (cases "cr_readFrom (env_lim env) (env_codec env) (reqs s q) (incoming s)")
  have "cr_done (reqs s q) = DoneEmpty"
    using assms by (simp add: inv_objects_def in_flight_def)
  with r have f: "cr_skip r = cr_skip (reqs s q)" "res \<noteq> Blocked" "cr_done r = DoneFull"
    by (auto dest: cr_readFrom_frame)
  then have t: "t = s\<lparr>reqs := (reqs s)(q := r), incoming := rd, rpc := after_body res\<rparr>"
    using assms(4) r by (simp add: receive_body_def)
  with f assms(1,3) show ?thesis
    by (auto simp: inv_waiting_def on_the_way_def done_ready_def)
qed

lemma inv_body_table:
  "receive_body env q s = Some t \<Longrightarrow> inv_table env s \<Longrightarrow> inv_table env t"
  by (auto simp: receive_body_def inv_table_def writer_active_def split: prod.splits if_splits)

lemma inv_body_phase:
  "receive_body env q s = Some t \<Longrightarrow> rpc s = RBody q \<Longrightarrow> inv_phase s \<Longrightarrow> inv_phase t"
proof -
  have "after_body res \<noteq> RGone" for res
    by (cases res) simp_all
  then show "receive_body env q s = Some t \<Longrightarrow> rpc s = RBody q \<Longrightarrow> inv_phase s \<Longrightarrow> inv_phase t"
    by (auto simp: receive_body_def inv_phase_def split: prod.splits if_splits handler_pc.splits)
qed

lemma drain_list_eq:
  assumes "distinct qs" and "\<And>q. q \<in> set qs \<Longrightarrow> cr_done (reqs s q) = DoneEmpty"
  shows "drain_list e qs s = s\<lparr>pending := [], hpc := HDone e, reqCount := reqCount s - word_of_nat (length qs),
    reqs := (\<lambda>q. if q \<in> set qs then (reqs s q)\<lparr>cr_err := e, cr_done := DoneClosed\<rparr> else reqs s q)\<rparr>"
  using assms
proof (induction qs arbitrary: s)
  case (Cons q qs)
  let ?s1 = "s\<lparr>reqs := (reqs s)(q := (reqs s q)\<lparr>cr_err := e, cr_done := DoneClosed\<rparr>), reqCount := reqCount s - 1\<rparr>"
  have "drain_list e (q # qs) s = drain_list e qs ?s1"
    using Cons.prems(2) [of q] by simp
  also have "\<dots> = ?s1\<lparr>pending := [], hpc := HDone e, reqCount := reqCount ?s1 - word_of_nat (length qs),
    reqs := (\<lambda>q. if q \<in> set qs then (reqs ?s1 q)\<lparr>cr_err := e, cr_done := DoneClosed\<rparr> else reqs ?s1 q)\<rparr>"
    using Cons.prems by (intro Cons.IH) auto
  finally show ?case
    using Cons.prems(1) by (auto intro!: conn_state.equality)
qed simp


lemma drain_eq:
  assumes "inv_objects s"
  shows "drain e s = s\<lparr>pending := [], hpc := HDone e, reqCount := reqCount s - word_of_nat (length (pending s)),
    reqs := (\<lambda>q. if q \<in> snd ` set (pending s) then (reqs s q)\<lparr>cr_err := e, cr_done := DoneClosed\<rparr> else reqs s q)\<rparr>"
  using assms drain_list_eq [of "List.map snd (pending s)" s e]
  by (auto simp: drain_def inv_objects_def in_flight_def)

lemma inv_drain:
  assumes "conn_inv env s" "hpc s = HDrain e"
  shows "conn_inv env (drain e s)"
proof -
  have gone: "rpc s = RGone" "wpc s = WGone" "connStop s" and o: "inv_objects s"
    using assms by (simp_all add: conn_inv_def inv_phase_def)
  note eq = drain_eq [OF o, of e]
  have "inv_objects (drain e s)"
    unfolding eq using o gone by (auto simp: inv_objects_def in_flight_def)
  moreover have "inv_table env (drain e s)"
    unfolding eq using assms gone by (auto simp: conn_inv_def inv_table_def writer_active_def)
  moreover have "inv_waiting (drain e s)"
    unfolding eq using assms gone by (auto simp: conn_inv_def inv_waiting_def on_the_way_def done_ready_def)
  moreover have "inv_phase (drain e s)"
    unfolding eq using gone by (simp add: inv_phase_def)
  ultimately show ?thesis
    by (simp add: conn_inv_def)
qed

lemma phase_ok_pending: "phase_ok h r w p \<Longrightarrow> \<not> r \<or> \<not> w \<Longrightarrow> phase_ok h r w p'"
  by (cases h) simp_all

lemma inv_take_phase: "inv_phase s \<Longrightarrow> wpc s = WIdle \<Longrightarrow> inv_phase (take_request env q (s\<lparr>queue := qs\<rparr>))"
  by (auto simp: inv_phase_def take_request_def store_request_def release_def Let_def
      intro: phase_ok_pending split: option.splits)

lemma inv_id_phase: "inv_phase s \<Longrightarrow> rpc s = RReading \<Longrightarrow> inv_phase (receive_id s)"
  by (auto simp: inv_phase_def receive_id_def intro: phase_ok_pending
      split: option.splits prod.splits sum.splits)

lemma inv_table_cong:
  "wpc t = wpc s \<Longrightarrow> pending t = pending s \<Longrightarrow> reqCount t = reqCount s \<Longrightarrow> inv_table env t = inv_table env s"
  by (simp add: inv_table_def writer_active_def)

lemma inv_phase_cong:
  "hpc t = hpc s \<Longrightarrow> wpc t = wpc s \<Longrightarrow> rpc t = rpc s \<Longrightarrow> pending t = pending s \<Longrightarrow> connStop t = connStop s
    \<Longrightarrow> inv_phase t = inv_phase s"
  by (simp add: inv_phase_def)

text \<open>What a caller does to its own request leaves everything else in place.\<close>

lemma inv_caller_step:
  assumes inv: "conn_inv env s" and r: "cr_skip r = cr_skip (reqs s q)"
    and d: "q \<in> set (in_flight s) \<Longrightarrow> cr_done r = cr_done (reqs s q)" and pc: "pc \<noteq> CWait"
  shows "conn_inv env (s\<lparr>reqs := (reqs s)(q := r), callers := (callers s)(q := pc)\<rparr>)" (is "conn_inv env ?t")
proof -
  from r have "skips ?t = skips s"
    by (auto simp: skips_def)
  then have fl: "in_flight ?t = in_flight s"
    by (simp add: in_flight_def)
  have "inv_objects ?t"
    unfolding inv_objects_def fl using inv d by (auto simp: conn_inv_def inv_objects_def)
  moreover have "inv_waiting ?t"
    using inv pc by (auto simp: conn_inv_def inv_waiting_def on_the_way_def)
  moreover have "inv_table env ?t" "inv_phase ?t"
    using inv inv_table_cong [of ?t s env] inv_phase_cong [of ?t s] by (simp_all add: conn_inv_def)
  ultimately show ?thesis
    by (simp add: conn_inv_def)
qed

lemma conn_init_inv: "conn_init s \<Longrightarrow> conn_inv env s"
  by (simp add: conn_init_def conn_inv_def inv_objects_def inv_table_def inv_waiting_def inv_phase_def in_flight_def writer_active_def)

lemma conn_step_inv:
  assumes "conn_inv env s" "cstep env s t" "env_max env < 2 ^ 63"
  shows "conn_inv env t"
proof -
  have len: "length (pending s) < 2 ^ 64"
    using assms(1,3) by (auto simp: conn_inv_def inv_table_def split: if_splits)
  note d = conn_inv_def inv_objects_def inv_table_def inv_waiting_def inv_phase_def
     in_flight_def on_the_way_def writer_active_def skips_def
  from assms(2) show ?thesis
  proof cases
    case (c_call q r)
    then have "inv_objects t" "inv_waiting t"
      using assms(1) inv_call_objects [of s q r "(callers s)(q := CWait)"] inv_call_waiting [of s q r]
      by (simp_all add: conn_inv_def)
    moreover have "inv_table env t" "inv_phase t"
      using assms(1) c_call inv_table_cong [of t s env] inv_phase_cong [of t s] by (simp_all add: conn_inv_def)
    ultimately show ?thesis
      by (simp add: conn_inv_def)
  next
    case (c_send q r)
    then have "inv_objects t" "inv_waiting t"
      using assms(1) inv_call_objects [of s q r "(callers s)(q := CNone)"] inv_call_waiting [of s q r]
      by (simp_all add: conn_inv_def)
    moreover have "inv_table env t" "inv_phase t"
      using assms(1) c_send inv_table_cong [of t s env] inv_phase_cong [of t s] by (simp_all add: conn_inv_def)
    ultimately show ?thesis
      by (simp add: conn_inv_def)
  next
    case (c_cancel q e)
    then show ?thesis
      using inv_caller_step [OF assms(1), of "(reqs s q)\<lparr>cr_err := Some e\<rparr>" q CReturning] by simp
  next
    case (c_done q)
    then have "q \<notin> set (in_flight s)"
      using assms(1) by (auto simp: conn_inv_def inv_objects_def done_ready_def)
    with c_done show ?thesis
      using inv_caller_step [OF assms(1), of "(reqs s q)\<lparr>cr_done := done_drain (cr_done (reqs s q))\<rparr>" q CReturning]
      by simp
  next
    case (c_return q)
    then show ?thesis
      using inv_caller_step [OF assms(1), of "reqs s q" q "CReturned (cr_err (reqs s q))"] by simp
  next
    case w_stop
    then show ?thesis using assms(1)  by (auto simp: d)
  next
    case (w_take q qs)
    then show ?thesis using assms(1) len
      by (auto simp: conn_inv_def inv_take_objects inv_take_table inv_take_waiting inv_take_phase)
  next
    case (w_write q i)
    then show ?thesis using assms(1) 
      by (auto simp: conn_inv_def inv_write_objects inv_write_table inv_write_waiting inv_write_phase)
  next
    case r_check
    then show ?thesis using assms(1)  by (auto simp: d)
  next
    case r_id
    then show ?thesis using assms(1) 
      by (auto simp: conn_inv_def inv_id_objects inv_id_table inv_id_waiting inv_id_phase)
  next
    case (r_body q)
    then show ?thesis using assms(1) 
      by (auto simp: conn_inv_def intro: inv_body_objects inv_body_table inv_body_waiting inv_body_phase)
  next
    case (h_reader e)
    then show ?thesis using assms(1)  by (auto simp: d)
  next
    case (h_drain err)
    then show ?thesis using assms(1)  by (auto intro: inv_drain)
  next
    case (n_network rd)
    then show ?thesis using assms(1)  by (auto simp: d)
  qed (use assms(1) in \<open>auto simp: d\<close>)
qed

section \<open>The reachable states\<close>

text \<open>The configured maximum is an \<^verbatim>\<open>int\<close> a channel can be made with.\<close>

definition conn_start :: "'v conn_env \<Rightarrow> 'v conn_state \<Rightarrow> bool" where
  "conn_start env s \<longleftrightarrow> conn_init s \<and> env_max env < 2 ^ 63"

definition conn_ok :: "'v conn_env \<Rightarrow> 'v conn_state \<Rightarrow> bool" where
  "conn_ok env s \<longleftrightarrow> conn_inv env s \<and> env_max env < 2 ^ 63"

interpretation client_conn: machine_invariant "conn_start env" "cstep env" "conn_ok env"
  by unfold_locales (auto simp: conn_start_def conn_ok_def intro: conn_init_inv conn_step_inv)

lemma reachable_inv: "reaches (conn_start env) (cstep env) s \<Longrightarrow> conn_inv env s"
  using client_conn.reaches_inv [of env s] by (simp add: conn_ok_def)

text \<open>When the connection is done, a waiting caller has its signal or is still in the queue.\<close>

lemma done_or_queued:
  "conn_inv env s \<Longrightarrow> hpc s = HDone e \<Longrightarrow> callers s q = CWait \<Longrightarrow>
    q \<in> set (queue s) \<or> done_ready (cr_done (reqs s q))"
  by (auto simp: conn_inv_def inv_phase_def inv_waiting_def on_the_way_def)

text \<open>After the drain a pending caller can return, with the error of the connection.\<close>

lemma drained_returns:
  assumes inv: "conn_inv env s" and h: "hpc s = HDrain e"
    and q: "q \<in> snd ` set (pending s)" "callers s q = CWait"
  shows "\<exists>t. (cstep env)\<^sup>*\<^sup>* s t \<and> callers t q = CReturned e
    \<and> cr_reply (reqs t q) = cr_reply (reqs s q)"
proof -
  note eq = drain_eq [of s e] inv [unfolded conn_inv_def]
  let ?s1 = "drain e s"
  let ?s2 = "?s1\<lparr>reqs := (reqs ?s1)(q := (reqs ?s1 q)\<lparr>cr_done := done_drain (cr_done (reqs ?s1 q))\<rparr>),
      callers := (callers ?s1)(q := CReturning)\<rparr>"
  let ?s3 = "?s2\<lparr>callers := (callers ?s2)(q := CReturned (cr_err (reqs ?s2 q)))\<rparr>"
  have r: "reqs ?s1 q = (reqs s q)\<lparr>cr_err := e, cr_done := DoneClosed\<rparr>" "callers ?s1 q = CWait"
    using eq q by simp_all
  have "cstep env s ?s1"
    using h by (rule cstep.h_drain)
  moreover have "cstep env ?s1 ?s2"
    using r by (intro cstep.c_done) (simp_all add: done_ready_def)
  moreover have "cstep env ?s2 ?s3"
    by (intro cstep.c_return) simp
  ultimately have "(cstep env)\<^sup>*\<^sup>* s ?s3"
    by (meson rtranclp.rtrancl_into_rtrancl rtranclp.rtrancl_refl)
  moreover have "callers ?s3 q = CReturned e" "cr_reply (reqs ?s3 q) = cr_reply (reqs s q)"
    using r by simp_all
  ultimately show ?thesis
    by blast
qed

end
