(* ===== verification/Server_Request.thy ===== *)
theory Server_Request
  imports Codec
begin

text \<open>
  \<^verbatim>\<open>server_request.go\<close>: a request as the server reads it (\<open>sr_readFrom\<close>) and the response
  as it writes it (\<open>sr_writeTo\<close>).
\<close>

record server_request =
  sr_id :: u64
  sr_err :: "go_error option"
  sr_input :: "byte list"
  sr_payloadLen :: u64
  sr_output :: "byte list"
  sr_errLen :: u64
  sr_errBuf :: "byte list"

definition newServerRequest :: server_request where
  "newServerRequest =
     \<lparr>sr_id = 0, sr_err = None, sr_input = [], sr_payloadLen = 0, sr_output = [],
      sr_errLen = 0, sr_errBuf = []\<rparr>"

definition sr_readFrom ::
    "server_request \<Rightarrow> reader \<Rightarrow> go_error option \<times> server_request \<times> reader" where
  "sr_readFrom r rd =
     (case read_u64 rd of
        (Inl e, rd1) \<Rightarrow> (Some e, r, rd1)
      | (Inr i, rd1) \<Rightarrow>
          (let r1 = r\<lparr>sr_id := i\<rparr> in
           case read_u64 rd1 of
             (Inl e, rd2) \<Rightarrow> (Some e, r1, rd2)
           | (Inr n, rd2) \<Rightarrow>
               (let r2 = r1\<lparr>sr_payloadLen := n\<rparr> in
                case copyN (sint n) rd2 of
                  (bs, err, rd3) \<Rightarrow> (err, r2\<lparr>sr_input := sr_input r2 @ bs\<rparr>, rd3))))"

text \<open>The error becomes bytes before anything of it is written.\<close>

definition sr_set_err :: "server_request \<Rightarrow> server_request" where
  "sr_set_err r =
     (case sr_err r of
        None \<Rightarrow> r
      | Some e \<Rightarrow>
          r\<lparr>sr_errBuf := bytes_of_string (error_text e),
            sr_errLen := word_of_nat (length (bytes_of_string (error_text e)))\<rparr>)"

definition sr_write_output ::
    "server_request \<Rightarrow> writer \<Rightarrow> go_error option \<times> server_request \<times> writer" where
  "sr_write_output r w =
     (case wr_write (be_put (word_of_nat (length (sr_output r)))) w of
        (Some e, w1) \<Rightarrow> (Some e, r, w1)
      | (None, w1) \<Rightarrow>
          if 0 < length (sr_output r)
          then (case wr_write (sr_output r) w1 of
                  (Some e, w2) \<Rightarrow>
                    (Some e, r\<lparr>sr_output := drop (length (wr_out w2) - length (wr_out w1)) (sr_output r)\<rparr>, w2)
                | (None, w2) \<Rightarrow> (None, r\<lparr>sr_output := []\<rparr>, w2))
          else (None, r, w1))"

definition sr_writeTo ::
    "server_request \<Rightarrow> writer \<Rightarrow> go_error option \<times> server_request \<times> writer" where
  "sr_writeTo r w =
     (case wr_write (be_put (sr_id r)) w of
        (Some e, w1) \<Rightarrow> (Some e, r, w1)
      | (None, w1) \<Rightarrow>
          (let r1 = sr_set_err r in
           case wr_write (be_put (sr_errLen r1)) w1 of
             (Some e, w2) \<Rightarrow> (Some e, r1, w2)
           | (None, w2) \<Rightarrow>
               if 0 < sr_errLen r1
               then (case wr_write (sr_errBuf r1) w2 of
                       (Some e, w3) \<Rightarrow> (Some e, r1, w3)
                     | (None, w3) \<Rightarrow> sr_write_output r1 w3)
               else sr_write_output r1 w2))"

definition sr_reset :: "server_request \<Rightarrow> server_request" where
  "sr_reset r =
     r\<lparr>sr_id := 0, sr_err := None, sr_input := [], sr_payloadLen := 0, sr_output := [],
       sr_errLen := 0, sr_errBuf := []\<rparr>"

lemma sr_reset_new: "sr_reset r = newServerRequest"
  by (simp add: sr_reset_def newServerRequest_def)

section \<open>Reading\<close>

lemma sr_readFrom_ok:
  "frame_ok bs \<Longrightarrow> sr_readFrom r \<lparr>rd_data = be_put i @ put_frame bs @ rest, rd_end = e\<rparr>
    = (None, r\<lparr>sr_id := i, sr_payloadLen := word_of_nat (length bs), sr_input := sr_input r @ bs\<rparr>,
       \<lparr>rd_data = rest, rd_end = e\<rparr>)"
  by (simp add: sr_readFrom_def put_frame_def)

text \<open>It succeeds where the header pair of the wire format, an id and a frame, can be read.\<close>

lemma sr_readFrom_get_pair:
  "map_prod (\<lambda>e. e = None) (\<lambda>(r', rd'). rd') (sr_readFrom r rd)
    = map_prod (\<lambda>x. \<exists>v. x = Inr v) (\<lambda>rd'. rd') (get_pair read_u64 read_frame rd)"
  by (simp add: sr_readFrom_def get_pair_def read_frame_def split: prod.splits sum.splits option.splits)

lemma sr_readFrom_cut:
  assumes "frame_ok bs" and "be_put i @ put_frame bs = p @ q" and "q \<noteq> []"
  shows "\<exists>err r' rd'. sr_readFrom r \<lparr>rd_data = p, rd_end = e\<rparr> = (Some err, r', rd')"
proof -
  obtain err rd' where "get_pair read_u64 read_frame \<lparr>rd_data = p, rd_end = e\<rparr> = (Inl err, rd')"
    using hdr.get_cut [of "(i, bs)" p q e] assms by (auto simp: ok_pair_def put_pair_def)
  with sr_readFrom_get_pair [of r "\<lparr>rd_data = p, rd_end = e\<rparr>"] show ?thesis
    by (cases "sr_readFrom r \<lparr>rd_data = p, rd_end = e\<rparr>") auto
qed

section \<open>Writing\<close>

definition err_bytes :: "go_error option \<Rightarrow> byte list" where
  "err_bytes err = (case err of None \<Rightarrow> [] | Some e \<Rightarrow> bytes_of_string (error_text e))"

text \<open>
  The response of a fresh request object: the id, the frame of the error text (empty for
  no error) and the frame of the output.
\<close>

lemma sr_writeTo_ok:
  assumes "wr_room w = None" and "sr_errLen r = 0" and "frame_ok (err_bytes (sr_err r))"
  shows "\<exists>r'. sr_writeTo r w = (None, r',
    w\<lparr>wr_out := wr_out w @ be_put (sr_id r) @ put_frame (err_bytes (sr_err r)) @ put_frame (sr_output r)\<rparr>)"
proof (cases "sr_err r")
  case None
  with assms show ?thesis
    by (simp add: sr_writeTo_def sr_set_err_def sr_write_output_def err_bytes_def put_frame_def Let_def)
next
  case (Some err)
  let ?b = "bytes_of_string (error_text err)"
  from assms(3) Some have "0 < (word_of_nat (length ?b) :: 64 word) \<longleftrightarrow> ?b \<noteq> []"
    using word_of_nat_length_0_iff [of ?b] by (auto simp: err_bytes_def word_neq_0_conv)
  with assms Some show ?thesis
    by (cases "error_text err = []")
      (simp_all add: sr_writeTo_def sr_set_err_def sr_write_output_def err_bytes_def put_frame_def Let_def)
qed

section \<open>Properties\<close>

text \<open>A request that is cut off anywhere is an error for the server, never a shorter request.\<close>

lemma truncated_request_is_error:
  assumes "frame_ok bs" "be_put i @ put_frame bs = p @ q" "q \<noteq> []"
  shows "\<exists>err r' rd'. sr_readFrom r \<lparr>rd_data = p, rd_end = e\<rparr> = (Some err, r', rd')"
  using assms by (rule sr_readFrom_cut)

lemma truncated_request_is_error_witness:
  "\<exists>err r' rd'. sr_readFrom newServerRequest \<lparr>rd_data = be_put 7 @ be_put 3 @ [1, 2], rd_end = EOF\<rparr> = (Some err, r', rd')"
  by (rule truncated_request_is_error [where bs = "[1, 2, 3]" and q = "[3]" and i = 7])
    (simp_all add: frame_ok_def put_frame_def)

text \<open>A payload length of \<open>2 ^ 63\<close> or more is no error: the conversion to a signed integer
  makes it negative, nothing is read, and what follows is taken for the next request.\<close>

lemma oversized_length_reads_nothing:
  assumes "2 ^ 63 \<le> unat n"
  shows "sr_readFrom r \<lparr>rd_data = be_put i @ be_put n @ rest, rd_end = e\<rparr>
    = (None, r\<lparr>sr_id := i, sr_payloadLen := n\<rparr>, \<lparr>rd_data = rest, rd_end = e\<rparr>)"
proof -
  have "sint n < 0"
    using assms sint_nonneg_iff [of n] by linarith
  then show ?thesis
    by (simp add: sr_readFrom_def copyN_negative)
qed

lemma oversized_length_reads_nothing_witness:
  "sr_readFrom newServerRequest \<lparr>rd_data = be_put 7 @ be_put (2 ^ 63) @ [1, 2], rd_end = EOF\<rparr>
    = (None, newServerRequest\<lparr>sr_id := 7, sr_payloadLen := 2 ^ 63\<rparr>, \<lparr>rd_data = [1, 2], rd_end = EOF\<rparr>)"
  by (rule oversized_length_reads_nothing) simp

end
