(* ===== verification/Server_Method.thy ===== *)
theory Server_Method
  imports Server_Request
begin

text \<open>
  \<^verbatim>\<open>server_method.go\<close> and \<^verbatim>\<open>server_handler.go\<close>: the table of methods, the registration of a
  handler's methods and the dispatch of one request. Reflection is modelled by what the code
  asks of it: whether the handler is a pointer, the method of a given name, the zero values
  of its parameter types, the number of its results and whether the last one is an error,
  and the call itself, which is user code and returns or panics.
\<close>

section \<open>State\<close>

text \<open>
  The last result of a method is an error: of a type that can be \<^verbatim>\<open>nil\<close>, or of a type that
  cannot (\<^verbatim>\<open>IsNil\<close> panics on it). The results before it are ordinary values.
\<close>

datatype last_result = Nilable "go_error option" | NotNilable go_error

datatype 'v call_result = NoResults | Results "'v list" last_result | Panicked string

record 'v go_method =
  NumOut :: nat
  In_zero :: "'v list"
  last_is_error :: bool
  Call :: "'v list \<Rightarrow> 'v call_result"

record 'v handler =
  is_ptr :: bool
  MethodByName :: "string \<Rightarrow> 'v go_method option"
  Methods :: "(string \<times> string) list"

record 'v serverMethod =
  iNum :: nat
  fVal :: "'v go_method"
  fArgs :: "'v list"

record 'v serverMethods =
  names :: "string list"
  items :: "string \<Rightarrow> 'v serverMethod option"

definition no_methods :: "'v serverMethods" where
  "no_methods = \<lparr>names = [], items = (\<lambda>_. None)\<rparr>"

section \<open>Registration\<close>

definition sm_register :: "string \<Rightarrow> 'v serverMethod \<Rightarrow> 'v serverMethods \<Rightarrow> 'v serverMethods" where
  "sm_register name sm m = m\<lparr>names := names m @ [name], items := (items m)(name \<mapsto> sm)\<rparr>"

definition sm_add ::
    "string \<Rightarrow> string \<Rightarrow> 'v handler \<Rightarrow> 'v serverMethods \<Rightarrow> go_error option \<times> 'v serverMethods" where
  "sm_add name callback h m =
     (if \<not> is_ptr h then (Some (ErrorString ''only ptr handlers are allowed''), m)
      else (case MethodByName h callback of
              None \<Rightarrow> (Some (ErrorString (''name '' @ quoted name @ '' not founded'')), m)
            | Some f \<Rightarrow>
                (let sm = \<lparr>iNum = length (In_zero f), fVal = f, fArgs = In_zero f\<rparr> in
                 if NumOut f = 0 then (None, sm_register name sm m)
                 else if \<not> last_is_error f
                 then (Some (ErrorString ''last output parameter always should be error''), m)
                 else (None, sm_register name sm m))))"

section \<open>Dispatch\<close>

fun sm_decode_args ::
    "'v codec \<Rightarrow> 'v list \<Rightarrow> reader \<Rightarrow> (go_error + 'v list) \<times> reader" where
  "sm_decode_args cd [] inp = (Inr [], inp)"
| "sm_decode_args cd (z # zs) inp =
     (case read_u64 inp of
        (Inl e, i1) \<Rightarrow> (Inl e, i1)
      | (Inr n, i1) \<Rightarrow>
          (case copyN (sint n) i1 of
             (raw, Some e, i2) \<Rightarrow> (Inl e, i2)
           | (raw, None, i2) \<Rightarrow>
               (case Decode cd raw z of
                  (v, Some e) \<Rightarrow> (Inl e, i2)
                | (v, None) \<Rightarrow>
                    (case sm_decode_args cd zs i2 of
                       (Inl e, i3) \<Rightarrow> (Inl e, i3)
                     | (Inr vs, i3) \<Rightarrow> (Inr (v # vs), i3)))))"

text \<open>The loop over the results but the last.\<close>

fun sm_encode_results ::
    "'v codec \<Rightarrow> 'v list \<Rightarrow> byte list \<Rightarrow> go_error option \<times> byte list" where
  "sm_encode_results cd [] out = (None, out)"
| "sm_encode_results cd (v # vs) out =
     (case Encode cd v of
        Inl e \<Rightarrow> (Some e, out)
      | Inr raw \<Rightarrow> sm_encode_results cd vs (out @ be_put (word_of_nat (length raw)) @ raw))"

text \<open>The test of the last result against \<^verbatim>\<open>nil\<close>.\<close>

fun last_error :: "last_result \<Rightarrow> unit res" where
  "last_error (Nilable None) = Ok ()"
| "last_error (Nilable (Some e)) = Err e"
| "last_error (NotNilable e) = Panic ''reflect: call of reflect.Value.IsNil on struct Value''"

definition sm_results ::
    "'v codec \<Rightarrow> bool \<Rightarrow> 'v call_result \<Rightarrow> byte list \<Rightarrow> unit res \<times> byte list" where
  "sm_results cd reply c out =
     (case c of
        Panicked p \<Rightarrow> (Panic p, out)
      | NoResults \<Rightarrow> (Ok (), out)
      | Results vs l \<Rightarrow>
          if \<not> reply then (Ok (), out)
          else if vs = [] then (last_error l, out)
          else (case sm_encode_results cd vs out of
                  (Some e, out1) \<Rightarrow> (Err e, out1)
                | (None, out1) \<Rightarrow> (last_error l, out1)))"

definition dispatch ::
    "'v codec \<Rightarrow> 'v serverMethods \<Rightarrow> reader \<Rightarrow> byte list \<Rightarrow> bool \<Rightarrow> unit res \<times> reader \<times> byte list" where
  "dispatch cd m inp out reply =
     (case read_u64 inp of
        (Inl e, i1) \<Rightarrow> (Err e, i1, out)
      | (Inr methodLen, i1) \<Rightarrow>
          (case copyN (sint methodLen) i1 of
             (nm, Some e, i2) \<Rightarrow> (Err e, i2, out)
           | (nm, None, i2) \<Rightarrow>
               (case items m (string_of_bytes nm) of
                  None \<Rightarrow>
                    (Err (ErrorString (''name '' @ quoted (string_of_bytes nm) @ '' is not registered'')), i2, out)
                | Some sm \<Rightarrow>
                    (case sm_decode_args cd (fArgs sm) i2 of
                       (Inl e, i3) \<Rightarrow> (Err e, i3, out)
                     | (Inr args, i3) \<Rightarrow>
                         (case sm_results cd reply (Call (fVal sm) args) out of
                            (res, out') \<Rightarrow> (res, i3, out'))))))"

section \<open>The table\<close>

text \<open>Every listed name has a method and every method is listed.\<close>

definition method_ok :: "'v serverMethod \<Rightarrow> bool" where
  "method_ok sm \<longleftrightarrow> iNum sm = length (fArgs sm) \<and> fArgs sm = In_zero (fVal sm)
     \<and> (NumOut (fVal sm) = 0 \<or> last_is_error (fVal sm))"

definition methods_inv :: "'v serverMethods \<Rightarrow> bool" where
  "methods_inv m \<longleftrightarrow> set (names m) = dom (items m)
     \<and> (\<forall>name sm. items m name = Some sm \<longrightarrow> method_ok sm)"

lemma methods_inv_empty: "methods_inv no_methods"
  by (auto simp: methods_inv_def no_methods_def)

lemma methods_inv_register:
  "methods_inv m \<Longrightarrow> method_ok sm \<Longrightarrow> methods_inv (sm_register name sm m)"
  by (auto simp: methods_inv_def sm_register_def)

lemma methods_inv_add: "methods_inv m \<Longrightarrow> sm_add name cb h m = (e, m') \<Longrightarrow> methods_inv m'"
  by (auto simp: sm_add_def Let_def method_ok_def split: if_splits option.splits
      intro!: methods_inv_register)

text \<open>The whole outcome of a registration, branch by branch.\<close>

lemma sm_add_ok_iff:
  "fst (sm_add name cb h m) = None \<longleftrightarrow>
    is_ptr h \<and> (\<exists>f. MethodByName h cb = Some f \<and> (NumOut f = 0 \<or> last_is_error f))"
  by (auto simp: sm_add_def Let_def split: option.splits)

lemma sm_add_error_unchanged: "sm_add name cb h m = (Some e, m') \<Longrightarrow> m' = m"
  by (auto simp: sm_add_def Let_def split: option.splits if_splits)

lemma sm_add_lookup:
  "sm_add name cb h m = (None, m') \<Longrightarrow>
    \<exists>f. MethodByName h cb = Some f \<and> names m' = names m @ [name]
      \<and> items m' = (items m)(name \<mapsto> \<lparr>iNum = length (In_zero f), fVal = f, fArgs = In_zero f\<rparr>)"
  by (auto simp: sm_add_def sm_register_def Let_def split: option.splits if_splits)

section \<open>Dispatch of a well-formed call\<close>

lemma sm_decode_args_ok:
  assumes "encodable cd V" and "set vs \<subseteq> V" and "list_all2 (fits cd) zs vs"
  shows "sm_decode_args cd zs \<lparr>rd_data = put_values cd vs @ rest, rd_end = e\<rparr>
    = (Inr vs, \<lparr>rd_data = rest, rd_end = e\<rparr>)"
  using assms(3,2)
proof (induction zs vs rule: list_all2_induct)
  case (Cons z zs v vs)
  with encodable_raw [OF assms(1), of v] show ?case
    by (simp add: put_frame_def fits_def)
qed simp

lemma sm_decode_args_missing:
  assumes "encodable cd V" and "set vs \<subseteq> V" and "length vs < length zs"
    and "list_all2 (fits cd) (take (length vs) zs) vs"
  shows "sm_decode_args cd zs (buffer_reader (put_values cd vs)) = (Inl EOF, buffer_reader [])"
  using assms(2-)
proof (induction vs arbitrary: zs)
  case Nil
  then obtain z zs' where "zs = z # zs'"
    by (cases zs) auto
  then show ?case
    by (simp add: buffer_reader_def read_u64_def read_full_def)
next
  case (Cons v vs)
  then obtain z zs' where "zs = z # zs'" "length vs < length zs'"
    by (cases zs) auto
  with Cons encodable_raw [OF assms(1), of v] show ?case
    by (simp add: put_frame_def buffer_reader_def fits_def)
qed

lemma sm_encode_results_ok:
  "encodable cd V \<Longrightarrow> set vs \<subseteq> V \<Longrightarrow> sm_encode_results cd vs out = (None, out @ put_values cd vs)"
  by (induction vs arbitrary: out) (auto simp: put_frame_def dest: encodable_raw)

lemma sm_results_ok:
  assumes "encodable cd V" and "c = Results vs l" and "set vs \<subseteq> V"
  shows "sm_results cd True c out = (last_error l, out @ put_values cd vs)"
  using sm_encode_results_ok [OF assms(1,3), of out] assms(2)
  by (cases "vs = []") (simp_all add: sm_results_def)

text \<open>Surplus arguments are left unread, missing ones are the end of the input.\<close>

lemma dispatch_ok:
  assumes cd: "encodable cd V" "set args \<subseteq> V"
    and name: "frame_ok (bytes_of_string name)" "items m name = Some sm"
    and fit: "list_all2 (fits cd) (fArgs sm) args"
  shows "dispatch cd m (buffer_reader (put_frame (bytes_of_string name) @ put_values cd args @ extra)) out reply =
    (case sm_results cd reply (Call (fVal sm) args) out of
       (res, out') \<Rightarrow> (res, buffer_reader extra, out'))"
proof -
  have "sm_decode_args cd (fArgs sm) \<lparr>rd_data = put_values cd args @ extra, rd_end = EOF\<rparr>
      = (Inr args, \<lparr>rd_data = extra, rd_end = EOF\<rparr>)"
    using cd fit by (rule sm_decode_args_ok)
  with name show ?thesis
    using copyN_exact [OF name(1)] by (simp add: dispatch_def put_frame_def buffer_reader_def)
qed

lemma dispatch_unknown:
  assumes "frame_ok (bytes_of_string name)" and "items m name = None"
  shows "dispatch cd m (buffer_reader (put_frame (bytes_of_string name) @ rest)) out reply =
    (Err (ErrorString (''name '' @ quoted name @ '' is not registered'')), buffer_reader rest, out)"
  using assms copyN_exact [OF assms(1)] by (simp add: dispatch_def put_frame_def buffer_reader_def)

lemma dispatch_missing_args:
  assumes "encodable cd V" "set args \<subseteq> V"
    and "frame_ok (bytes_of_string name)" "items m name = Some sm"
    and "length args < length (fArgs sm)" "list_all2 (fits cd) (take (length args) (fArgs sm)) args"
  shows "dispatch cd m (buffer_reader (put_frame (bytes_of_string name) @ put_values cd args)) out reply
    = (Err EOF, buffer_reader [], out)"
  using sm_decode_args_missing [OF assms(1,2,5,6)] copyN_exact [OF assms(3)] assms(4)
  by (simp add: dispatch_def put_frame_def buffer_reader_def)

text \<open>What dispatch writes to the output is kept: results are only appended.\<close>

lemma sm_encode_results_prefix: "sm_encode_results cd vs out = (e, out') \<Longrightarrow> \<exists>us. out' = out @ us"
proof (induction vs arbitrary: out)
  case (Cons v vs)
  then show ?case
    by (cases "Encode cd v") (auto, metis append.assoc)
qed simp

end
