(* ===== verification/Server_Handle.thy ===== *)
theory Server_Handle
  imports Server_Method
begin

text \<open>
  \<^verbatim>\<open>handleRequest\<close> and \<^verbatim>\<open>Handler\<close> of \<^verbatim>\<open>server.go\<close>: the goroutine that serves one request and the
  registration of a handler. A panic in the method is recovered only where the deferred
  function gets to its \<^verbatim>\<open>recover\<close>, that is for requests with an id; elsewhere it ends the
  process.
\<close>

datatype handled = Respond server_request | Recycle server_request | Crash string

definition panic_error :: "string \<Rightarrow> go_error" where
  "panic_error p = ErrorString (''panic has occurred while handling request: '' @ p)"

text \<open>The outcome of the goroutine and the errors it passes to the error plugins, in order.\<close>

definition handleRequest ::
    "'v codec \<Rightarrow> 'v serverMethods \<Rightarrow> server_request \<Rightarrow> handled \<times> go_error list" where
  "handleRequest cd m r =
     (case dispatch cd m (buffer_reader (sr_input r)) (sr_output r) (0 < sr_id r) of
        (res, inp, out) \<Rightarrow>
          (let r1 = r\<lparr>sr_input := rd_data inp, sr_output := out\<rparr> in
           case res of
             Panic p \<Rightarrow>
               if sr_id r = 0 then (Crash p, [])
               else (Respond (r1\<lparr>sr_err := Some (panic_error p)\<rparr>), [panic_error p])
           | Err e \<Rightarrow>
               if sr_id r = 0 then (Recycle (sr_reset (r1\<lparr>sr_err := Some e\<rparr>)), [e])
               else (Respond (r1\<lparr>sr_err := Some e\<rparr>), [e])
           | _ \<Rightarrow>
               if sr_id r = 0 then (Recycle (sr_reset (r1\<lparr>sr_err := None\<rparr>)), [])
               else (Respond (r1\<lparr>sr_err := None\<rparr>), [])))"

text \<open>
  \<^verbatim>\<open>Handler\<close>: the methods in the order in which the range over the map gives them, up to the
  first that cannot be registered.
\<close>

fun add_methods ::
    "(string \<times> string) list \<Rightarrow> 'v handler \<Rightarrow> 'v serverMethods \<Rightarrow> go_error option \<times> 'v serverMethods" where
  "add_methods [] h m = (None, m)"
| "add_methods ((name, callback) # ms) h m =
     (case sm_add name callback h m of
        (Some e, m') \<Rightarrow> (Some e, m')
      | (None, m') \<Rightarrow> add_methods ms h m')"

definition sv_Handler ::
    "bool \<Rightarrow> 'v handler \<Rightarrow> 'v serverMethods \<Rightarrow> go_error option \<times> 'v serverMethods" where
  "sv_Handler started h m =
     (if started
      then (Some (ErrorString (''can'' @ [CHR 0x27] @ ''t add handler to already started server'')), m)
      else add_methods (Methods h) h m)"

lemma methods_inv_add_methods: "methods_inv m \<Longrightarrow> add_methods ms h m = (e, m') \<Longrightarrow> methods_inv m'"
proof (induction ms arbitrary: m)
  case (Cons x ms)
  then show ?case
    by (cases x) (auto split: prod.splits option.splits dest: methods_inv_add)
qed simp

lemma add_methods_all:
  assumes "is_ptr h"
    and "\<And>name cb. (name, cb) \<in> set ms \<Longrightarrow> \<exists>f. MethodByName h cb = Some f \<and> (NumOut f = 0 \<or> last_is_error f)"
  shows "\<exists>m'. add_methods ms h m = (None, m') \<and> names m' = names m @ List.map fst ms
    \<and> dom (items m') = dom (items m) \<union> fst ` set ms"
  using assms(2)
proof (induction ms arbitrary: m)
  case (Cons x ms)
  obtain name cb where x: "x = (name, cb)"
    by (cases x)
  then obtain f where "MethodByName h cb = Some f" "NumOut f = 0 \<or> last_is_error f"
    using Cons.prems [of name cb] by auto
  with assms(1) have "fst (sm_add name cb h m) = None"
    by (auto simp: sm_add_ok_iff)
  then obtain m1 where m1: "sm_add name cb h m = (None, m1)"
    by (metis prod.collapse)
  have add: "names m1 = names m @ [name]" "dom (items m1) = insert name (dom (items m))"
    using sm_add_lookup [OF m1] by auto
  obtain m' where "add_methods ms h m1 = (None, m')" "names m' = names m1 @ List.map fst ms"
      "dom (items m') = dom (items m1) \<union> fst ` set ms"
    using Cons.IH [of m1] Cons.prems by (metis list.set_intros(2))
  with x m1 add show ?case
    by auto
qed simp

text \<open>The method at fault is the first that cannot be registered.\<close>

lemma add_methods_refused:
  "add_methods ms h m = (Some x, m') \<Longrightarrow>
    \<exists>pre name cb rest. ms = pre @ (name, cb) # rest \<and> add_methods pre h m = (None, m')
      \<and> fst (sm_add name cb h m') = Some x"
proof (induction ms arbitrary: m)
  case (Cons y ms)
  obtain name cb where y: "y = (name, cb)"
    by (cases y)
  obtain e m1 where m1: "sm_add name cb h m = (e, m1)"
    by (cases "sm_add name cb h m")
  show ?case
  proof (cases e)
    case (Some z)
    with m1 sm_add_error_unchanged [of name cb h m z m1] Cons.prems y show ?thesis
      by (intro exI [of _ "[]"] exI [of _ name] exI [of _ cb] exI [of _ ms]) auto
  next
    case None
    with Cons y m1 obtain pre name' cb' rest where "ms = pre @ (name', cb') # rest"
        "add_methods pre h m1 = (None, m')" "fst (sm_add name' cb' h m') = Some x"
      by auto metis
    with y m1 None show ?thesis
      by (intro exI [of _ "y # pre"]) auto
  qed
qed simp

section \<open>What becomes of a request\<close>

text \<open>A request with an id is always answered, one without never is, and the id is kept.\<close>

lemma handleRequest_id:
  "handleRequest cd m r = (Respond r', es) \<Longrightarrow> sr_id r' = sr_id r \<and> sr_id r \<noteq> 0"
  by (auto simp: handleRequest_def Let_def split: prod.splits res.splits if_splits)

lemma handleRequest_respond_iff: "(\<exists>r' es. handleRequest cd m r = (Respond r', es)) \<longleftrightarrow> sr_id r \<noteq> 0"
  by (auto simp: handleRequest_def Let_def split: prod.splits res.splits if_splits)

lemma handleRequest_errLen: "handleRequest cd m r = (Respond r', es) \<Longrightarrow> sr_errLen r' = sr_errLen r"
  by (auto simp: handleRequest_def Let_def split: prod.splits res.splits if_splits)

text \<open>The error plugins get the error of the response.\<close>

lemma handleRequest_errors:
  "sr_id r \<noteq> 0 \<Longrightarrow> \<exists>r'. handleRequest cd m r = (Respond r', case sr_err r' of None \<Rightarrow> [] | Some e \<Rightarrow> [e])
    \<and> sr_id r' = sr_id r"
  by (auto simp: handleRequest_def Let_def split: prod.splits res.splits)

text \<open>The process dies exactly when a method called without a reply panics.\<close>

lemma handleRequest_crash_iff:
  "(\<exists>p es. handleRequest cd m r = (Crash p, es)) \<longleftrightarrow>
    sr_id r = 0 \<and> (\<exists>p inp out. dispatch cd m (buffer_reader (sr_input r)) (sr_output r) False = (Panic p, inp, out))"
  by (auto simp: handleRequest_def Let_def split: prod.splits res.splits if_splits)

section \<open>Properties\<close>

text \<open>Registering a handler of a server that is not started: all methods of the handler are in
  the table, under the names the handler gives them and in that order, and no other is lost.\<close>

lemma handler_registers_all:
  assumes "is_ptr h"
    and "\<forall>(name, cb)\<in>set (Methods h). \<exists>f. MethodByName h cb = Some f \<and> (NumOut f = 0 \<or> last_is_error f)"
  shows "\<exists>m'. sv_Handler False h m = (None, m') \<and> names m' = names m @ List.map fst (Methods h)
    \<and> dom (items m') = dom (items m) \<union> fst ` set (Methods h)"
proof -
  have "\<exists>f. MethodByName h cb = Some f \<and> (NumOut f = 0 \<or> last_is_error f)"
    if "(name, cb) \<in> set (Methods h)" for name cb
    using assms(2) that by blast
  then show ?thesis
    using add_methods_all [OF assms(1), of "Methods h" m] by (simp add: sv_Handler_def)
qed

definition echo_handler :: "byte list handler" where
  "echo_handler = \<lparr>is_ptr = True,
     MethodByName = [''Echo'' \<mapsto> \<lparr>NumOut = 2, In_zero = [[]], last_is_error = True,
       Call = (\<lambda>args. Results args (Nilable None))\<rparr>],
     Methods = [(''echo'', ''Echo'')]\<rparr>"

lemma handler_registers_all_witness:
  "\<exists>m'. sv_Handler False echo_handler no_methods = (None, m')
    \<and> names m' = names (no_methods :: byte list serverMethods) @ List.map fst (Methods echo_handler)
    \<and> dom (items m') = dom (items (no_methods :: byte list serverMethods)) \<union> fst ` set (Methods echo_handler)"
  by (rule handler_registers_all) (simp_all add: echo_handler_def)

text \<open>Every registration keeps the table well formed: the names listed are the keys of the
  map, and every method of the map has its parameter types and either no result or an error as
  its last one. A handler that is refused leaves exactly the methods before the one at fault.\<close>

lemma registration_keeps_table:
  assumes "methods_inv m" "sv_Handler started h m = (e, m')"
  shows "methods_inv m' \<and> (e \<noteq> None \<longrightarrow> (started \<and> m' = m)
    \<or> (\<exists>pre name cb rest. Methods h = pre @ (name, cb) # rest \<and> add_methods pre h m = (None, m')
        \<and> fst (sm_add name cb h m') = e))"
proof -
  have "\<exists>pre name cb rest. ms = pre @ (name, cb) # rest \<and> add_methods pre h m = (None, m')
      \<and> fst (sm_add name cb h m') = Some x"
    if "add_methods ms h m = (Some x, m')" for ms x
    using that by (rule add_methods_refused)
  with assms show ?thesis
    by (auto simp: sv_Handler_def split: if_splits dest: methods_inv_add_methods)
qed

lemma registration_keeps_table_witness:
  "methods_inv (snd (sv_Handler True echo_handler no_methods))"
  using registration_keeps_table [OF methods_inv_empty, of True echo_handler "fst (sv_Handler True echo_handler no_methods)"
      "snd (sv_Handler True echo_handler no_methods)"] by simp

text \<open>C32: A request whose method is unknown, or that lacks an argument, is answered with an error
  and the method is not called; surplus arguments are ignored, and otherwise the answer is what
  the call makes of the decoded arguments.\<close>

theorem dispatch_branches:
  assumes "encodable cd V" "set args \<subseteq> V" "frame_ok (bytes_of_string name)"
    and fit: "\<And>sm. items m name = Some sm \<Longrightarrow>
      list_all2 (fits cd) (take (length args) (fArgs sm)) (take (length (fArgs sm)) args)"
  shows "dispatch cd m (buffer_reader (put_frame (bytes_of_string name) @ put_values cd args)) out reply =
    (case items m name of
       None \<Rightarrow> (Err (ErrorString (''name '' @ quoted name @ '' is not registered'')),
                 buffer_reader (put_values cd args), out)
     | Some sm \<Rightarrow>
         if length args < length (fArgs sm) then (Err EOF, buffer_reader [], out)
         else (case sm_results cd reply (Call (fVal sm) (take (length (fArgs sm)) args)) out of
                 (res, out') \<Rightarrow> (res, buffer_reader (put_values cd (drop (length (fArgs sm)) args)), out')))"
proof (cases "items m name")
  case None
  with dispatch_unknown [OF assms(3)] show ?thesis
    by simp
next
  case (Some sm)
  let ?n = "length (fArgs sm)"
  show ?thesis
  proof (cases "length args < ?n")
    case True
    with Some show ?thesis
      using dispatch_missing_args [OF assms(1,2,3) Some True, of out reply] fit [OF Some] by simp
  next
    case False
    have V: "set (take ?n args) \<subseteq> V"
      using assms(2) set_take_subset [of ?n args] by blast
    have "list_all2 (fits cd) (fArgs sm) (take ?n args)"
      using False fit [OF Some] by simp
    moreover have "put_values cd args = put_values cd (take ?n args) @ put_values cd (drop ?n args)"
      by (simp add: put_values_def flip: concat_append map_append)
    ultimately show ?thesis
      using False Some dispatch_ok [OF assms(1) V assms(3) Some, of "put_values cd (drop ?n args)" out reply]
      by simp
  qed
qed

definition echo_methods :: "byte list serverMethods" where
  "echo_methods = snd (sv_Handler False echo_handler no_methods)"

lemma dispatch_branches_witness:
  "dispatch id_codec echo_methods (buffer_reader (put_frame (bytes_of_string ''echo'') @ put_values id_codec [[7], [8]])) [] True
    = (Ok (), buffer_reader (put_frame [8]), put_frame [7])"
proof -
  have "encodable id_codec {v. frame_ok v}"
    by (intro id_codec_encodable) simp
  from dispatch_branches [OF this, of "[[7], [8]]" "''echo''" echo_methods "[]" True] show ?thesis
    by (simp add: echo_methods_def echo_handler_def sv_Handler_def sm_add_def sm_register_def no_methods_def
        frame_ok_def sm_results_def put_frame_def)
qed

text \<open>C20: The process dies exactly when a method called without a reply panics: the deferred
  function returns before it gets to its \<^verbatim>\<open>recover\<close>. For a request with an id every outcome,
  a panic included, becomes a response with the same id, and the error plugins are told the
  error of the response and nothing else.\<close>

theorem handle_outcomes:
  "((\<exists>p es. handleRequest cd m r = (Crash p, es)) \<longleftrightarrow>
      sr_id r = 0 \<and> (\<exists>p inp out. dispatch cd m (buffer_reader (sr_input r)) (sr_output r) False = (Panic p, inp, out)))
   \<and> (sr_id r \<noteq> 0 \<longrightarrow> (\<exists>r'. handleRequest cd m r = (Respond r', case sr_err r' of None \<Rightarrow> [] | Some e \<Rightarrow> [e])
        \<and> sr_id r' = sr_id r))"
  using handleRequest_crash_iff [of cd m r] handleRequest_errors [of r cd m] by blast

lemma handle_outcomes_witness:
  "\<exists>r'. handleRequest id_codec echo_methods (newServerRequest\<lparr>sr_id := 3\<rparr>)
      = (Respond r', case sr_err r' of None \<Rightarrow> [] | Some e \<Rightarrow> [e]) \<and> sr_id r' = 3"
  using handle_outcomes [of id_codec echo_methods "newServerRequest\<lparr>sr_id := 3\<rparr>"] by simp

end
