(* ===== verification/Server_Conn.thy ===== *)
theory Server_Conn
  imports Server_Handle "HOL-Library.Multiset"
begin

text \<open>
  \<^verbatim>\<open>handleConnection\<close>, \<^verbatim>\<open>connectionReader\<close>, \<^verbatim>\<open>handleRequest\<close> and \<^verbatim>\<open>connectionWriter\<close> of
  \<^verbatim>\<open>server.go\<close> as a machine: the goroutines of one connection, with one goroutine per request,
  the channel of responses and the server's worker slots, which other connections take and give
  back too. A request object is always owned by one goroutine or one channel, so requests are
  values. The lists \<open>got\<close> and \<open>sent\<close> record the ids of the requests read and of the responses
  written; no step looks at them.
\<close>

section \<open>State\<close>

datatype task =
    TStart server_request
  | TRun server_request
  | TSend server_request
  | TRelease
  | TDone

datatype swriter_pc = SWIdle | SWWrite server_request | SWDone "go_error option" | SWGone

datatype sreader_pc = SRIdle | SRReading | SRDone "go_error option" | SRGone

datatype shandler_pc =
    SHWait
  | SHWaitWriter "go_error option"
  | SHWaitReader "go_error option"
  | SHWaitBoth
  | SHDone "go_error option"

record sconn_state =
  tasks :: "task list"
  workers :: nat
  others :: nat
  responses :: "server_request list"
  sw :: swriter_pc
  sr :: sreader_pc
  sh :: shandler_pc
  sincoming :: reader
  soutgoing :: writer
  told :: "go_error list"
  sconnStop :: bool
  serverStop :: bool
  crashed :: bool
  got :: "u64 list"
  sent :: "u64 list"

record 'v sconn_env =
  se_codec :: "'v codec"
  se_methods :: "'v serverMethods"
  se_concurrency :: nat
  se_pendingResponses :: nat

section \<open>The reader\<close>

definition read_error :: "bool \<Rightarrow> go_error \<Rightarrow> go_error option" where
  "read_error stopped e =
     (if stopped \<or> e = UnexpectedEOF \<or> e = EOF then None
      else Some (ErrorString (''error has occurred while reading: '' @ error_text e)))"

definition read_request :: "sconn_state \<Rightarrow> sconn_state" where
  "read_request s =
     (case sr_readFrom newServerRequest (sincoming s) of
        (Some e, r, rd) \<Rightarrow> s\<lparr>sincoming := rd, sr := SRDone (read_error (serverStop s) e)\<rparr>
      | (None, r, rd) \<Rightarrow>
          s\<lparr>sincoming := rd, sr := SRIdle, tasks := tasks s @ [TStart r], got := got s @ [sr_id r]\<rparr>)"

section \<open>A request\<close>

text \<open>The slot is taken, the request is dispatched, the response sent, the slot given back.\<close>

definition run_task :: "'v sconn_env \<Rightarrow> nat \<Rightarrow> server_request \<Rightarrow> sconn_state \<Rightarrow> sconn_state" where
  "run_task env i r s =
     (case handleRequest (se_codec env) (se_methods env) r of
        (Respond r', es) \<Rightarrow> s\<lparr>tasks := (tasks s)[i := TSend r'], told := told s @ es\<rparr>
      | (Recycle r', es) \<Rightarrow> s\<lparr>tasks := (tasks s)[i := TRelease], told := told s @ es\<rparr>
      | (Crash p, es) \<Rightarrow> s\<lparr>crashed := True\<rparr>)"

section \<open>The writer\<close>

definition write_error :: "bool \<Rightarrow> go_error \<Rightarrow> go_error option" where
  "write_error stopped e =
     (if stopped then None
      else Some (ErrorString (''error has occurred while writing: '' @ error_text e)))"

definition write_response :: "server_request \<Rightarrow> sconn_state \<Rightarrow> sconn_state" where
  "write_response r s =
     (case sr_writeTo r (soutgoing s) of
        (Some e, r', w) \<Rightarrow> s\<lparr>soutgoing := w, sw := SWDone (write_error (serverStop s) e)\<rparr>
      | (None, r', w) \<Rightarrow> s\<lparr>soutgoing := w, sw := SWIdle, sent := sent s @ [sr_id r]\<rparr>)"

section \<open>The machine\<close>

inductive sstep :: "'v sconn_env \<Rightarrow> sconn_state \<Rightarrow> sconn_state \<Rightarrow> bool"
  for env :: "'v sconn_env" where
  r_check: "\<not> crashed s \<Longrightarrow> sr s = SRIdle \<Longrightarrow>
    sstep env s (s\<lparr>sr := (if sconnStop s then SRDone None else SRReading)\<rparr>)"
| r_read: "\<not> crashed s \<Longrightarrow> sr s = SRReading \<Longrightarrow> sstep env s (read_request s)"
| t_start: "\<not> crashed s \<Longrightarrow> i < length (tasks s) \<Longrightarrow> tasks s ! i = TStart r \<Longrightarrow> workers s < se_concurrency env \<Longrightarrow>
    sstep env s (s\<lparr>workers := workers s + 1, tasks := (tasks s)[i := TRun r]\<rparr>)"
| t_run: "\<not> crashed s \<Longrightarrow> i < length (tasks s) \<Longrightarrow> tasks s ! i = TRun r \<Longrightarrow> sstep env s (run_task env i r s)"
| t_send: "\<not> crashed s \<Longrightarrow> i < length (tasks s) \<Longrightarrow> tasks s ! i = TSend r \<Longrightarrow>
    length (responses s) < se_pendingResponses env \<Longrightarrow>
    sstep env s (s\<lparr>responses := responses s @ [r], tasks := (tasks s)[i := TRelease]\<rparr>)"
| t_release: "\<not> crashed s \<Longrightarrow> i < length (tasks s) \<Longrightarrow> tasks s ! i = TRelease \<Longrightarrow> 0 < workers s \<Longrightarrow>
    sstep env s (s\<lparr>workers := workers s - 1, tasks := (tasks s)[i := TDone]\<rparr>)"
| w_stop: "\<not> crashed s \<Longrightarrow> sw s = SWIdle \<Longrightarrow> sconnStop s \<Longrightarrow> sstep env s (s\<lparr>sw := SWDone None\<rparr>)"
| w_take: "\<not> crashed s \<Longrightarrow> sw s = SWIdle \<Longrightarrow> responses s = r # rs \<Longrightarrow>
    sstep env s (s\<lparr>sw := SWWrite r, responses := rs\<rparr>)"
| w_write: "\<not> crashed s \<Longrightarrow> sw s = SWWrite r \<Longrightarrow> sstep env s (write_response r s)"
| h_reader: "\<not> crashed s \<Longrightarrow> sh s = SHWait \<Longrightarrow> sr s = SRDone e \<Longrightarrow>
    sstep env s (s\<lparr>sr := SRGone, sconnStop := True, sh := SHWaitWriter e\<rparr>)"
| h_writer: "\<not> crashed s \<Longrightarrow> sh s = SHWait \<Longrightarrow> sw s = SWDone e \<Longrightarrow>
    sstep env s (s\<lparr>sw := SWGone, sconnStop := True, sh := SHWaitReader e\<rparr>)"
| h_stop: "\<not> crashed s \<Longrightarrow> sh s = SHWait \<Longrightarrow> serverStop s \<Longrightarrow>
    sstep env s (s\<lparr>sconnStop := True, sh := SHWaitBoth\<rparr>)"
| h_both: "\<not> crashed s \<Longrightarrow> sh s = SHWaitBoth \<Longrightarrow> sr s = SRDone e \<Longrightarrow>
    sstep env s (s\<lparr>sr := SRGone, sh := SHWaitWriter None\<rparr>)"
| h_last_writer: "\<not> crashed s \<Longrightarrow> sh s = SHWaitWriter err \<Longrightarrow> sw s = SWDone e \<Longrightarrow>
    sstep env s (s\<lparr>sw := SWGone, sh := SHDone err\<rparr>)"
| h_last_reader: "\<not> crashed s \<Longrightarrow> sh s = SHWaitReader err \<Longrightarrow> sr s = SRDone e \<Longrightarrow>
    sstep env s (s\<lparr>sr := SRGone, sh := SHDone err\<rparr>)"
| n_network: "sstep env s (s\<lparr>sincoming := rd\<rparr>)"
| n_break: "sstep env s (s\<lparr>soutgoing := (soutgoing s)\<lparr>wr_room := k, wr_err := e\<rparr>\<rparr>)"
| n_stop: "sstep env s (s\<lparr>serverStop := True\<rparr>)"
| o_take: "workers s < se_concurrency env \<Longrightarrow> sstep env s (s\<lparr>workers := workers s + 1, others := others s + 1\<rparr>)"
| o_release: "0 < others s \<Longrightarrow> sstep env s (s\<lparr>workers := workers s - 1, others := others s - 1\<rparr>)"

definition sconn_init :: "'v sconn_env \<Rightarrow> sconn_state \<Rightarrow> bool" where
  "sconn_init env s \<longleftrightarrow> tasks s = [] \<and> workers s = others s \<and> others s \<le> se_concurrency env \<and> responses s = []
     \<and> sw s = SWIdle \<and> sr s = SRIdle \<and> sh s = SHWait \<and> \<not> sconnStop s \<and> \<not> crashed s
     \<and> got s = [] \<and> sent s = [] \<and> told s = []"

section \<open>The invariant\<close>

fun holds_slot :: "task \<Rightarrow> bool" where
  "holds_slot (TRun r) = True"
| "holds_slot (TSend r) = True"
| "holds_slot TRelease = True"
| "holds_slot _ = False"

text \<open>The slots in use are those of the tasks past their start and those of other connections.\<close>

definition inv_slots :: "'v sconn_env \<Rightarrow> sconn_state \<Rightarrow> bool" where
  "inv_slots env s \<longleftrightarrow> workers s = others s + length (filter holds_slot (tasks s))
     \<and> workers s \<le> se_concurrency env \<and> length (responses s) \<le> se_pendingResponses env"

text \<open>The ids a task will still answer, those on their way and those answered.\<close>

fun task_ids :: "task \<Rightarrow> u64 list" where
  "task_ids (TStart r) = filter (\<lambda>i. i \<noteq> 0) [sr_id r]"
| "task_ids (TRun r) = filter (\<lambda>i. i \<noteq> 0) [sr_id r]"
| "task_ids (TSend r) = [sr_id r]"
| "task_ids _ = []"

fun writer_ids :: "swriter_pc \<Rightarrow> u64 list" where
  "writer_ids (SWWrite r) = [sr_id r]"
| "writer_ids _ = []"

text \<open>A writer that failed has lost the response it was writing.\<close>

definition open_ids :: "sconn_state \<Rightarrow> u64 list" where
  "open_ids s = concat (List.map task_ids (tasks s)) @ List.map sr_id (responses s) @ writer_ids (sw s)"

fun writer_failed :: "swriter_pc \<Rightarrow> bool" where
  "writer_failed (SWDone e) = True"
| "writer_failed SWGone = True"
| "writer_failed _ = False"

definition inv_ids :: "sconn_state \<Rightarrow> bool" where
  "inv_ids s \<longleftrightarrow> (\<exists>lost. size lost \<le> (if writer_failed (sw s) then 1 else 0)
     \<and> mset (filter (\<lambda>i. i \<noteq> 0) (got s)) = mset (open_ids s) + mset (sent s) + lost)"

fun sphase_ok :: "shandler_pc \<Rightarrow> bool \<Rightarrow> bool \<Rightarrow> bool" where
  "sphase_ok SHWait r w = (\<not> r \<and> \<not> w)"
| "sphase_ok SHWaitBoth r w = (\<not> r \<and> \<not> w)"
| "sphase_ok (SHWaitWriter e) r w = (r \<and> \<not> w)"
| "sphase_ok (SHWaitReader e) r w = (\<not> r \<and> w)"
| "sphase_ok (SHDone e) r w = (r \<and> w)"

definition inv_sphase :: "sconn_state \<Rightarrow> bool" where
  "inv_sphase s \<longleftrightarrow> sphase_ok (sh s) (sr s = SRGone) (sw s = SWGone) \<and> (sh s \<noteq> SHWait \<longrightarrow> sconnStop s)"

definition sconn_inv :: "'v sconn_env \<Rightarrow> sconn_state \<Rightarrow> bool" where
  "sconn_inv env s \<longleftrightarrow> inv_slots env s \<and> inv_ids s \<and> inv_sphase s"

section \<open>Updating one task\<close>

lemma mset_concat_update:
  "i < length ts \<Longrightarrow> mset (concat (List.map f (ts[i := t]))) + mset (f (ts ! i))
    = mset (concat (List.map f ts)) + mset (f t)"
proof (induction ts arbitrary: i)
  case (Cons a ts)
  then show ?case
    by (cases i) (auto simp: ac_simps)
qed simp

lemma handleRequest_ids:
  "handleRequest cd m r = (h, es) \<Longrightarrow>
    (case h of Respond r' \<Rightarrow> filter (\<lambda>i. i \<noteq> 0) [sr_id r] = [sr_id r']
     | Recycle r' \<Rightarrow> filter (\<lambda>i. i \<noteq> 0) [sr_id r] = [] | Crash p \<Rightarrow> True)"
  by (auto simp: handleRequest_def Let_def split: prod.splits res.splits if_splits)

end
