(* ===== verification/Rpc.thy ===== *)
theory Rpc
  imports Client_Request Server_Handle
begin

text \<open>
  A remote call from end to end: the client writes the request, the server reads, dispatches
  and answers it, the client reads the answer. The composition of the code's own functions
  is compared with a direct call of the method.
\<close>

section \<open>The exchange\<close>

definition open_writer :: writer where
  "open_writer = \<lparr>wr_out = [], wr_room = None, wr_err = EOF\<rparr>"

text \<open>What the client's writer puts on the connection for a request with id \<open>i\<close>.\<close>

definition client_sends :: "'v codec \<Rightarrow> u64 \<Rightarrow> 'v client_request \<Rightarrow> byte list" where
  "client_sends cd i r = wr_out (snd (snd (cr_writeTo cd r (snd (wr_write (be_put i) open_writer)))))"

text \<open>What the server answers to these bytes: nothing for a request that cannot be read or
  that wants no reply.\<close>

definition server_answers :: "'v codec \<Rightarrow> 'v serverMethods \<Rightarrow> byte list \<Rightarrow> byte list option" where
  "server_answers cd m bs =
     (case sr_readFrom newServerRequest (buffer_reader bs) of
        (Some e, r, rd) \<Rightarrow> None
      | (None, r, rd) \<Rightarrow>
          (case handleRequest cd m r of
             (Respond r', es) \<Rightarrow>
               (case sr_writeTo r' open_writer of
                  (Some e, r2, w) \<Rightarrow> None
                | (None, r2, w) \<Rightarrow> Some (wr_out w))
           | _ \<Rightarrow> None))"

text \<open>What the client makes of the answer: the id, then the body into the request.\<close>

definition client_receives ::
    "nat \<Rightarrow> 'v codec \<Rightarrow> 'v client_request \<Rightarrow> byte list \<Rightarrow> (u64 \<times> unit res \<times> 'v client_request) option" where
  "client_receives lim cd r bs =
     (case read_u64 (buffer_reader bs) of
        (Inl e, rd) \<Rightarrow> None
      | (Inr i, rd) \<Rightarrow> (case cr_readFrom lim cd r rd of (res, r', rd') \<Rightarrow> Some (i, res, r')))"

definition rpc_exchange ::
    "nat \<Rightarrow> 'v codec \<Rightarrow> 'v codec \<Rightarrow> 'v serverMethods \<Rightarrow> u64 \<Rightarrow> 'v client_request
      \<Rightarrow> (u64 \<times> unit res \<times> 'v client_request) option" where
  "rpc_exchange lim ccd scd m i r =
     (case server_answers scd m (client_sends ccd i r) of
        None \<Rightarrow> None
      | Some bs \<Rightarrow> client_receives lim ccd (fst (snd (cr_writeTo ccd r (snd (wr_write (be_put i) open_writer))))) bs)"

section \<open>The two directions\<close>

text \<open>Client and server agree on the encodings.\<close>

definition codecs_agree :: "'v codec \<Rightarrow> 'v codec \<Rightarrow> 'v set \<Rightarrow> bool" where
  "codecs_agree c d V \<longleftrightarrow> encodable c V \<and> encodable d V \<and> (\<forall>v\<in>V. raw_of c v = raw_of d v)"

lemma put_values_agree: "codecs_agree c d V \<Longrightarrow> set vs \<subseteq> V \<Longrightarrow> put_values c vs = put_values d vs"
  by (induction vs) (auto simp: codecs_agree_def)

lemma id_codecs_agree: "(\<And>v. v \<in> V \<Longrightarrow> frame_ok v) \<Longrightarrow> codecs_agree id_codec id_codec V"
  by (simp add: codecs_agree_def id_codec_encodable)

text \<open>A request as the application makes it.\<close>

definition make_request :: "string \<Rightarrow> 'v list \<Rightarrow> 'v list \<Rightarrow> 'v client_request" where
  "make_request name args ts = Reply ts (Args args (cl_Request name newClientRequest))"

lemma make_request_fields [simp]:
  "cr_name (make_request name args ts) = bytes_of_string name"
  "cr_nameLen (make_request name args ts) = word_of_nat (length name)"
  "cr_args (make_request name args ts) = args" "cr_reply (make_request name args ts) = ts"
  "cr_wBuf (make_request name args ts) = []" "cr_rBuf (make_request name args ts) = []"
  "cr_err (make_request name args ts) = None" "cr_done (make_request name args ts) = DoneEmpty"
  by (simp_all add: make_request_def Reply_def Args_def cl_Request_def newClientRequest_def)

lemma client_writes:
  assumes "encodable cd V" and "set args \<subseteq> V"
  shows "cr_writeTo cd (make_request name args ts) (snd (wr_write (be_put i) open_writer))
    = (None, make_request name args ts,
       \<lparr>wr_out = be_put i @ put_frame (call_payload cd name args), wr_room = None, wr_err = EOF\<rparr>)"
  using cr_writeTo_ok [of cd V "make_request name args ts" "snd (wr_write (be_put i) open_writer)" name] assms
  by (simp add: open_writer_def)

lemma client_sends_eq:
  "encodable cd V \<Longrightarrow> set args \<subseteq> V \<Longrightarrow>
    client_sends cd i (make_request name args ts) = be_put i @ put_frame (call_payload cd name args)"
  by (simp add: client_sends_def client_writes)

text \<open>The response on the wire.\<close>

definition response_bytes :: "u64 \<Rightarrow> go_error option \<Rightarrow> byte list \<Rightarrow> byte list" where
  "response_bytes i err out = be_put i @ put_frame (err_bytes err) @ put_frame out"

lemma server_answers_request:
  assumes "frame_ok payload" and "i \<noteq> 0"
    and disp: "dispatch cd m (buffer_reader payload) [] True = (res, inp, out)"
    and err: "err = (case res of Ok _ \<Rightarrow> None | Err e \<Rightarrow> Some e | Panic p \<Rightarrow> Some (panic_error p) | Blocked \<Rightarrow> None)"
    and "frame_ok (err_bytes err)"
  shows "server_answers cd m (be_put i @ put_frame payload) = Some (response_bytes i err out)"
proof -
  let ?r = "newServerRequest\<lparr>sr_id := i, sr_payloadLen := word_of_nat (length payload), sr_input := payload\<rparr>"
  have rd: "sr_readFrom newServerRequest (buffer_reader (be_put i @ put_frame payload))
      = (None, ?r, \<lparr>rd_data = [], rd_end = EOF\<rparr>)"
    using sr_readFrom_ok [OF assms(1), of newServerRequest i "[]" EOF]
    by (simp add: buffer_reader_def newServerRequest_def)
  obtain es where h: "handleRequest cd m ?r
      = (Respond (?r\<lparr>sr_input := rd_data inp, sr_output := out, sr_err := err\<rparr>), es)"
    using disp assms(2) err
    by (cases res) (simp_all add: handleRequest_def newServerRequest_def Let_def word_neq_0_conv)
  obtain r2 where "sr_writeTo (?r\<lparr>sr_input := rd_data inp, sr_output := out, sr_err := err\<rparr>) open_writer
      = (None, r2, open_writer\<lparr>wr_out := response_bytes i err out\<rparr>)"
    using sr_writeTo_ok [of open_writer "?r\<lparr>sr_input := rd_data inp, sr_output := out, sr_err := err\<rparr>"] assms(5)
    by (auto simp: open_writer_def newServerRequest_def response_bytes_def)
  with rd h show ?thesis
    by (simp add: server_answers_def)
qed

section \<open>What comes back\<close>

text \<open>The error the caller sees: its text only, and none for an empty text.\<close>

definition remote_error :: "go_error option \<Rightarrow> go_error option" where
  "remote_error err =
     (case err of
        None \<Rightarrow> None
      | Some e \<Rightarrow> (if error_text e = [] then None else Some (ErrorString (error_text e))))"

text \<open>A direct call of the method: its results and its error.\<close>

fun direct_call :: "'v call_result \<Rightarrow> ('v list \<times> go_error option) option" where
  "direct_call NoResults = Some ([], None)"
| "direct_call (Results vs (Nilable e)) = Some (vs, e)"
| "direct_call _ = None"

definition err_text :: "go_error option \<Rightarrow> string" where
  "err_text err = (case err of None \<Rightarrow> [] | Some e \<Rightarrow> error_text e)"

lemma err_bytes_text: "err_bytes err = bytes_of_string (err_text err)"
  by (simp add: err_bytes_def err_text_def split: option.splits)

lemma remote_error_text:
  "remote_error err = (if err_text err = [] then None else Some (ErrorString (err_text err)))"
  by (simp add: remote_error_def err_text_def split: option.splits)

lemma client_receives_answer:
  assumes "list_all2 (fits cd) ts vs"
    and "\<And>v. v \<in> set vs \<Longrightarrow> within lim (raw_of cd v)" "within lim (put_values cd vs)"
    and "within lim (err_bytes err)"
  shows "client_receives lim cd (make_request name args ts) (response_bytes i err (put_values cd vs)) =
    Some (i, Ok (), (make_request name args ts)
      \<lparr>cr_errLen := word_of_nat (length (err_text err)), cr_err := remote_error err,
       cr_payloadLen := word_of_nat (length (put_values cd vs)), cr_reply := vs, cr_done := DoneFull\<rparr>)"
  using cr_read_body_ok [of cd "make_request name args ts" vs lim "err_text err" "[]" EOF] assms
  by (simp add: client_receives_def response_bytes_def buffer_reader_def err_bytes_text
      remote_error_text cr_readFrom_def)

text \<open>An answer without results for a caller that expects some: the caller's object gets the
  error, the reader of the connection \<open>EOF\<close>.\<close>

lemma client_receives_bare_error:
  assumes "within lim (err_bytes (Some err))" and "ts \<noteq> []"
  shows "\<exists>r. client_receives lim cd (make_request name args ts) (response_bytes i (Some err) []) =
    Some (i, Err EOF, r) \<and> cr_err r = remote_error (Some err) \<and> cr_reply r = ts \<and> cr_done r = DoneFull"
proof -
  let ?msg = "error_text err" and ?n = "word_of_nat (length (error_text err)) :: 64 word"
  have ok: "within lim (bytes_of_string ?msg)" and f: "frame_ok (bytes_of_string ?msg)"
    using assms(1) by (simp_all add: err_bytes_def)
  have pos: "0 < ?n \<longleftrightarrow> ?msg \<noteq> []"
    using word_of_nat_length_0_iff [OF f] by (auto simp: word_neq_0_conv)
  have grow: "buf_grow lim (sint ?n) = None"
    using buf_grow_within [OF ok] by simp
  have cut: "copyN (sint ?n) \<lparr>rd_data = bytes_of_string ?msg @ rest, rd_end = EOF\<rparr>
      = (bytes_of_string ?msg, None, \<lparr>rd_data = rest, rd_end = EOF\<rparr>)" for rest
    using copyN_exact [OF f] by simp
  have dec: "cr_decode_reply lim cd (buffer_reader []) ts = (Err EOF, buffer_reader [], ts)"
    using assms(2) by (cases ts) (simp_all add: buffer_reader_def read_u64_def read_full_def)
  have pay: "cr_read_payload lim cd q \<lparr>rd_data = be_put 0, rd_end = EOF\<rparr>
      = (Err EOF, q\<lparr>cr_payloadLen := 0, cr_rBuf := []\<rparr>, \<lparr>rd_data = [], rd_end = EOF\<rparr>)"
    if "cr_reply q = ts" for q :: "'a client_request"
  proof -
    have "read_u64 \<lparr>rd_data = be_put 0, rd_end = EOF\<rparr> = (Inr 0, \<lparr>rd_data = [], rd_end = EOF\<rparr>)"
      using read_u64_put [of 0 "[]" EOF] by simp
    with that dec show ?thesis
      by (simp add: cr_read_payload_def Let_def buf_grow_def copyN_def) (simp add: buffer_reader_def)
  qed
  show ?thesis
    by (cases "?msg = []")
      (simp_all add: client_receives_def response_bytes_def buffer_reader_def err_bytes_def put_frame_def
        cr_readFrom_def cr_read_body_def pay pos grow cut remote_error_def Let_def)
qed

section \<open>The whole exchange\<close>

lemma rpc_exchange_eq:
  assumes cd: "codecs_agree c d V" "set args \<subseteq> V" and i: "i \<noteq> 0"
    and frames: "frame_ok (call_payload c name args)"
    and disp: "dispatch d m (buffer_reader (put_frame (bytes_of_string name) @ put_values d args)) [] True = (res, inp, out)"
    and err: "err = (case res of Ok _ \<Rightarrow> None | Err e \<Rightarrow> Some e | Panic p \<Rightarrow> Some (panic_error p) | Blocked \<Rightarrow> None)"
    and "frame_ok (err_bytes err)"
  shows "rpc_exchange lim c d m i (make_request name args ts)
    = client_receives lim c (make_request name args ts) (response_bytes i err out)"
proof -
  have c: "encodable c V"
    using cd(1) by (simp add: codecs_agree_def)
  have "call_payload c name args = put_frame (bytes_of_string name) @ put_values d args"
    using put_values_agree [OF cd] by (simp add: call_payload_def)
  then have "server_answers d m (client_sends c i (make_request name args ts)) = Some (response_bytes i err out)"
    using server_answers_request [OF frames i _ err] disp assms(7) client_sends_eq [OF c cd(2)] by simp
  then show ?thesis
    by (simp add: rpc_exchange_def client_writes [OF c cd(2)])
qed

lemma dispatch_direct:
  assumes cd: "encodable d V" "set args \<subseteq> V" "set vs \<subseteq> V"
    and m: "frame_ok (bytes_of_string name)" "items m name = Some sm" "list_all2 (fits d) (fArgs sm) args"
    and call: "direct_call (Call (fVal sm) args) = Some (vs, err)"
  shows "dispatch d m (buffer_reader (put_frame (bytes_of_string name) @ put_values d args)) [] True
    = (case err of None \<Rightarrow> Ok () | Some e \<Rightarrow> Err e, buffer_reader [], put_values d vs)"
proof -
  have "sm_results d True (Call (fVal sm) args) [] = (case err of None \<Rightarrow> Ok () | Some e \<Rightarrow> Err e, put_values d vs)"
  proof (cases "Call (fVal sm) args" rule: direct_call.cases)
    case 1
    with call show ?thesis
      by (auto simp: sm_results_def)
  next
    case (2 us e)
    with call sm_results_ok [OF cd(1) 2, of "[]"] cd(3) show ?thesis
      by (cases e) auto
  qed (use call in auto)
  then show ?thesis
    using dispatch_ok [OF cd(1,2) m, of "[]"] by simp
qed

lemma within_value: "within lim (put_values cd vs) \<Longrightarrow> v \<in> set vs \<Longrightarrow> within lim (raw_of cd v)"
proof (induction vs)
  case (Cons u us)
  then show ?case
    by (auto simp: within_def frame_ok_def put_frame_def)
qed simp

lemma frame_value: "frame_ok (put_values cd vs) \<Longrightarrow> v \<in> set vs \<Longrightarrow> frame_ok (raw_of cd v)"
  using within_value [of "length (put_values cd vs)" cd vs v] by (simp add: within_def)

lemma exchange_direct:
  assumes "codecs_agree c d V" "set args \<subseteq> V" "set vs \<subseteq> V"
    and "items m name = Some sm" "list_all2 (fits d) (fArgs sm) args"
    and "direct_call (Call (fVal sm) args) = Some (vs, err)"
    and "list_all2 (fits c) ts vs" "i \<noteq> 0"
    and "frame_ok (call_payload c name args)" "within lim (put_values c vs)" "within lim (err_bytes err)"
  shows "\<exists>r. rpc_exchange lim c d m i (make_request name args ts) = Some (i, Ok (), r)
    \<and> cr_reply r = vs \<and> cr_err r = remote_error err \<and> cr_done r = DoneFull"
proof -
  from assms(1) have cd: "encodable c V" "encodable d V"
    by (simp_all add: codecs_agree_def)
  have name: "frame_ok (bytes_of_string name)"
    using assms(9) by (simp add: frame_ok_def call_payload_def put_frame_def)
  have err: "err = (case case err of None \<Rightarrow> Ok () | Some e \<Rightarrow> Err e of Ok _ \<Rightarrow> None
      | Err e \<Rightarrow> Some e | Panic p \<Rightarrow> Some (panic_error p) | Blocked \<Rightarrow> None)"
    by (cases err) simp_all
  have "rpc_exchange lim c d m i (make_request name args ts)
      = client_receives lim c (make_request name args ts) (response_bytes i err (put_values c vs))"
    using rpc_exchange_eq [OF assms(1,2,8,9) dispatch_direct [OF cd(2) assms(2,3) name assms(4-6)] err]
      assms(11) put_values_agree [OF assms(1,3)] by simp
  also have "within lim (raw_of c v)" if "v \<in> set vs" for v
    using within_value [OF assms(10) that] .
  then show ?thesis
    using client_receives_answer [OF assms(7) _ assms(10,11)] calculation by simp
qed

section \<open>Which requests are answered\<close>

lemma server_answers_id_0: "server_answers cd m (be_put 0 @ bs) = None"
proof -
  obtain err r rd where r: "sr_readFrom newServerRequest (buffer_reader (be_put 0 @ bs)) = (err, r, rd)"
    by (cases "sr_readFrom newServerRequest (buffer_reader (be_put 0 @ bs))")
  then have "err \<noteq> None \<or> sr_id r = 0"
    by (auto simp: sr_readFrom_def buffer_reader_def Let_def split: prod.splits sum.splits)
  with r show ?thesis
    using handleRequest_id [of cd m r]
    by (auto simp: server_answers_def split: option.splits prod.splits handled.splits)
qed

lemma sr_writeTo_open: "\<exists>rest. \<exists>r' w'. sr_writeTo r open_writer = (None, r', w') \<and> wr_out w' = be_put (sr_id r) @ rest"
  by (auto simp: sr_writeTo_def sr_write_output_def open_writer_def Let_def)

lemma server_answers_id:
  assumes "frame_ok payload" and "i \<noteq> 0"
  shows "\<exists>rest. server_answers cd m (be_put i @ put_frame payload) = Some (be_put i @ rest)"
proof -
  obtain r rd where r: "sr_readFrom newServerRequest (buffer_reader (be_put i @ put_frame payload)) = (None, r, rd)"
      "sr_id r = i"
    using sr_readFrom_ok [OF assms(1), of newServerRequest i "[]" EOF] by (simp add: buffer_reader_def)
  with assms(2) obtain r' es where h: "handleRequest cd m r = (Respond r', es)"
    using handleRequest_respond_iff [of cd m r] by auto
  with r have "sr_id r' = i"
    using handleRequest_id by blast
  with r h sr_writeTo_open [of r'] show ?thesis
    by (auto simp: server_answers_def)
qed

end
