(* ===== verification/Link.thy ===== *)
theory Link
  imports Client_Conn_Inv Server_Conn Rpc
begin

text \<open>
  A client's connection and the server's connection at its other end, joined by two pipes. A pipe
  holds the bytes written and not yet read; what a goroutine reads is a part of the pipe, as
  much of it as has been delivered, and the connection may break after any byte.
\<close>

section \<open>What the writers write\<close>

text \<open>
  A sequence of writes that stops at the first error has put a prefix of the bytes on the
  connection, all of them exactly when there was no error.
\<close>

definition wrote :: "byte list \<Rightarrow> writer \<Rightarrow> go_error option \<Rightarrow> writer \<Rightarrow> bool" where
  "wrote bs w e w' \<longleftrightarrow> (\<exists>a z. bs = a @ z \<and> wr_out w' = wr_out w @ a \<and> (e = None \<longleftrightarrow> z = []))"

lemma wrote_write: "wr_write bs w = (e, w') \<Longrightarrow> wrote bs w e w'"
  by (auto simp: wrote_def wr_write_def split: option.splits if_splits)
    (metis append_take_drop_id drop_eq_Nil2 linorder_not_le)

lemma wrote_more: "wrote bs w (Some e) w' \<Longrightarrow> wrote (bs @ cs) w (Some e) w'"
  by (fastforce simp: wrote_def)

lemma wrote_then: "wrote bs w None w1 \<Longrightarrow> wrote cs w1 e w' \<Longrightarrow> wrote (bs @ cs) w e w'"
  by (fastforce simp: wrote_def)

lemma wrote_none: "wrote bs w None w' \<longleftrightarrow> wr_out w' = wr_out w @ bs"
  by (auto simp: wrote_def)

lemma wrote_nothing: "bs \<noteq> [] \<Longrightarrow> wrote bs w (Some e) w"
  by (simp add: wrote_def)

text \<open>The client: the bytes of a request after its id.\<close>

definition request_body :: "'v codec \<Rightarrow> 'v client_request \<Rightarrow> go_error option \<times> byte list" where
  "request_body cd r = cr_encode_args cd (cr_args r) (be_put (cr_nameLen r) @ cr_name r)"

lemma cr_writeTo_wrote:
  assumes "cr_writeTo cd r w = (e, r', w')" "cr_wBuf r = []"
  shows "(\<exists>wb. r' = r\<lparr>cr_wBuf := wb\<rparr>) \<and>
    (case request_body cd r of (None, b) \<Rightarrow> wrote (put_frame b) w e w' \<and> (e = None \<longrightarrow> r' = r)
     | (Some _, b) \<Rightarrow> e \<noteq> None \<and> w' = w)"
proof (cases "request_body cd r")
  case (Pair x b)
  show ?thesis
  proof (cases x)
    case (Some y)
    with assms Pair show ?thesis
      by (auto simp: cr_writeTo_def request_body_def)
  next
    case None
    obtain e1 w1 where 1: "wr_write (be_put (word_of_nat (length b))) w = (e1, w1)"
      by fastforce
    obtain e2 w2 where 2: "wr_write b w1 = (e2, w2)"
      by fastforce
    show ?thesis
      using assms Pair None 1 2 wrote_write [OF 1] wrote_write [OF 2] wrote_more wrote_then
      by (auto simp: cr_writeTo_def request_body_def put_frame_def split: option.splits)
  qed
qed

text \<open>The server: the bytes of a response.\<close>

definition put_response :: "u64 \<times> byte list \<times> byte list \<Rightarrow> byte list" where
  "put_response = put_pair be_put (put_pair put_frame put_frame)"

lemma put_response_simp: "put_response (i, x, y) = be_put i @ put_frame x @ put_frame y"
  by (simp add: put_response_def put_pair_def)

definition response_of :: "server_request \<Rightarrow> u64 \<times> byte list \<times> byte list" where
  "response_of r = (sr_id r, err_bytes (sr_err r), sr_output r)"

lemma sr_write_output_wrote:
  assumes "sr_write_output r w = (e, r', w')"
  shows "wrote (put_frame (sr_output r)) w e w'"
proof -
  obtain e1 w1 where 1: "wr_write (be_put (word_of_nat (length (sr_output r)))) w = (e1, w1)"
    by fastforce
  obtain e2 w2 where 2: "wr_write (sr_output r) w1 = (e2, w2)"
    by fastforce
  show ?thesis
    using assms 1 2 wrote_write [OF 1] wrote_write [OF 2] wrote_more wrote_then
    by (auto simp: sr_write_output_def put_frame_def split: option.splits if_splits)
qed

lemma sr_writeTo_wrote:
  assumes "sr_writeTo r w = (e, r', w')" "sr_errLen r = 0" "frame_ok (err_bytes (sr_err r))"
  shows "wrote (put_response (response_of r)) w e w'"
proof -
  let ?r = "sr_set_err r"
  have r: "sr_errLen ?r = word_of_nat (length (err_bytes (sr_err r)))" "sr_output ?r = sr_output r"
      "0 < sr_errLen ?r \<Longrightarrow> sr_errBuf ?r = err_bytes (sr_err r)"
    using assms(2) by (auto simp: sr_set_err_def err_bytes_def split: option.splits)
  have pos: "0 < sr_errLen ?r \<longleftrightarrow> err_bytes (sr_err r) \<noteq> []"
    using r(1) word_of_nat_length_0_iff [OF assms(3)] by (auto simp: word_neq_0_conv)
  obtain e1 w1 where 1: "wr_write (be_put (sr_id r)) w = (e1, w1)"
    by fastforce
  obtain e2 w2 where 2: "wr_write (be_put (sr_errLen ?r)) w1 = (e2, w2)"
    by fastforce
  obtain e3 w3 where 3: "wr_write (err_bytes (sr_err r)) w2 = (e3, w3)"
    by fastforce
  note w = wrote_write [OF 1] wrote_write [OF 2] wrote_write [OF 3]
  have out: "sr_write_output ?r v = (e', r'', w'') \<Longrightarrow> wrote (put_frame (sr_output r)) v e' w''" for v e' r'' w''
    using sr_write_output_wrote [of ?r v e' r'' w''] r(2) by simp
  have eq: "put_response (response_of r)
      = be_put (sr_id r) @ be_put (sr_errLen ?r) @ err_bytes (sr_err r) @ put_frame (sr_output r)"
    by (simp add: put_response_simp response_of_def put_frame_def r(1))
  show ?thesis
  proof (cases "e1 = None \<and> e2 = None \<and> (0 < sr_errLen ?r \<longrightarrow> e3 = None)")
    case True
    then have "wrote (be_put (sr_id r) @ be_put (sr_errLen ?r)) w None w2"
      using w by (auto intro: wrote_then)
    moreover have "wrote (err_bytes (sr_err r) @ put_frame (sr_output r)) w2 e w'"
      using True assms(1) 1 2 3 w(3) pos r(3)
      by (auto simp: sr_writeTo_def Let_def split: if_splits intro: wrote_then dest!: out)
    ultimately have "wrote ((be_put (sr_id r) @ be_put (sr_errLen ?r)) @ err_bytes (sr_err r) @ put_frame (sr_output r)) w e w'"
      by (rule wrote_then)
    then show ?thesis
      by (simp add: eq)
  next
    case False
    then show ?thesis
      using assms(1) 1 2 3 w pos r(3) wrote_more wrote_then unfolding eq
      by (auto simp: sr_writeTo_def Let_def split: if_splits option.splits) 
  qed
qed

section \<open>What the readers read\<close>

text \<open>A request in memory, as the server's reader makes it.\<close>

definition request_read :: "u64 \<Rightarrow> byte list \<Rightarrow> server_request" where
  "request_read i b =
     newServerRequest\<lparr>sr_id := i, sr_payloadLen := word_of_nat (length b), sr_input := b\<rparr>"

definition put_request :: "u64 \<times> byte list \<Rightarrow> byte list" where
  "put_request = put_pair be_put put_frame"

lemma put_request_simp: "put_request (i, b) = be_put i @ put_frame b"
  by (simp add: put_request_def put_pair_def)

lemma put_request_not_Nil [simp]: "put_request x \<noteq> []"
  by (cases x) (simp add: put_request_simp)

text \<open>
  A read of a delivered part of the pipe that succeeds has taken the request at the front of the
  pipe, whole, and left what follows.
\<close>

lemma front_or_stub:
  assumes "v @ w = bs @ rest"
  obtains (whole) us where "v = bs @ us" | (stub) us where "bs = v @ us" "us \<noteq> []"
  using assms by (auto simp: append_eq_append_conv2) (metis append_Nil2)

lemma sr_readFrom_front:
  assumes "sr_readFrom newServerRequest \<lparr>rd_data = v, rd_end = e\<rparr> = (None, r, rd)"
    and "frame_ok b" "v @ w = put_request (i, b) @ rest"
  shows "r = request_read i b \<and> v = put_request (i, b) @ rd_data rd"
proof -
  from assms(3) show ?thesis
  proof (cases rule: front_or_stub)
    case (whole us)
    with assms(1) sr_readFrom_ok [OF assms(2), of newServerRequest i us e] show ?thesis
      by (simp add: put_request_simp request_read_def newServerRequest_def)
  next
    case (stub us)
    with assms(1) sr_readFrom_cut [OF assms(2) _ stub(2), of i v newServerRequest e] show ?thesis
      by (auto simp: put_request_simp)
  qed
qed

lemma sr_readFrom_stub:
  assumes "sr_readFrom newServerRequest \<lparr>rd_data = v, rd_end = e\<rparr> = (None, r, rd)"
    and "frame_ok b" "put_request (i, b) = v @ w" "w \<noteq> []"
  shows False
  using assms sr_readFrom_front [of v e r rd b w i "[]"] by auto

text \<open>A body that is read without an error is the two frames at the front of the pipe.\<close>

lemma copyN_split: "copyN n r = (bs, err, rd) \<Longrightarrow> rd_data r = bs @ rd_data rd \<and> rd_end rd = rd_end r"
  by (auto simp: copyN_def Let_def split: if_splits)

lemma cr_read_payload_frame_read:
  "cr_read_payload lim cd r rd = (Ok (), r', rd') \<Longrightarrow> \<exists>y. read_frame rd = (Inr y, rd')"
  by (auto simp: cr_read_payload_def read_frame_def Let_def split: prod.splits sum.splits option.splits)

lemma cr_read_body_frames:
  "cr_read_body lim cd r rd = (Ok (), r', rd') \<Longrightarrow> \<exists>p. get_pair read_frame read_frame rd = (Inr p, rd')"
  by (auto simp: cr_read_body_def get_pair_def read_frame_def [of rd] copyN_negative Let_def word_gt_0
      dest!: cr_read_payload_frame_read split: prod.splits sum.splits option.splits if_splits)
   (auto simp: copyN_def split: if_splits)

text \<open>What follows the two frames makes no difference for the request.\<close>

lemma cr_read_payload_rest:
  assumes "frame_ok y" 
  shows "map_prod id fst (cr_read_payload lim cd r \<lparr>rd_data = put_frame y @ rest, rd_end = e\<rparr>)
    = map_prod id fst (cr_read_payload lim cd r \<lparr>rd_data = put_frame y, rd_end = e'\<rparr>)"
  using assms read_u64_put [of "word_of_nat (length y)" y e']
  by (simp add: cr_read_payload_def put_frame_def Let_def split: option.splits prod.splits)

lemma cr_read_body_rest:
  assumes "frame_ok x" "frame_ok y"
  shows "map_prod id fst (cr_read_body lim cd r \<lparr>rd_data = put_frame x @ put_frame y @ rest, rd_end = e\<rparr>)
    = map_prod id fst (cr_read_body lim cd r \<lparr>rd_data = put_frame x @ put_frame y, rd_end = e'\<rparr>)"
proof (cases "x = []")
  case True
  then show ?thesis
    using cr_read_payload_rest [OF assms(2), of lim cd _ rest e e']
    by (simp add: cr_read_body_def put_frame_def [of "[]"] Let_def)
next
  case False
  then have "0 < (word_of_nat (length x) :: 64 word)"
    using word_of_nat_length_0_iff [OF assms(1)] by (simp add: word_gt_0)
  then show ?thesis
    using cr_read_payload_rest [OF assms(2), of lim cd _ rest e e'] assms(1)
    by (simp add: cr_read_body_def put_frame_def [of x] Let_def split: option.splits)
qed

lemma cr_readFrom_front:
  assumes read: "cr_readFrom lim cd r \<lparr>rd_data = v, rd_end = e\<rparr> = (Ok (), r', rd)"
    and "frame_ok x" "frame_ok y" "v @ w = put_frame x @ put_frame y @ rest"
  shows "v = put_frame x @ put_frame y @ rd_data rd
    \<and> (\<exists>rd'. cr_readFrom lim cd r (buffer_reader (put_frame x @ put_frame y)) = (Ok (), r', rd'))"
proof -
  obtain r1 where body: "cr_read_body lim cd r \<lparr>rd_data = v, rd_end = e\<rparr> = (Ok (), r1, rd)"
      and "done_send (cr_done r1) = Ok (cr_done r')" "r' = r1\<lparr>cr_done := cr_done r'\<rparr>"
    using read by (auto simp: cr_readFrom_def split: prod.splits res.splits)
  obtain p where p: "get_pair read_frame read_frame \<lparr>rd_data = v, rd_end = e\<rparr> = (Inr p, rd)"
    using cr_read_body_frames [OF body] by blast
  have ok: "ok_pair frame_ok frame_ok (x, y)"
    using assms(2,3) by (simp add: ok_pair_def)
  have put: "put_frame x @ put_frame y = put_pair put_frame put_frame (x, y)"
    by (simp add: put_pair_def)
  from assms(4) have "v @ w = (put_frame x @ put_frame y) @ rest"
    by simp
  then show ?thesis
  proof (cases rule: front_or_stub)
    case (whole us)
    have "rd_data rd = us"
      using p frames2.get_put [OF ok, of us e] by (auto simp: whole put)
    moreover have "\<exists>rd'. cr_read_body lim cd r (buffer_reader (put_frame x @ put_frame y)) = (Ok (), r1, rd')"
      using cr_read_body_rest [OF assms(2,3), of lim cd r us e EOF] body
      by (cases "cr_read_body lim cd r (buffer_reader (put_frame x @ put_frame y))") (simp add: whole buffer_reader_def)
    ultimately show ?thesis
      using read body whole by (auto simp: cr_readFrom_def split: res.splits)
  next
    case (stub us)
    with frames2.get_cut [OF ok _ stub(2), of v e] p show ?thesis
      by (auto simp: put)
  qed
qed

lemma read_u64_front:
  assumes "read_u64 \<lparr>rd_data = v, rd_end = e\<rparr> = (Inr i, rd)" "v @ w = be_put j @ rest"
  shows "i = j \<and> v = be_put j @ rd_data rd"
  using assms(2)
proof (cases rule: front_or_stub)
  case (stub us)
  with u64c.get_cut [OF TrueI stub, of e] assms(1) show ?thesis
    by auto
qed (use assms(1) in auto)

section \<open>The two ends together\<close>

record 'v link =
  lc :: "'v conn_state"
  ls :: sconn_state
  up :: "byte list"
  down :: "byte list"

text \<open>The bytes a step has added to a writer, and how many it has taken from a reader.\<close>

definition added :: "writer \<Rightarrow> writer \<Rightarrow> byte list" where
  "added w w' = drop (length (wr_out w)) (wr_out w')"

definition taken :: "reader \<Rightarrow> reader \<Rightarrow> nat" where
  "taken r r' = length (rd_data r) - length (rd_data r')"

text \<open>
  A step of either end, with what it wrote appended to one pipe and what it read taken from the
  other. The steps in which a machine on its own lets the network replace what will be read
  are excluded: here the network delivers what is in the pipe. No buffer has \<open>2 ^ 63\<close> bytes.
\<close>

inductive pstep :: "'v conn_env \<Rightarrow> 'v sconn_env \<Rightarrow> 'v link \<Rightarrow> 'v link \<Rightarrow> bool"
  for cenv :: "'v conn_env" and senv :: "'v sconn_env" where
  p_client: "cstep cenv (lc p) c \<Longrightarrow> incoming c = incoming (lc p) \<or> rpc c \<noteq> rpc (lc p) \<Longrightarrow>
    \<forall>q\<in>set (queue c). frame_ok (snd (request_body (env_codec cenv) (reqs c q))) \<Longrightarrow>
    pstep cenv senv p (p\<lparr>lc := c, up := up p @ added (outgoing (lc p)) (outgoing c),
      down := drop (taken (incoming (lc p)) (incoming c)) (down p)\<rparr>)"
| p_server: "sstep senv (ls p) s \<Longrightarrow> sincoming s = sincoming (ls p) \<or> sr s \<noteq> sr (ls p) \<Longrightarrow>
    \<forall>r. TSend r \<in> set (tasks s) \<longrightarrow> frame_ok (err_bytes (sr_err r)) \<and> frame_ok (sr_output r) \<Longrightarrow>
    pstep cenv senv p (p\<lparr>ls := s, down := down p @ added (soutgoing (ls p)) (soutgoing s),
      up := drop (taken (sincoming (ls p)) (sincoming s)) (up p)\<rparr>)"
| p_to_server: "pstep cenv senv p (p\<lparr>ls := (ls p)\<lparr>sincoming := \<lparr>rd_data = take k (up p), rd_end = e\<rparr>\<rparr>\<rparr>)"
| p_to_client: "pstep cenv senv p (p\<lparr>lc := (lc p)\<lparr>incoming := \<lparr>rd_data = take k (down p), rd_end = e\<rparr>\<rparr>\<rparr>)"

definition link_init :: "'v conn_env \<Rightarrow> 'v sconn_env \<Rightarrow> 'v link \<Rightarrow> bool" where
  "link_init cenv senv p \<longleftrightarrow> conn_start cenv (lc p) \<and> sconn_init senv (ls p) \<and> up p = [] \<and> down p = []
     \<and> rd_data (incoming (lc p)) = [] \<and> rd_data (sincoming (ls p)) = []"

section \<open>The invariant\<close>

text \<open>
  A request object stands for the bytes \<open>b\<close>; the pending request with id \<open>i\<close> is the one with the
  bytes \<open>b\<close>, and it has been written.
\<close>

definition stands_for :: "'v conn_env \<Rightarrow> 'v client_request \<Rightarrow> byte list \<Rightarrow> bool" where
  "stands_for cenv r b \<longleftrightarrow> request_body (env_codec cenv) r = (None, b) \<and> cr_wBuf r = []"

definition matched :: "'v conn_env \<Rightarrow> 'v conn_state \<Rightarrow> u64 \<Rightarrow> byte list \<Rightarrow> bool" where
  "matched cenv c i b \<longleftrightarrow> (\<exists>q. map_of (pending c) i = Some q \<and> wpc c \<noteq> WWrite q i \<and> stands_for cenv (reqs c q) b)"

text \<open>The response \<open>(i, x, y)\<close> is what the server answers to the request \<open>b\<close> with that id.\<close>

definition answers :: "'v sconn_env \<Rightarrow> byte list \<Rightarrow> u64 \<times> byte list \<times> byte list \<Rightarrow> bool" where
  "answers senv b a \<longleftrightarrow> (case a of (i, x, y) \<Rightarrow> i \<noteq> 0 \<and> frame_ok x \<and> frame_ok y
     \<and> server_answers (se_codec senv) (se_methods senv) (put_request (i, b)) = Some (put_response a))"

text \<open>What the server's objects are, when \<open>P i b\<close> says that the bytes \<open>b\<close> were sent with id \<open>i\<close>.\<close>

definition asked :: "(u64 \<Rightarrow> byte list \<Rightarrow> bool) \<Rightarrow> u64 \<times> byte list \<Rightarrow> bool" where
  "asked P x \<longleftrightarrow> (case x of (i, b) \<Rightarrow> frame_ok b \<and> (i \<noteq> 0 \<longrightarrow> P i b))"

definition replied :: "'v sconn_env \<Rightarrow> (u64 \<Rightarrow> byte list \<Rightarrow> bool) \<Rightarrow> u64 \<times> byte list \<times> byte list \<Rightarrow> bool" where
  "replied senv P a \<longleftrightarrow> (\<exists>b. P (fst a) b \<and> answers senv b a)"

definition request_ok :: "(u64 \<Rightarrow> byte list \<Rightarrow> bool) \<Rightarrow> server_request \<Rightarrow> bool" where
  "request_ok P r \<longleftrightarrow> (\<exists>i b. r = request_read i b \<and> asked P (i, b))"

definition response_ok :: "'v sconn_env \<Rightarrow> (u64 \<Rightarrow> byte list \<Rightarrow> bool) \<Rightarrow> server_request \<Rightarrow> bool" where
  "response_ok senv P r \<longleftrightarrow> sr_errLen r = 0 \<and> replied senv P (response_of r)"

fun task_ok :: "'v sconn_env \<Rightarrow> (u64 \<Rightarrow> byte list \<Rightarrow> bool) \<Rightarrow> task \<Rightarrow> bool" where
  "task_ok senv P (TStart r) = request_ok P r"
| "task_ok senv P (TRun r) = request_ok P r"
| "task_ok senv P (TSend r) = response_ok senv P r"
| "task_ok senv P _ = True"

fun writes_ok :: "'v sconn_env \<Rightarrow> (u64 \<Rightarrow> byte list \<Rightarrow> bool) \<Rightarrow> swriter_pc \<Rightarrow> bool" where
  "writes_ok senv P (SWWrite r) = response_ok senv P r"
| "writes_ok senv P _ = True"

definition carried :: "'v sconn_env \<Rightarrow> (u64 \<Rightarrow> byte list \<Rightarrow> bool) \<Rightarrow> sconn_state \<Rightarrow> bool" where
  "carried senv P s \<longleftrightarrow> list_all (task_ok senv P) (tasks s) \<and> list_all (response_ok senv P) (responses s)
     \<and> writes_ok senv P (sw s)"

text \<open>The writer's request: not yet written at all, and in the table unless it wants no reply.\<close>

definition ready :: "'v conn_env \<Rightarrow> 'v conn_state \<Rightarrow> bool" where
  "ready cenv c \<longleftrightarrow> (\<forall>q\<in>set (queue c @ writer_holds (\<lambda>_. True) (wpc c)).
       cr_wBuf (reqs c q) = [] \<and> frame_ok (snd (request_body (env_codec cenv) (reqs c q))))
     \<and> (\<forall>q i. wpc c = WWrite q i \<longrightarrow> (if cr_skip (reqs c q) then i = 0 else map_of (pending c) i = Some q))"

text \<open>The start of a request that was not written to its end.\<close>

definition stub :: "byte list \<Rightarrow> bool" where
  "stub p \<longleftrightarrow> (\<exists>i b z. frame_ok b \<and> put_request (i, b) = p @ z \<and> z \<noteq> [])"

lemma stub_Nil [simp]: "stub []"
  unfolding stub_def by (intro exI [of _ 0] exI [of _ "[]"] exI [of _ "put_request (0, [])"]) (simp add: frame_ok_def)

text \<open>
  The pipe to the server: whole requests, and after them at most the start of one, of a writer
  that has failed. When the server's reader has ended nobody looks at it any more.
\<close>

definition reads_on :: "sconn_state \<Rightarrow> bool" where
  "reads_on s \<longleftrightarrow> sr s = SRIdle \<or> sr s = SRReading"

definition up_ok :: "'v conn_state \<Rightarrow> sconn_state \<Rightarrow> byte list \<Rightarrow> (u64 \<times> byte list) list \<Rightarrow> bool" where
  "up_ok c s bs us \<longleftrightarrow> (if reads_on s
     then \<exists>cut. bs = concat (List.map put_request us) @ cut
       \<and> stub cut \<and> (cut \<noteq> [] \<longrightarrow> \<not> writer_active c)
     else us = [])"

text \<open>
  The pipe to the client: the rest of the response the reader is in, then whole responses; of
  the last one the end may be missing, when the server's writer has failed.
\<close>

definition body_for :: "'v conn_env \<Rightarrow> 'v sconn_env \<Rightarrow> 'v client_request \<Rightarrow> byte list \<Rightarrow> bool" where
  "body_for cenv senv r bs \<longleftrightarrow> (\<exists>i b x y. bs = put_frame x @ put_frame y
     \<and> stands_for cenv r b \<and> answers senv b (i, x, y))"

fun body_ok :: "'v conn_env \<Rightarrow> 'v sconn_env \<Rightarrow> 'v conn_state \<Rightarrow> reader_pc \<Rightarrow> byte list \<Rightarrow> bool" where
  "body_ok cenv senv c (RBody q) bs = body_for cenv senv (reqs c q) bs"
| "body_ok cenv senv c _ bs = (bs = [])"

definition down_ok :: "'v conn_env \<Rightarrow> 'v sconn_env \<Rightarrow> 'v conn_state \<Rightarrow> sconn_state \<Rightarrow> byte list
    \<Rightarrow> (u64 \<times> byte list \<times> byte list) list \<Rightarrow> bool" where
  "down_ok cenv senv c s bs ds \<longleftrightarrow> (\<exists>pre z. bs @ z = pre @ concat (List.map put_response ds)
     \<and> body_ok cenv senv c (rpc c) pre \<and> (z \<noteq> [] \<longrightarrow> writer_failed (sw s)))"

definition listens :: "reader_pc \<Rightarrow> bool" where
  "listens r \<longleftrightarrow> (case r of RDone e \<Rightarrow> False | RGone \<Rightarrow> False | _ \<Rightarrow> True)"

definition once :: "(u64 \<times> byte list) list \<Rightarrow> sconn_state \<Rightarrow> (u64 \<times> byte list \<times> byte list) list \<Rightarrow> bool" where
  "once us s ds \<longleftrightarrow> (\<forall>i. i \<noteq> 0 \<longrightarrow>
     count (mset (List.map fst us) + mset (open_ids s) + mset (List.map fst ds)) i \<le> 1)"

text \<open>Everything on the wire and in the server belongs to a pending request of its own.\<close>

definition wires :: "'v conn_env \<Rightarrow> 'v sconn_env \<Rightarrow> 'v conn_state \<Rightarrow> sconn_state \<Rightarrow> byte list \<Rightarrow> byte list \<Rightarrow> bool" where
  "wires cenv senv c s u d \<longleftrightarrow> (\<exists>us ds. up_ok c s u us \<and> down_ok cenv senv c s d ds
     \<and> list_all (asked (matched cenv c)) us \<and> carried senv (matched cenv c) s
     \<and> list_all (replied senv (matched cenv c)) ds \<and> once us s ds)"

definition delivered :: "'v link \<Rightarrow> bool" where
  "delivered p \<longleftrightarrow> (reads_on (ls p) \<longrightarrow> (\<exists>u. up p = rd_data (sincoming (ls p)) @ u))
     \<and> (\<exists>d. down p = rd_data (incoming (lc p)) @ d)"

text \<open>Once the client's reader has ended, nothing is read from the pipe and nothing needs to hold.\<close>

definition link_inv :: "'v conn_env \<Rightarrow> 'v sconn_env \<Rightarrow> 'v link \<Rightarrow> bool" where
  "link_inv cenv senv p \<longleftrightarrow> conn_ok cenv (lc p)
     \<and> (listens (rpc (lc p)) \<longrightarrow> delivered p \<and> ready cenv (lc p) \<and> wires cenv senv (lc p) (ls p) (up p) (down p))"

end
