(* ===== verification/Link_Client.thy ===== *)
theory Link_Client
  imports Link
begin

text \<open>
  What a change of the client's state alone, and of the server's state alone, must keep of the
  invariant of the two ends, and that every step of the client keeps it: the steps that neither
  read nor write (\<open>tame\<close>), the writing of a request, the reading of an id and of a body.
\<close>

section \<open>Changing one end\<close>

lemma asked_mono: "asked P x \<Longrightarrow> (\<And>b. fst x \<noteq> 0 \<Longrightarrow> P (fst x) b \<Longrightarrow> Q (fst x) b) \<Longrightarrow> asked Q x"
  by (auto simp: asked_def)

lemma replied_mono: "replied senv P a \<Longrightarrow> (\<And>b. P (fst a) b \<Longrightarrow> Q (fst a) b) \<Longrightarrow> replied senv Q a"
  by (auto simp: replied_def)

lemma replied_id: "replied senv P a \<Longrightarrow> fst a \<noteq> 0 \<and> (\<exists>b. P (fst a) b)"
  by (cases a) (auto simp: replied_def answers_def)

lemma response_id: "response_ok senv P r \<Longrightarrow> sr_id r \<noteq> 0 \<and> (\<exists>b. P (sr_id r) b)"
  using replied_id [of senv P "response_of r"] by (simp add: response_ok_def response_of_def)

lemma response_mono: "response_ok senv P r \<Longrightarrow> (\<And>b. P (sr_id r) b \<Longrightarrow> Q (sr_id r) b) \<Longrightarrow> response_ok senv Q r"
  using replied_mono [of senv P "response_of r" Q] by (simp add: response_ok_def response_of_def)

lemma request_mono:
  assumes "request_ok P r" "\<And>b. sr_id r \<noteq> 0 \<Longrightarrow> P (sr_id r) b \<Longrightarrow> Q (sr_id r) b"
  shows "request_ok Q r"
proof -
  obtain i b where r: "r = request_read i b" "asked P (i, b)"
    using assms(1) by (auto simp: request_ok_def)
  moreover have "sr_id r = i"
    using r(1) by (simp add: request_read_def)
  ultimately show ?thesis
    using asked_mono [of P "(i, b)" Q] assms(2) by (auto simp: request_ok_def)
qed

lemma request_id: "request_ok P r \<Longrightarrow> sr_id r \<noteq> 0 \<Longrightarrow> \<exists>b. P (sr_id r) b"
  by (auto simp: request_ok_def asked_def request_read_def)

lemma task_mono:
  "task_ok senv P t \<Longrightarrow> (\<And>i b. i \<in> set (task_ids t) \<Longrightarrow> P i b \<Longrightarrow> Q i b) \<Longrightarrow> task_ok senv Q t"
  by (cases t) (auto intro: request_mono response_mono)

lemma task_id: "task_ok senv P t \<Longrightarrow> i \<in> set (task_ids t) \<Longrightarrow> \<exists>b. P i b"
  by (cases t) (auto dest: request_id response_id split: if_splits)

lemma carried_mono:
  assumes "carried senv P s" "\<And>i b. i \<in> set (open_ids s) \<Longrightarrow> P i b \<Longrightarrow> Q i b"
  shows "carried senv Q s"
proof -
  have "task_ok senv Q t" if "t \<in> set (tasks s)" for t
  proof (rule task_mono)
    show "task_ok senv P t"
      using assms(1) that by (simp add: carried_def list_all_iff)
  qed (use that in \<open>auto simp: open_ids_def intro!: assms(2)\<close>)
  moreover have "response_ok senv Q r" if "r \<in> set (responses s)" for r
  proof (rule response_mono)
    show "response_ok senv P r"
      using assms(1) that by (simp add: carried_def list_all_iff)
  qed (use that in \<open>auto simp: open_ids_def intro!: assms(2)\<close>)
  moreover have "writes_ok senv Q (sw s)"
    using assms response_mono [of senv P _ Q] by (cases "sw s") (auto simp: carried_def open_ids_def)
  ultimately show ?thesis
    by (simp add: carried_def list_all_iff)
qed

lemma carried_id: "carried senv P s \<Longrightarrow> i \<in> set (open_ids s) \<Longrightarrow> \<exists>b. P i b"
  by (cases "sw s") (auto simp: carried_def open_ids_def list_all_iff dest: task_id response_id)

text \<open>A step of the client that does not read.\<close>

lemma up_ok_client: "up_ok c s u us \<Longrightarrow> writer_active c' \<longrightarrow> writer_active c \<Longrightarrow> up_ok c' s u us"
  by (auto simp: up_ok_def)

lemma wires_client:
  assumes "wires cenv senv c s u d"
    and "\<And>i b. matched cenv c i b \<Longrightarrow> matched cenv c' i b"
    and "\<And>us. up_ok c s u us \<Longrightarrow> up_ok c' s u' us"
    and "\<And>bs. body_ok cenv senv c (rpc c) bs \<Longrightarrow> body_ok cenv senv c' (rpc c') bs"
  shows "wires cenv senv c' s u' d"
proof -
  from assms(1) obtain us ds where w: "up_ok c s u us" "down_ok cenv senv c s d ds"
      "list_all (asked (matched cenv c)) us" "carried senv (matched cenv c) s"
      "list_all (replied senv (matched cenv c)) ds" "once us s ds"
    by (auto simp: wires_def)
  have "up_ok c' s u' us"
    using w(1) by (rule assms(3))
  moreover have "down_ok cenv senv c' s d ds"
    using w(2) assms(4) by (auto simp: down_ok_def)
  moreover have "list_all (asked (matched cenv c')) us" "list_all (replied senv (matched cenv c')) ds"
    using w(3,5) assms(2) by (auto simp: list_all_iff intro: asked_mono replied_mono)
  moreover have "carried senv (matched cenv c') s"
    using w(4) assms(2) by (rule carried_mono)
  ultimately show ?thesis
    using w(6) by (auto simp: wires_def)
qed

text \<open>A step of the server that writes nothing and, where its reader goes on, reads nothing.\<close>

lemma once_less:
  assumes "once us s ds" "mset (open_ids s') \<subseteq># mset (open_ids s)" 
  shows "once us s' ds \<and> once [] s' ds"
proof -
  have "count (mset (open_ids s')) i \<le> count (mset (open_ids s)) i" for i
    using assms(2) by (rule mset_subset_eq_count)
  then have "count (mset us' + mset (open_ids s') + mset ds') i \<le> count (mset us' + mset (open_ids s) + mset ds') i" for us' ds' i
    by simp
  moreover have "count (mset (open_ids s) + mset ds') i \<le> count (mset us' + mset (open_ids s) + mset ds') i" for us' ds' :: "u64 list" and i
    by simp
  ultimately show ?thesis
    using assms(1) unfolding once_def by (metis (no_types, lifting) add_0 le_trans list.simps(8) mset.simps(1))
qed

lemma wires_server:
  assumes "wires cenv senv c s u d"
    and "carried senv (matched cenv c) s \<Longrightarrow> carried senv (matched cenv c) s'"
    and "mset (open_ids s') \<subseteq># mset (open_ids s)"
    and "reads_on s' \<Longrightarrow> reads_on s \<and> u' = u"
    and "writer_failed (sw s) \<Longrightarrow> writer_failed (sw s')"
  shows "wires cenv senv c s' u' d"
proof -
  from assms(1) obtain us ds where w: "up_ok c s u us" "down_ok cenv senv c s d ds"
      "list_all (asked (matched cenv c)) us" "carried senv (matched cenv c) s"
      "list_all (replied senv (matched cenv c)) ds" "once us s ds"
    by (auto simp: wires_def)
  let ?us = "if reads_on s' then us else []"
  have "up_ok c s' u' ?us"
    using w(1) assms(4) by (auto simp: up_ok_def)
  moreover have "down_ok cenv senv c s' d ds"
    using w(2) assms(5) by (auto simp: down_ok_def)
  moreover have "list_all (asked (matched cenv c)) ?us" "once ?us s' ds"
    using w(3) once_less [OF w(6) assms(3)] by simp_all
  ultimately show ?thesis
    using assms(2) w(4,5) unfolding wires_def by blast
qed

section \<open>The client's quiet steps\<close>

text \<open>What the writer holds and what is pending are different objects, each pending once.\<close>

lemma pending_once:
  assumes "inv_objects c" "map_of (pending c) i = Some q"
  shows "q \<notin> set (queue c)" "rpc c \<noteq> RBody q" "cr_skip (reqs c q) \<Longrightarrow> wpc c \<noteq> WWrite q j"
    "q \<in> in_use c" "map_of (pending c) j = Some q \<Longrightarrow> i = j"
proof -
  have mem: "(i, q) \<in> set (pending c)"
    using assms(2) by (rule map_of_SomeD)
  then have q: "q \<in> snd ` set (pending c)"
    by force
  have d: "distinct (queue c @ List.map snd (pending c) @ reader_holds (rpc c) @ writer_holds (skips c) (wpc c))"
    using assms(1) by (auto simp: inv_objects_def in_flight_def)
  show "q \<notin> set (queue c)" "rpc c \<noteq> RBody q" "cr_skip (reqs c q) \<Longrightarrow> wpc c \<noteq> WWrite q j"
    using d q by (auto simp: skips_def)
  show "q \<in> in_use c"
    using q by (auto simp: in_use_def in_flight_def)
  show "i = j" if "map_of (pending c) j = Some q"
    using inj_onD [of snd "set (pending c)" "(i, q)" "(j, q)"] d mem map_of_SomeD [OF that] by (simp add: distinct_map)
qed

text \<open>What a step must keep of a request object.\<close>

definition same_wire :: "'v client_request \<Rightarrow> 'v client_request \<Rightarrow> bool" where
  "same_wire r r' \<longleftrightarrow> cr_name r' = cr_name r \<and> cr_nameLen r' = cr_nameLen r \<and> cr_args r' = cr_args r
     \<and> cr_wBuf r' = cr_wBuf r \<and> cr_skip r' = cr_skip r"

lemma same_wire_refl [simp]: "same_wire r r"
  by (simp add: same_wire_def)

lemma same_wire_body: "same_wire r r' \<Longrightarrow> request_body cd r' = request_body cd r"
  by (simp add: same_wire_def request_body_def)

lemma same_wire_stands: "same_wire r r' \<Longrightarrow> stands_for cenv r' b = stands_for cenv r b"
  by (simp add: stands_for_def same_wire_body) (simp add: same_wire_def)

lemma same_wire_for: "same_wire r r' \<Longrightarrow> body_for cenv senv r' bs = body_for cenv senv r bs"
  by (simp add: body_for_def same_wire_stands)

definition quiet :: "'v conn_env \<Rightarrow> 'v conn_state \<Rightarrow> 'v conn_state \<Rightarrow> bool" where
  "quiet cenv c c' \<longleftrightarrow> (\<forall>i b. matched cenv c i b \<longrightarrow> matched cenv c' i b) \<and> (writer_active c' \<longrightarrow> writer_active c)
     \<and> (listens (rpc c') \<longrightarrow> (\<forall>senv bs. body_ok cenv senv c (rpc c) bs \<longrightarrow> body_ok cenv senv c' (rpc c') bs))"

lemma quiet_same:
  assumes "inv_objects c" "\<And>q. q \<in> in_use c \<Longrightarrow> same_wire (reqs c q) (reqs c' q)"
    and "pending c' = pending c" "wpc c' = wpc c \<or> \<not> writer_active c'"
    and "rpc c' = rpc c \<or> rpc c = RIdle \<and> rpc c' = RReading"
  shows "quiet cenv c c'"
  unfolding quiet_def
proof (intro conjI allI impI)
  fix i b
  assume "matched cenv c i b"
  then obtain q where q: "map_of (pending c) i = Some q" "wpc c \<noteq> WWrite q i" "stands_for cenv (reqs c q) b"
    by (auto simp: matched_def)
  with pending_once(4) [OF assms(1) q(1)] assms(2) [of q] assms(3,4) show "matched cenv c' i b"
    by (auto simp: matched_def same_wire_stands writer_active_def)
next
  fix senv bs
  assume "body_ok cenv senv c (rpc c) bs"
  moreover have "same_wire (reqs c q) (reqs c' q)" if "rpc c = RBody q" for q
    using that by (intro assms(2)) (simp add: in_use_def in_flight_def)
  ultimately show "body_ok cenv senv c' (rpc c') bs"
    using assms(5) by (cases "rpc c") (auto simp: same_wire_for)
qed (use assms(4) in \<open>auto simp: writer_active_def\<close>)

text \<open>The queue holds requests that fit in memory; the step of the two ends requires it.\<close>

definition queue_fits :: "'v conn_env \<Rightarrow> 'v conn_state \<Rightarrow> bool" where
  "queue_fits cenv c \<longleftrightarrow> (\<forall>q\<in>set (queue c). frame_ok (snd (request_body (env_codec cenv) (reqs c q))))"

lemma ready_same:
  assumes "ready cenv c" "\<And>q. q \<in> in_use c \<Longrightarrow> same_wire (reqs c q) (reqs c' q)"
    and "pending c' = pending c" "wpc c' = wpc c \<or> \<not> writer_active c'" "queue c' = queue c"
  shows "ready cenv c'"
proof -
  have same: "same_wire (reqs c q) (reqs c' q)" if "q \<in> set (queue c @ writer_holds (\<lambda>_. True) (wpc c))" for q
    using that by (intro assms(2)) (auto simp: in_use_def in_flight_def)
  have "request_body (env_codec cenv) (reqs c' q) = request_body (env_codec cenv) (reqs c q)
      \<and> cr_wBuf (reqs c' q) = cr_wBuf (reqs c q) \<and> cr_skip (reqs c' q) = cr_skip (reqs c q)"
    if "q \<in> set (queue c @ writer_holds (\<lambda>_. True) (wpc c))" for q
    using same [OF that] by (simp add: same_wire_body) (simp add: same_wire_def)
  with assms(1,3,5) assms(4) show ?thesis
    by (cases "wpc c"; cases "wpc c'") (simp_all add: ready_def writer_active_def)
qed

lemma ready_call:
  assumes "ready cenv c" "q \<notin> in_use c" "cr_wBuf r = []" "queue_fits cenv c'"
    and "c' = c\<lparr>reqs := (reqs c)(q := r), queue := queue c @ [q], pool := pl, callers := cs\<rparr>"
  shows "ready cenv c'"
proof -
  have "q \<notin> set (queue c @ writer_holds (\<lambda>_. True) (wpc c))"
    using assms(2) by (auto simp: in_use_def in_flight_def)
  with assms show ?thesis
    by (cases "wpc c") (auto simp: ready_def queue_fits_def)
qed

text \<open>A step that writes nothing and reads nothing.\<close>

definition tame :: "'v conn_env \<Rightarrow> 'v conn_state \<Rightarrow> 'v conn_state \<Rightarrow> bool" where
  "tame cenv c c' \<longleftrightarrow> wr_out (outgoing c') = wr_out (outgoing c) \<and> incoming c' = incoming c
     \<and> (listens (rpc c') \<longrightarrow> listens (rpc c) \<and> quiet cenv c c' \<and> (queue_fits cenv c' \<longrightarrow> ready cenv c \<longrightarrow> ready cenv c'))"

lemma tame_deaf:
  "wr_out (outgoing c') = wr_out (outgoing c) \<Longrightarrow> incoming c' = incoming c \<Longrightarrow> \<not> listens (rpc c') \<Longrightarrow> tame cenv c c'"
  by (simp add: tame_def)

lemma tame_same:
  assumes "inv_objects c" "\<And>q. q \<in> in_use c \<Longrightarrow> same_wire (reqs c q) (reqs c' q)"
    and "pending c' = pending c" "wpc c' = wpc c \<or> \<not> writer_active c'" "queue c' = queue c"
    and "rpc c' = rpc c \<or> rpc c = RIdle \<and> rpc c' = RReading"
    and "wr_out (outgoing c') = wr_out (outgoing c)" "incoming c' = incoming c"
  shows "tame cenv c c'"
  using quiet_same [OF assms(1-4,6)] ready_same [OF _ assms(2-5), of cenv] assms(6-8)
  by (auto simp: tame_def listens_def)

lemma tame_call:
  assumes "inv_objects c" "q \<notin> in_use c" "cr_wBuf r = []"
  shows "tame cenv c (c\<lparr>reqs := (reqs c)(q := r), queue := queue c @ [q], pool := pl, callers := cs\<rparr>)"
    (is "tame cenv c ?c")
proof -
  have "quiet cenv c ?c"
    using assms(1,2) by (intro quiet_same) auto
  with ready_call [OF _ assms(2,3), of cenv ?c] show ?thesis
    by (simp add: tame_def)
qed

lemma tame_caller:
  assumes "inv_objects c" "same_wire (reqs c q) r"
  shows "tame cenv c (c\<lparr>reqs := (reqs c)(q := r), callers := cs\<rparr>)"
  using assms by (intro tame_same) auto

lemma matched_other:
  assumes "matched cenv c i b" "map_of (pending c') i = map_of (pending c) i"
    and "\<And>q. map_of (pending c) i = Some q \<Longrightarrow> reqs c' q = reqs c q \<and> wpc c' \<noteq> WWrite q i"
  shows "matched cenv c' i b"
  using assms by (auto simp: matched_def)

lemma tame_take:
  assumes inv: "inv_objects c" "length (pending c) < 2 ^ 64" and w: "wpc c = WIdle" "queue c = q # qs"
  shows "tame cenv c (take_request cenv q (c\<lparr>queue := qs\<rparr>))" (is "tame cenv c ?c")
proof -
  have q: "q \<notin> set qs" "q \<notin> snd ` set (pending c)" "rpc c \<noteq> RBody q"
    using inv(1) w by (auto simp: inv_objects_def in_flight_def)
  have pend: "map_of (pending c) i \<noteq> Some q" for i
    using q(2) map_of_SomeD [of "pending c" i q] by force
  have len: "length (pending (c\<lparr>queue := qs\<rparr>)) < 2 ^ 64"
    using inv(2) by simp
  consider (reset) "?c = c\<lparr>queue := qs, reqs := (reqs c)(q := cr_reset (reqs c q)), pool := q # pool c\<rparr>"
    | (skip) "cr_skip (reqs c q)" "?c = c\<lparr>queue := qs, wpc := WWrite q 0\<rparr>"
    | (store) i where "\<not> cr_skip (reqs c q)" "map_of (pending c) i = None" "pending ?c = (i, q) # pending c"
      "wpc ?c \<in> {WDone (overflow_error (env_addr cenv) (length (pending c))), WWrite q i}"
      "reqs ?c = reqs c" "queue ?c = qs" "rpc ?c = rpc c" "incoming ?c = incoming c" "outgoing ?c = outgoing c"
  proof (cases rule: store_request_cases [OF len, of cenv q])
    case (1 i)
    show ?thesis
    proof (cases "cr_err (reqs c q) = None \<and> \<not> cr_skip (reqs c q)")
      case True
      with 1 show ?thesis
        by (intro store [of i]) (simp_all add: take_request_def)
    next
      case False
      then show ?thesis
        by (cases "cr_err (reqs c q)") (simp_all add: take_request_def release_def reset skip)
    qed
  qed
  then show ?thesis
  proof cases
    case reset
    have "quiet cenv c ?c"
      unfolding reset quiet_def using q pend w
      by (cases "rpc c") (auto simp: writer_active_def elim!: matched_other)
    moreover have "ready cenv c \<Longrightarrow> ready cenv ?c"
      unfolding reset using w q by (auto simp: ready_def)
    ultimately show ?thesis
      by (simp add: tame_def reset)
  next
    case skip
    have "quiet cenv c ?c"
      unfolding skip(2) quiet_def using q pend w
      by (cases "rpc c") (auto simp: writer_active_def elim!: matched_other)
    moreover have "ready cenv c \<Longrightarrow> ready cenv ?c"
      unfolding skip(2) using w q skip(1) by (auto simp: ready_def)
    ultimately show ?thesis
      by (simp add: tame_def skip(2))
  next
    case store
    have "matched cenv ?c j b" if "matched cenv c j b" for j b
    proof (rule matched_other [OF that])
      have "i \<noteq> j"
        using that store(2) by (auto simp: matched_def)
      then show "map_of (pending ?c) j = map_of (pending c) j"
        by (simp add: store(3))
    qed (use store(4,5) pend in auto)
    then have "quiet cenv c ?c"
      using store(5,7) w(1) by (cases "rpc c") (auto simp: quiet_def writer_active_def)
    moreover have "ready cenv c \<Longrightarrow> ready cenv ?c"
      using w store(1,3-6) by (auto simp: ready_def)
    ultimately show ?thesis
      using store(7-9) by (simp add: tame_def)
  qed
qed

lemma client_step_kinds:
  assumes step: "cstep cenv c c'" and inv: "conn_ok cenv c" and net: "incoming c' = incoming c \<or> rpc c' \<noteq> rpc c"
  shows "(\<exists>q i. wpc c = WWrite q i \<and> c' = write_request cenv q i c) \<or> (rpc c = RReading \<and> c' = receive_id c)
    \<or> (\<exists>q. rpc c = RBody q \<and> receive_body cenv q c = Some c') \<or> tame cenv c c'"
proof -
  have obj: "inv_objects c" and ph: "inv_phase c" and len: "length (pending c) < 2 ^ 64"
    using inv by (auto simp: conn_ok_def conn_inv_def inv_table_def split: if_splits)
  show ?thesis
    using step
  proof cases
    case (c_call q r)
    then show ?thesis
      using tame_call [OF obj, of q r] by (simp add: fresh_request_def)
  next
    case (c_send q r)
    then show ?thesis
      using tame_call [OF obj, of q r] by (simp add: fresh_request_def)
  next
    case (c_cancel q e)
    then show ?thesis
      using tame_caller [OF obj, of q "(reqs c q)\<lparr>cr_err := Some e\<rparr>"] by (simp add: same_wire_def)
  next
    case (c_done q)
    then show ?thesis
      using tame_caller [OF obj, of q "(reqs c q)\<lparr>cr_done := done_drain (cr_done (reqs c q))\<rparr>"] by (simp add: same_wire_def)
  next
    case (w_take q qs)
    then show ?thesis
      using tame_take [OF obj len, of q qs] by simp
  next
    case (h_drain e)
    then have "rpc c = RGone"
      using ph by (simp add: inv_phase_def)
    then show ?thesis
      using drain_eq [OF obj, of e] h_drain by (simp add: tame_deaf listens_def)
  next
    case r_check
    then show ?thesis
      using tame_same [OF obj, of "c\<lparr>rpc := RReading\<rparr>" cenv] tame_deaf [of c' c cenv]
      by (cases "connStop c") (simp_all add: listens_def)
  next
    case (h_last_writer e err)
    then have "rpc c = RGone"
      using ph by (simp add: inv_phase_def)
    then show ?thesis
      using h_last_writer by (simp add: tame_deaf listens_def)
  next
    case (n_network rd)
    then show ?thesis
      using net obj by (auto intro!: tame_same)
  qed (use tame_same [OF obj, of c' cenv] tame_deaf [of c' c cenv] in \<open>simp_all add: listens_def writer_active_def\<close>)
qed

lemma wires_tame:
  assumes "tame cenv c c'" "listens (rpc c')" "wires cenv senv c s u d"
  shows "wires cenv senv c' s u d"
  using assms by (intro wires_client [OF assms(3)]) (auto simp: tame_def quiet_def intro: up_ok_client)

section \<open>The client writes\<close>

lemma added_more: "wr_out w' = wr_out w @ bs \<Longrightarrow> added w w' = bs"
  by (simp add: added_def)

text \<open>Either the whole request is written, or a part of some request and the writer ends.\<close>

lemma write_request_wrote:
  assumes "cr_wBuf (reqs c q) = []" "frame_ok (snd (request_body (env_codec cenv) (reqs c q)))"
  obtains (whole) b w where "stands_for cenv (reqs c q) b" "frame_ok b"
      "wr_out w = wr_out (outgoing c) @ put_request (i, b)"
      "write_request cenv q i c = (let c1 = c\<lparr>outgoing := w, wpc := WIdle\<rparr> in if cr_skip (reqs c q) then release q c1 else c1)"
  | (cut) a wb w e where "stub a" "wr_out w = wr_out (outgoing c) @ a"
      "write_request cenv q i c = c\<lparr>reqs := (reqs c)(q := (reqs c q)\<lparr>cr_wBuf := wb\<rparr>), outgoing := w, wpc := WDone e\<rparr>"
proof -
  let ?r = "reqs c q"
  obtain e1 w1 where 1: "wr_write (be_put i) (outgoing c) = (e1, w1)"
    by fastforce
  obtain e2 r2 w2 where 2: "cr_writeTo (env_codec cenv) ?r w1 = (e2, r2, w2)"
    by (cases "cr_writeTo (env_codec cenv) ?r w1") auto
  obtain x b where b: "request_body (env_codec cenv) ?r = (x, b)" and f: "frame_ok b"
    using assms(2) by (cases "request_body (env_codec cenv) ?r") simp
  note body = cr_writeTo_wrote [OF 2 assms(1), unfolded b]
  have stub_of: thesis if w: "wrote (put_request (i, b')) (outgoing c) (Some e) w" "frame_ok b'"
      and c: "write_request cenv q i c = c\<lparr>reqs := (reqs c)(q := ?r\<lparr>cr_wBuf := wb\<rparr>), outgoing := w, wpc := WDone e\<rparr>" for b' e w wb
  proof -
    obtain a z where "put_request (i, b') = a @ z" "wr_out w = wr_out (outgoing c) @ a" "z \<noteq> []"
      using w(1) by (auto simp: wrote_def)
    with w(2) have "stub a"
      unfolding stub_def by blast
    then show thesis
      using \<open>wr_out w = _\<close> c by (rule cut)
  qed
  show thesis
  proof (cases e1)
    case (Some e)
    have "?r\<lparr>cr_wBuf := []\<rparr> = ?r"
      using assms(1) by simp
    with Some 1 have "write_request cenv q i c = c\<lparr>reqs := (reqs c)(q := ?r\<lparr>cr_wBuf := []\<rparr>), outgoing := w1, wpc := WDone e\<rparr>"
      by (simp add: write_request_def)
    then show thesis
      using wrote_write [OF 1] f Some by (intro stub_of [of b e w1]) (auto simp: put_request_simp intro: wrote_more)
  next
    case None
    then have id: "wr_out w1 = wr_out (outgoing c) @ be_put i"
      using wrote_write [OF 1] by (simp add: wrote_none)
    show thesis
    proof (cases e2)
      case (Some e)
      obtain wb where "r2 = ?r\<lparr>cr_wBuf := wb\<rparr>"
        using body by blast
      with Some None 1 2 have c: "write_request cenv q i c
          = c\<lparr>reqs := (reqs c)(q := ?r\<lparr>cr_wBuf := wb\<rparr>), outgoing := w2, wpc := WDone e\<rparr>"
        by (simp add: write_request_def)
      show thesis
      proof (cases x)
        case None
        with body Some \<open>e1 = None\<close> wrote_write [OF 1] show thesis
          by (intro stub_of [OF _ f c]) (auto simp: put_request_simp intro: wrote_then)
      next
        case x: Some
        with body have "w2 = w1"
          by simp
        with id have "wr_out w2 = wr_out (outgoing c) @ be_put i"
          by simp
        moreover have "stub (be_put i)"
          unfolding stub_def
          by (intro exI [of _ i] exI [of _ "[]"] exI [of _ "put_frame []"]) (simp add: put_request_simp frame_ok_def put_frame_def)
        ultimately show thesis
          using c by (intro cut)
      qed
    next
      case e2: None
      with body have x: "x = None" "r2 = ?r" and w2: "wr_out w2 = wr_out w1 @ put_frame b"
        by (auto simp: wrote_none split: option.splits)
      with 1 2 None e2 show thesis
        using id b f assms(1)
        by (intro whole [of b w2]) (simp_all add: stands_for_def put_request_simp write_request_def Let_def fun_upd_idem)
    qed
  qed
qed

text \<open>While a request is being written, nothing on the wire has its id.\<close>

lemma once_new:
  assumes "list_all (asked P) us" "carried senv P s" "list_all (replied senv P) ds" "once us s ds"
    and "i \<noteq> 0 \<Longrightarrow> \<forall>b. \<not> P i b"
  shows "once (us @ [(i, b)]) s ds"
  unfolding once_def
proof (intro allI impI)
  fix j :: u64
  assume j: "j \<noteq> 0"
  show "count (mset (List.map fst (us @ [(i, b)])) + mset (open_ids s) + mset (List.map fst ds)) j \<le> 1"
  proof (cases "i = j")
    case False
    with j assms(4) show ?thesis
      by (simp add: once_def)
  next
    case True
    with j assms(5) have no: "\<not> P j b'" for b'
      by simp
    have "j \<notin> set (List.map fst us)"
      using assms(1) no j by (auto simp: list_all_iff asked_def)
    moreover have "j \<notin> set (open_ids s)"
      using carried_id [OF assms(2)] no by blast
    moreover have "j \<notin> set (List.map fst ds)"
      using assms(3) no replied_id [of senv P] by (fastforce simp: list_all_iff)
    ultimately show ?thesis
      using True by (simp add: count_eq_zero_iff)
  qed
qed

lemma wires_written:
  assumes "wires cenv senv c s u d" "writer_active c"
    and mono: "\<And>j b. matched cenv c j b \<Longrightarrow> matched cenv c' j b"
    and body: "\<And>bs. body_ok cenv senv c (rpc c) bs \<Longrightarrow> body_ok cenv senv c' (rpc c') bs"
    and new: "i \<noteq> 0 \<Longrightarrow> \<forall>b. \<not> matched cenv c i b" "i \<noteq> 0 \<Longrightarrow> matched cenv c' i b" "frame_ok b"
  shows "wires cenv senv c' s (u @ put_request (i, b)) d"
proof -
  from assms(1) obtain us ds where w: "up_ok c s u us" "down_ok cenv senv c s d ds"
      "list_all (asked (matched cenv c)) us" "carried senv (matched cenv c) s"
      "list_all (replied senv (matched cenv c)) ds" "once us s ds"
    by (auto simp: wires_def)
  let ?us = "if reads_on s then us @ [(i, b)] else []"
  have "up_ok c' s (u @ put_request (i, b)) ?us"
    using w(1) assms(2) by (auto simp: up_ok_def)
  moreover have "down_ok cenv senv c' s d ds"
    using w(2) body by (auto simp: down_ok_def)
  moreover have "list_all (asked (matched cenv c')) ?us" "list_all (replied senv (matched cenv c')) ds"
    using w(3,5) mono new(2,3) by (auto simp: list_all_iff asked_def intro: replied_mono)
  moreover have "carried senv (matched cenv c') s"
    using w(4) mono by (rule carried_mono)
  moreover have "once ?us s ds"
    using once_new [OF w(3-6) new(1)] once_less [OF w(6)] by simp
  ultimately show ?thesis
    unfolding wires_def by blast
qed

text \<open>The request the writer is at: only the table may have it too, and only under its id.\<close>

lemma writing_request:
  assumes r: "ready cenv c" and obj: "inv_objects c" and pc: "wpc c = WWrite q i"
  shows "cr_wBuf (reqs c q) = []" "frame_ok (snd (request_body (env_codec cenv) (reqs c q)))"
    "if cr_skip (reqs c q) then i = 0 else map_of (pending c) i = Some q"
    "q \<notin> set (queue c) \<and> rpc c \<noteq> RBody q"
    "i \<noteq> j \<or> cr_skip (reqs c q) \<Longrightarrow> map_of (pending c) j \<noteq> Some q"
proof -
  show q: "cr_wBuf (reqs c q) = []" "frame_ok (snd (request_body (env_codec cenv) (reqs c q)))"
      "if cr_skip (reqs c q) then i = 0 else map_of (pending c) i = Some q"
    using r pc by (auto simp: ready_def)
  show "q \<notin> set (queue c) \<and> rpc c \<noteq> RBody q"
  proof (cases "cr_skip (reqs c q)")
    case True
    then have "q \<in> set (writer_holds (skips c) (wpc c))"
      by (simp add: pc skips_def)
    with obj show ?thesis
      by (auto simp: inv_objects_def in_flight_def)
  next
    case False
    with q(3) pending_once(1,2) [OF obj, of i q] show ?thesis
      by simp
  qed
  show "map_of (pending c) j \<noteq> Some q" if "i \<noteq> j \<or> cr_skip (reqs c q)"
  proof
    assume j: "map_of (pending c) j = Some q"
    have "\<not> cr_skip (reqs c q)"
      using pending_once(3) [OF obj j] pc by blast
    moreover from this have "j = i"
      using pending_once(5) [OF obj j] q(3) by simp
    ultimately show False
      using that by simp
  qed
qed

lemma wires_write_whole:
  assumes w: "wires cenv senv c s u d" and r: "ready cenv c" and obj: "inv_objects c" and pc: "wpc c = WWrite q i"
    and whole: "stands_for cenv (reqs c q) b" "frame_ok b" "wr_out w = wr_out (outgoing c) @ put_request (i, b)"
      "write_request cenv q i c = (let c1 = c\<lparr>outgoing := w, wpc := WIdle\<rparr> in if cr_skip (reqs c q) then release q c1 else c1)"
  shows "ready cenv (write_request cenv q i c)
    \<and> wires cenv senv (write_request cenv q i c) s (u @ added (outgoing c) (outgoing (write_request cenv q i c))) d
    \<and> incoming (write_request cenv q i c) = incoming c"
proof -
  note q = writing_request(1-3) [OF r obj pc] and queue = writing_request(4) [OF r obj pc]
    and only = writing_request(5) [OF r obj pc]
  let ?c = "write_request cenv q i c"
  have add: "added (outgoing c) (outgoing ?c) = put_request (i, b)" "incoming ?c = incoming c"
    using whole(3) by (simp_all add: whole(4) Let_def release_def added_more)
  have c: "pending ?c = pending c" "wpc ?c = WIdle" "rpc ?c = rpc c" "queue ?c = queue c"
      "\<And>q'. q' \<noteq> q \<or> \<not> cr_skip (reqs c q) \<Longrightarrow> reqs ?c q' = reqs c q'"
    by (auto simp: whole(4) Let_def release_def)
  have "wires cenv senv ?c s (u @ put_request (i, b)) d"
  proof (rule wires_written [OF w])
    show "matched cenv ?c j b'" if "matched cenv c j b'" for j b'
    proof (rule matched_other [OF that])
      show "reqs ?c q' = reqs c q' \<and> wpc ?c \<noteq> WWrite q' j" if "map_of (pending c) j = Some q'" for q'
        using that c(2) c(5) [of q'] only [of j] by auto
    qed (simp add: c(1))
    show "body_ok cenv senv ?c (rpc ?c) bs" if "body_ok cenv senv c (rpc c) bs" for bs
      using that c(3,5) queue by (cases "rpc c") auto
    show "matched cenv ?c i b" if "i \<noteq> 0"
      using that q(3) whole(1) c(2,5) by (auto simp: matched_def c(1) split: if_splits)
    show "\<forall>b. \<not> matched cenv c i b" if "i \<noteq> 0"
      using that q(3) pc by (auto simp: matched_def split: if_splits)
  qed (use pc whole(2) in \<open>simp_all add: writer_active_def\<close>)
  moreover have "ready cenv ?c"
  proof -
    have "reqs ?c q' = reqs c q'" if "q' \<in> set (queue c)" for q'
      using that queue by (intro c(5)) auto
    with r show ?thesis
      by (simp add: ready_def c(2,4))
  qed
  ultimately show ?thesis
    by (simp add: add)
qed

lemma wires_write_cut:
  assumes w: "wires cenv senv c s u d" and r: "ready cenv c" and obj: "inv_objects c" and pc: "wpc c = WWrite q i"
    and cut: "stub a" "wr_out w = wr_out (outgoing c) @ a"
      "write_request cenv q i c = c\<lparr>reqs := (reqs c)(q := (reqs c q)\<lparr>cr_wBuf := wb\<rparr>), outgoing := w, wpc := WDone e\<rparr>"
  shows "ready cenv (write_request cenv q i c)
    \<and> wires cenv senv (write_request cenv q i c) s (u @ added (outgoing c) (outgoing (write_request cenv q i c))) d
    \<and> incoming (write_request cenv q i c) = incoming c"
proof -
  note q = writing_request(1-3) [OF r obj pc] and queue = writing_request(4) [OF r obj pc]
    and only = writing_request(5) [OF r obj pc]
  let ?c = "write_request cenv q i c"
  have add: "added (outgoing c) (outgoing ?c) = a" "incoming ?c = incoming c"
    using cut(2) by (simp_all add: cut(3) added_more)
  have "wires cenv senv ?c s (u @ a) d"
  proof (rule wires_client [OF w])
    show "matched cenv ?c j b'" if "matched cenv c j b'" for j b'
    proof (rule matched_other [OF that])
      have "i \<noteq> j \<or> cr_skip (reqs c q)"
        using that q(3) pc by (auto simp: matched_def split: if_splits)
      then show "reqs ?c q' = reqs c q' \<and> wpc ?c \<noteq> WWrite q' j" if "map_of (pending c) j = Some q'" for q'
        using that only [of j] by (auto simp: cut(3))
    qed (simp add: cut(3))
    show "body_ok cenv senv ?c (rpc ?c) bs" if "body_ok cenv senv c (rpc c) bs" for bs
      using that queue by (cases "rpc c") (auto simp: cut(3))
    have "writer_active c" "\<not> writer_active ?c"
      by (simp_all add: writer_active_def pc cut(3))
    with cut(1) show "up_ok ?c s (u @ a) us" if "up_ok c s u us" for us
      using that by (auto simp: up_ok_def)
  qed
  moreover have "ready cenv ?c"
    using r queue by (auto simp: ready_def cut(3))
  ultimately show ?thesis
    by (simp add: add)
qed

lemma wires_write:
  assumes "wires cenv senv c s u d" "ready cenv c" "inv_objects c" "wpc c = WWrite q i"
  shows "ready cenv (write_request cenv q i c)
    \<and> wires cenv senv (write_request cenv q i c) s (u @ added (outgoing c) (outgoing (write_request cenv q i c))) d
    \<and> incoming (write_request cenv q i c) = incoming c"
  using writing_request(1,2) [OF assms(2-4)]
  by (cases rule: write_request_wrote [where i = i])
    (use wires_write_whole [OF assms] wires_write_cut [OF assms] in blast)+

section \<open>The client reads\<close>

lemma drop_taken: "rd_data r = x @ rd_data r' \<Longrightarrow> drop (taken r r') (rd_data r @ d) = rd_data r' @ d"
  by (simp add: taken_def)

text \<open>An id that is read starts the first response of the pipe.\<close>

lemma next_response:
  assumes "down_ok cenv senv c s d ds" "rpc c = RReading" "d = rd_data (incoming c) @ d2"
    and "read_u64 (incoming c) = (Inr i, rd)"
  obtains x y ds' z where "ds = (i, x, y) # ds'" "rd_data (incoming c) = be_put i @ rd_data rd"
    "(rd_data rd @ d2) @ z = put_frame x @ put_frame y @ concat (List.map put_response ds')"
    "z \<noteq> [] \<longrightarrow> writer_failed (sw s)"
proof -
  obtain v e where v: "incoming c = \<lparr>rd_data = v, rd_end = e\<rparr>"
    by (cases "incoming c") simp
  obtain z where z: "d @ z = concat (List.map put_response ds)" "z \<noteq> [] \<longrightarrow> writer_failed (sw s)"
    using assms(1,2) by (auto simp: down_ok_def)
  show thesis
  proof (cases ds)
    case Nil
    with z(1) assms(3) v have "v = []"
      by simp
    with assms(4) v read_u64_short [of "[]" e] show thesis
      by auto
  next
    case (Cons a ds')
    obtain j x y where a: "a = (j, x, y)"
      by (cases a)
    have pipe: "v @ d2 @ z = be_put j @ put_frame x @ put_frame y @ concat (List.map put_response ds')"
      using z(1) assms(3) Cons a v by (simp add: put_response_simp)
    from read_u64_front [OF assms(4) [unfolded v] pipe] have "i = j" "v = be_put j @ rd_data rd"
      by simp_all
    with pipe z(2) Cons a v show thesis
      by (intro that [of x y ds' z]) simp_all
  qed
qed

text \<open>That id is pending, so the reader never meets an unexpected message.\<close>

lemma next_response_pending:
  assumes "wires cenv senv c s u d" "rpc c = RReading" "d = rd_data (incoming c) @ d2"
    and "read_u64 (incoming c) = (Inr i, rd)"
  shows "\<exists>q. map_of (pending c) i = Some q"
proof -
  from assms(1) obtain ds where ds: "down_ok cenv senv c s d ds" "list_all (replied senv (matched cenv c)) ds"
    by (auto simp: wires_def)
  from ds(1) assms(2-4) obtain x y ds' where "ds = (i, x, y) # ds'"
    by (rule next_response)
  with ds(2) show ?thesis
    by (auto simp: replied_def matched_def)
qed

lemma once_next:
  assumes "once us s ((i, a) # ds)" "i \<noteq> 0"
  shows "once us s ds" "i \<notin> set (List.map fst us)" "i \<notin> set (open_ids s)" "i \<notin> set (List.map fst ds)"
proof -
  have "count (mset (List.map fst us) + mset (open_ids s) + mset (List.map fst ds)) i = 0"
    using assms by (fastforce simp: once_def)
  then show "i \<notin> set (List.map fst us)" "i \<notin> set (open_ids s)" "i \<notin> set (List.map fst ds)"
    by (auto simp: count_eq_zero_iff)
  show "once us s ds"
    unfolding once_def
  proof (intro allI impI)
    fix j :: u64
    assume "j \<noteq> 0"
    from assms(1) [unfolded once_def, rule_format, OF this]
    show "count (mset (List.map fst us) + mset (open_ids s) + mset (List.map fst ds)) j \<le> 1"
      by (rule order_trans [rotated]) simp
  qed
qed

lemma map_of_filter_key: "map_of (filter (\<lambda>(j, _). j \<noteq> i) p) j = (if j = i then None else map_of p j)"
  by (induction p) auto

lemma wires_id:
  assumes w: "wires cenv senv c s u d" and r: "ready cenv c" and pc: "rpc c = RReading"
    and view: "d = rd_data (incoming c) @ d2" and on: "listens (rpc (receive_id c))"
  shows "ready cenv (receive_id c) \<and> outgoing (receive_id c) = outgoing c
    \<and> wires cenv senv (receive_id c) s u (rd_data (incoming (receive_id c)) @ d2)
    \<and> drop (taken (incoming c) (incoming (receive_id c))) d = rd_data (incoming (receive_id c)) @ d2"
proof -
  obtain i rd where read: "read_u64 (incoming c) = (Inr i, rd)"
    using on by (cases "read_u64 (incoming c)"; cases "fst (read_u64 (incoming c))") (auto simp: receive_id_def listens_def)
  from w obtain us ds where p: "up_ok c s u us" "down_ok cenv senv c s d ds"
      "list_all (asked (matched cenv c)) us" "carried senv (matched cenv c) s"
      "list_all (replied senv (matched cenv c)) ds" "once us s ds"
    by (auto simp: wires_def)
  from p(2) pc view read obtain x y ds' z where ds: "ds = (i, x, y) # ds'"
      and v: "rd_data (incoming c) = be_put i @ rd_data rd"
      and z: "(rd_data rd @ d2) @ z = put_frame x @ put_frame y @ concat (List.map put_response ds')"
        "z \<noteq> [] \<longrightarrow> writer_failed (sw s)"
    by (rule next_response)
  obtain b where b: "matched cenv c i b" "answers senv b (i, x, y)"
    using p(5) by (auto simp: ds replied_def)
  then obtain q where q: "map_of (pending c) i = Some q" "wpc c \<noteq> WWrite q i" "stands_for cenv (reqs c q) b"
    by (auto simp: matched_def)
  have i: "i \<noteq> 0"
    using b(2) by (simp add: answers_def)
  let ?c = "receive_id c"
  have c: "?c = c\<lparr>incoming := rd, pending := filter (\<lambda>(j, _). j \<noteq> i) (pending c), reqCount := reqCount c - 1, rpc := RBody q\<rparr>"
    using read q(1) by (simp add: receive_id_def)
  have lookup: "map_of (pending ?c) j = (if j = i then None else map_of (pending c) j)" for j
    by (simp add: c map_of_filter_key)
  have mono: "matched cenv ?c j b'" if "matched cenv c j b'" "j \<noteq> i" for j b'
    using that lookup by (auto simp: matched_def c)
  note new = once_next [OF p(6) [unfolded ds] i]
  have "up_ok ?c s u us"
    using p(1) by (rule up_ok_client) (simp add: c writer_active_def)
  moreover have "down_ok cenv senv ?c s (rd_data rd @ d2) ds'"
    unfolding down_ok_def using z b(2) q(3)
    by (intro exI [of _ "put_frame x @ put_frame y"] exI [of _ z]) (auto simp: c body_for_def)
  moreover have "list_all (asked (matched cenv ?c)) us" 
    using p(3) new(2) mono by (fastforce simp: list_all_iff intro: asked_mono)
  moreover have "list_all (replied senv (matched cenv ?c)) ds'"
    using p(5) new(4) mono by (fastforce simp: ds list_all_iff intro: replied_mono)
  moreover have "carried senv (matched cenv ?c) s"
    using p(4) new(3) mono by (metis carried_mono)
  ultimately have "wires cenv senv ?c s u (rd_data rd @ d2)"
    using new(1) unfolding wires_def by blast
  moreover have "ready cenv ?c"
  proof -
    have "j \<noteq> i" if "wpc c = WWrite q' j" for q' j
      using r that q(1,2) i by (auto simp: ready_def split: if_splits)
    then have "map_of (pending ?c) j = map_of (pending c) j" if "wpc c = WWrite q' j" for q' j
      using that lookup by simp
    with r show ?thesis
      unfolding ready_def by (simp add: c)
  qed
  ultimately show ?thesis
    using drop_taken [OF v] by (simp add: c view)
qed

lemma stands_for_write:
  "stands_for cenv r b \<Longrightarrow> wr_room w = None \<Longrightarrow>
    cr_writeTo (env_codec cenv) r w = (None, r, w\<lparr>wr_out := wr_out w @ put_frame b\<rparr>)"
  by (simp add: cr_writeTo_def stands_for_def request_body_def put_frame_def Let_def)

text \<open>The exchange of a request alone, from what stands for it on the wire.\<close>

lemma stands_for_exchange:
  assumes "stands_for cenv r b" "answers senv b (i, x, y)"
    and "cr_readFrom lim (env_codec cenv) r (buffer_reader (put_frame x @ put_frame y)) = (res, r', rd)"
  shows "rpc_exchange lim (env_codec cenv) (se_codec senv) (se_methods senv) i r = Some (i, res, r')"
  using assms stands_for_write [OF assms(1)]
  by (simp add: rpc_exchange_def client_sends_def client_receives_def open_writer_def answers_def
      put_request_simp put_response_simp buffer_reader_def)

lemma wires_body:
  assumes w: "wires cenv senv c s u d" and r: "ready cenv c" and obj: "inv_objects c" and pc: "rpc c = RBody q"
    and view: "d = rd_data (incoming c) @ d2" and step: "receive_body cenv q c = Some c'" and on: "listens (rpc c')"
  shows "ready cenv c' \<and> outgoing c' = outgoing c \<and> wires cenv senv c' s u (rd_data (incoming c') @ d2)
    \<and> drop (taken (incoming c) (incoming c')) d = rd_data (incoming c') @ d2
    \<and> (\<exists>i. i \<noteq> 0 \<and> rpc_exchange (env_lim cenv) (env_codec cenv) (se_codec senv) (se_methods senv) i (reqs c q)
        = Some (i, Ok (), reqs c' q))"
proof -
  obtain v e where v: "incoming c = \<lparr>rd_data = v, rd_end = e\<rparr>"
    by (cases "incoming c") simp
  obtain res r1 rd where read: "cr_readFrom (env_lim cenv) (env_codec cenv) (reqs c q) \<lparr>rd_data = v, rd_end = e\<rparr> = (res, r1, rd)"
    by (cases "cr_readFrom (env_lim cenv) (env_codec cenv) (reqs c q) \<lparr>rd_data = v, rd_end = e\<rparr>")
  have ok: "c' = c\<lparr>reqs := (reqs c)(q := r1), incoming := rd, rpc := RIdle\<rparr> \<and> res = Ok ()"
    using step on read by (cases res) (auto simp: receive_body_def listens_def v)
  note c = ok [THEN conjunct1] and res = ok [THEN conjunct2]
  from w obtain us ds where p: "up_ok c s u us" "down_ok cenv senv c s d ds"
      "list_all (asked (matched cenv c)) us" "carried senv (matched cenv c) s"
      "list_all (replied senv (matched cenv c)) ds" "once us s ds"
    by (auto simp: wires_def)
  obtain pre z where z: "d @ z = pre @ concat (List.map put_response ds)" "z \<noteq> [] \<longrightarrow> writer_failed (sw s)"
      and "body_for cenv senv (reqs c q) pre"
    using p(2) pc by (auto simp: down_ok_def)
  then obtain i b x y where pre: "pre = put_frame x @ put_frame y" and b: "stands_for cenv (reqs c q) b" "answers senv b (i, x, y)"
    by (auto simp: body_for_def)
  have f: "frame_ok x" "frame_ok y" "i \<noteq> 0"
    using b(2) by (simp_all add: answers_def)
  have "v @ d2 @ z = put_frame x @ put_frame y @ concat (List.map put_response ds)"
    using z(1) pre view v by simp
  from cr_readFrom_front [OF read [unfolded res] f(1,2) this] obtain rd'
    where front: "v = put_frame x @ put_frame y @ rd_data rd"
      and alone: "cr_readFrom (env_lim cenv) (env_codec cenv) (reqs c q) (buffer_reader (put_frame x @ put_frame y)) = (Ok (), r1, rd')"
    by blast
  have other: "map_of (pending c) j \<noteq> Some q" for j
    using pending_once(2) [OF obj] pc by blast
  have mono: "matched cenv c' j b'" if "matched cenv c j b'" for j b'
    using that other [of j] by (intro matched_other [OF that]) (auto simp: c matched_def)
  have "up_ok c' s u us"
    using p(1) by (rule up_ok_client) (simp add: c writer_active_def)
  moreover have "down_ok cenv senv c' s (rd_data rd @ d2) ds"
    unfolding down_ok_def using z pre front by (intro exI [of _ "[]"] exI [of _ z]) (simp add: c view v)
  moreover have "list_all (asked (matched cenv c')) us" "list_all (replied senv (matched cenv c')) ds"
    using p(3,5) mono by (auto simp: list_all_iff intro: asked_mono replied_mono)
  moreover have "carried senv (matched cenv c') s"
    using p(4) mono by (rule carried_mono)
  ultimately have "wires cenv senv c' s u (rd_data rd @ d2)"
    using p(6) unfolding wires_def by blast
  moreover have "ready cenv c'"
  proof -
    have "q \<notin> set (queue c)"
      using obj pc by (auto simp: inv_objects_def in_flight_def)
    moreover have "q \<noteq> q'" if "wpc c = WWrite q' j" for q' j
      using r that obj pc other by (auto simp: ready_def inv_objects_def in_flight_def skips_def split: if_splits)
    ultimately show ?thesis
      using r by (cases "wpc c") (auto simp: ready_def c)
  qed
  moreover note stands_for_exchange [OF b alone]
  ultimately show ?thesis
    using drop_taken [of "incoming c" "put_frame x @ put_frame y" rd d2] front f(3) by (auto simp: c view v)
qed

end
