(* ===== verification/Link_Inv.thy ===== *)
theory Link_Inv
  imports Link_Client
begin

text \<open>
  Every step of the server keeps the invariant of the two ends, and so does every step of both:
  the machine of the two ends as an interpretation of \<open>machine_invariant\<close>, and what the invariant
  says of the client's reader.
\<close>

section \<open>The server's steps\<close>

lemma handled_response:
  assumes h: "handleRequest (se_codec senv) (se_methods senv) (request_read i b) = (Respond r', es)"
    and "asked P (i, b)" "frame_ok (err_bytes (sr_err r'))" "frame_ok (sr_output r')"
  shows "response_ok senv P r'"
proof -
  have id: "sr_id r' = i" "i \<noteq> 0" "sr_errLen r' = 0"
    using handleRequest_id [OF h] handleRequest_errLen [OF h] by (simp_all add: request_read_def newServerRequest_def)
  have b: "frame_ok b" "P i b"
    using assms(2) id(2) by (simp_all add: asked_def)
  have "sr_readFrom newServerRequest (buffer_reader (put_request (i, b))) = (None, request_read i b, \<lparr>rd_data = [], rd_end = EOF\<rparr>)"
    using sr_readFrom_ok [OF b(1), of newServerRequest i "[]" EOF]
    by (simp add: put_request_simp request_read_def newServerRequest_def buffer_reader_def)
  moreover obtain e r2 w where out: "sr_writeTo r' open_writer = (e, r2, w)"
    by (cases "sr_writeTo r' open_writer")
  moreover have "e = None"
    using sr_writeTo_open [of r'] out by auto
  moreover have "wr_out w = put_response (response_of r')"
    using sr_writeTo_wrote [OF out id(3) assms(3)] \<open>e = None\<close> by (simp add: wrote_none open_writer_def)
  ultimately have "server_answers (se_codec senv) (se_methods senv) (put_request (i, b)) = Some (put_response (response_of r'))"
    using h by (simp add: server_answers_def)
  with assms(3,4) b id show ?thesis
    by (auto simp: response_ok_def replied_def answers_def response_of_def)
qed

text \<open>A step of the server that writes nothing and reads nothing.\<close>

definition stame :: "'v sconn_env \<Rightarrow> (u64 \<Rightarrow> byte list \<Rightarrow> bool) \<Rightarrow> sconn_state \<Rightarrow> sconn_state \<Rightarrow> bool" where
  "stame senv P s s' \<longleftrightarrow> wr_out (soutgoing s') = wr_out (soutgoing s) \<and> sincoming s' = sincoming s
     \<and> (carried senv P s \<longrightarrow> carried senv P s') \<and> mset (open_ids s') \<subseteq># mset (open_ids s)
     \<and> (reads_on s' \<longrightarrow> reads_on s) \<and> (writer_failed (sw s) \<longrightarrow> writer_failed (sw s'))"

lemma stame_same:
  assumes "tasks s' = tasks s" "responses s' = responses s" "sw s' = sw s \<or> writer_failed (sw s')"
    and "reads_on s' \<Longrightarrow> reads_on s" "wr_out (soutgoing s') = wr_out (soutgoing s)" "sincoming s' = sincoming s"
  shows "stame senv P s s'"
  using assms by (cases "sw s'") (auto simp: stame_def carried_def open_ids_def)

lemma list_all_update: "list_all p xs \<Longrightarrow> p x \<Longrightarrow> list_all p (xs[i := x])"
  by (auto simp: list_all_iff dest!: set_update_subset_insert [THEN subsetD])

lemma list_all_at: "list_all p xs \<Longrightarrow> i < length xs \<Longrightarrow> p (xs ! i)"
  by (simp add: list_all_length)

lemma stame_task:
  assumes i: "i < length (tasks s)" and s': "tasks s' = (tasks s)[i := t]" "responses s' = responses s @ rs" "sw s' = sw s"
    and same: "sr s' = sr s" "soutgoing s' = soutgoing s" "sincoming s' = sincoming s"
    and ok: "task_ok senv P (tasks s ! i) \<Longrightarrow> task_ok senv P t \<and> list_all (response_ok senv P) rs"
    and ids: "mset (task_ids (tasks s ! i)) = mset (task_ids t) + mset (List.map sr_id rs)"
  shows "stame senv P s s'"
proof -
  have "carried senv P s'" if c: "carried senv P s"
    using c ok list_all_at [of "task_ok senv P" "tasks s" i] i s'
    by (auto simp: carried_def intro: list_all_update)
  moreover have "mset (open_ids s') = mset (open_ids s)"
    using mset_concat_update [OF i, of task_ids t] ids s' by (simp add: open_ids_def) 
  ultimately show ?thesis
    using same s'(3) by (simp add: stame_def reads_on_def)
qed

lemma stame_run:
  assumes i: "i < length (tasks s)" "tasks s ! i = TRun r"
    and fit: "\<forall>r'. TSend r' \<in> set (tasks (run_task senv i r s)) \<longrightarrow> frame_ok (err_bytes (sr_err r')) \<and> frame_ok (sr_output r')"
  shows "stame senv P s (run_task senv i r s)"
proof -
  obtain h es where h: "handleRequest (se_codec senv) (se_methods senv) r = (h, es)"
    by fastforce
  note ids = handleRequest_ids [OF h]
  show ?thesis
  proof (cases h)
    case (Respond r')
    then have run: "run_task senv i r s = s\<lparr>tasks := (tasks s)[i := TSend r'], told := told s @ es\<rparr>"
      by (simp add: run_task_def h)
    have "TSend r' \<in> set (tasks (run_task senv i r s))"
      using i(1) by (simp add: run set_update_memI)
    then have "frame_ok (err_bytes (sr_err r'))" "frame_ok (sr_output r')"
      using fit by blast+
    then have "response_ok senv P r'" if "request_ok P r"
      using that h Respond handled_response [of senv _ _ r' es P] by (auto simp: request_ok_def)
    with Respond ids show ?thesis
      by (intro stame_task [OF i(1), where t = "TSend r'" and rs = "[]"]) (simp_all add: run i(2) split: if_splits)
  next
    case (Recycle r')
    with ids show ?thesis
      by (intro stame_task [OF i(1), where t = TRelease and rs = "[]"]) (simp_all add: run_task_def h i(2) split: if_splits)
  next
    case (Crash p)
    then show ?thesis
      by (intro stame_same) (simp_all add: run_task_def h reads_on_def)
  qed
qed

lemma server_step_kinds:
  assumes step: "sstep senv s s'" and net: "sincoming s' = sincoming s \<or> sr s' \<noteq> sr s"
    and fit: "\<forall>r. TSend r \<in> set (tasks s') \<longrightarrow> frame_ok (err_bytes (sr_err r)) \<and> frame_ok (sr_output r)"
  shows "(sr s = SRReading \<and> s' = read_request s) \<or> (\<exists>r. sw s = SWWrite r \<and> s' = write_response r s) \<or> stame senv P s s'"
  using step
proof cases
  case (t_start i r)
  then show ?thesis
    using stame_task [of i s s' "TRun r" "[]" senv P] by simp
next
  case (t_run i r)
  then show ?thesis
    using stame_run [of i s r senv P] fit by simp
next
  case (t_send i r)
  then show ?thesis
    using stame_task [of i s s' TRelease "[r]" senv P] by simp
next
  case (t_release i)
  then show ?thesis
    using stame_task [of i s s' TDone "[]" senv P] by simp
next
  case (w_take r rs)
  then have "stame senv P s s'"
    by (auto simp: stame_def carried_def open_ids_def reads_on_def)
  then show ?thesis
    by simp
next
  case (n_network rd)
  then show ?thesis
    using net stame_same [of s' s senv P] by (simp add: reads_on_def)
qed (use stame_same [of s' s senv P] in \<open>simp_all add: reads_on_def\<close>)

lemma wires_stame:
  assumes "stame senv (matched cenv c) s s'" "wires cenv senv c s u d"
  shows "wires cenv senv c s' u d"
  using assms by (intro wires_server [OF assms(2)]) (auto simp: stame_def)

text \<open>The server reads: the request at the front of the pipe becomes a task.\<close>

lemma wires_read:
  assumes w: "wires cenv senv c s u d" and pc: "sr s = SRReading" and view: "u = rd_data (sincoming s) @ u2"
  shows "soutgoing (read_request s) = soutgoing s
    \<and> wires cenv senv c (read_request s) (drop (taken (sincoming s) (sincoming (read_request s))) u) d
    \<and> (reads_on (read_request s) \<longrightarrow>
        drop (taken (sincoming s) (sincoming (read_request s))) u = rd_data (sincoming (read_request s)) @ u2)"
proof -
  obtain v e where v: "sincoming s = \<lparr>rd_data = v, rd_end = e\<rparr>"
    by (cases "sincoming s") simp
  obtain x r rd where read: "sr_readFrom newServerRequest \<lparr>rd_data = v, rd_end = e\<rparr> = (x, r, rd)"
    by (cases "sr_readFrom newServerRequest \<lparr>rd_data = v, rd_end = e\<rparr>")
  let ?s = "read_request s"
  show ?thesis
  proof (cases x)
    case (Some y)
    then have s: "?s = s\<lparr>sincoming := rd, sr := SRDone (read_error (serverStop s) y)\<rparr>"
      using read v by (simp add: read_request_def)
    then show ?thesis
      using wires_server [OF w, of ?s] by (simp add: carried_def open_ids_def reads_on_def)
  next
    case None
    then have s: "?s = s\<lparr>sincoming := rd, sr := SRIdle, tasks := tasks s @ [TStart r], got := got s @ [sr_id r]\<rparr>"
      using read v by (simp add: read_request_def)
    from w obtain us ds where p: "up_ok c s u us" "down_ok cenv senv c s d ds"
        "list_all (asked (matched cenv c)) us" "carried senv (matched cenv c) s"
        "list_all (replied senv (matched cenv c)) ds" "once us s ds"
      by (auto simp: wires_def)
    from p(1) pc obtain rest where rest: "u = concat (List.map put_request us) @ rest" "stub rest"
        "rest \<noteq> [] \<longrightarrow> \<not> writer_active c"
      by (auto simp: up_ok_def reads_on_def)
    obtain i b us' where us: "us = (i, b) # us'"
    proof (cases us)
      case Nil
      obtain j b z where "frame_ok b" "put_request (j, b) = rest @ z" "z \<noteq> []"
        using rest(2) by (auto simp: stub_def)
      with sr_readFrom_stub [OF read [unfolded None], of b j "u2 @ z"] show thesis
        using Nil rest(1) view v by simp
    next
      case (Cons y us')
      with that show thesis
        by (cases y) blast
    qed
    have ask: "asked (matched cenv c) (i, b)"
      using p(3) us by simp
    then have f: "frame_ok b"
      by (simp add: asked_def)
    have "v @ u2 = put_request (i, b) @ concat (List.map put_request us') @ rest"
      using rest(1) view v us by simp
    from sr_readFrom_front [OF read [unfolded None] f this]
    have front: "r = request_read i b" "v = put_request (i, b) @ rd_data rd"
      by simp_all
    have left: "rd_data rd @ u2 = concat (List.map put_request us') @ rest"
      using rest(1) view v us front(2) by simp
    have "up_ok c ?s (rd_data rd @ u2) us'"
      using rest left by (auto simp: up_ok_def s reads_on_def)
    moreover have "down_ok cenv senv c ?s d ds"
      using p(2) by (simp add: down_ok_def s)
    moreover have "carried senv (matched cenv c) ?s"
      using p(4) ask front(1) by (auto simp: carried_def s request_ok_def)
    moreover have "once us' ?s ds"
      using p(6) us by (auto simp: once_def s open_ids_def front(1) request_read_def newServerRequest_def)
    ultimately have "wires cenv senv c ?s (rd_data rd @ u2) d"
      using p(3,5) us unfolding wires_def by auto
    moreover have "drop (taken (sincoming s) rd) u = rd_data rd @ u2"
      using drop_taken [of "sincoming s" "put_request (i, b)" rd u2] front(2) by (simp add: view v)
    ultimately show ?thesis
      by (simp add: s)
  qed
qed

text \<open>The server writes: the response is on the pipe, or the start of it and the writer has failed.\<close>

lemma wires_write_response:
  assumes w: "wires cenv senv c s u d" and pc: "sw s = SWWrite r"
  shows "sincoming (write_response r s) = sincoming s \<and> sr (write_response r s) = sr s
    \<and> wires cenv senv c (write_response r s) u (d @ added (soutgoing s) (soutgoing (write_response r s)))"
proof -
  obtain x r' w' where wr: "sr_writeTo r (soutgoing s) = (x, r', w')"
    by (cases "sr_writeTo r (soutgoing s)")
  let ?s = "write_response r s"
  have s: "soutgoing ?s = w'" "sincoming ?s = sincoming s" "sr ?s = sr s" "tasks ?s = tasks s" "responses ?s = responses s"
      and y: "writer_failed (sw ?s) \<longleftrightarrow> x \<noteq> None" "writer_ids (sw ?s) = []" "\<And>P. writes_ok senv P (sw ?s)"
    by (cases x; simp add: write_response_def wr)+
  from w obtain us ds where p: "up_ok c s u us" "down_ok cenv senv c s d ds"
      "list_all (asked (matched cenv c)) us" "carried senv (matched cenv c) s"
      "list_all (replied senv (matched cenv c)) ds" "once us s ds"
    by (auto simp: wires_def)
  have r: "sr_errLen r = 0" "replied senv (matched cenv c) (response_of r)"
    using p(4) pc by (simp_all add: carried_def response_ok_def)
  then have "frame_ok (err_bytes (sr_err r))"
    by (auto simp: replied_def answers_def response_of_def)
  from sr_writeTo_wrote [OF wr r(1) this] obtain a z where a: "put_response (response_of r) = a @ z"
      "wr_out w' = wr_out (soutgoing s) @ a" "x = None \<longleftrightarrow> z = []"
    by (auto simp: wrote_def)
  have add: "added (soutgoing s) (soutgoing ?s) = a"
    using a(2) by (simp add: s added_more)
  obtain pre where pre: "d = pre @ concat (List.map put_response ds)" "body_ok cenv senv c (rpc c) pre"
    using p(2) pc by (auto simp: down_ok_def)
  have "down_ok cenv senv c ?s (d @ a) (ds @ [response_of r])"
    unfolding down_ok_def using pre a y(1) by (intro exI [of _ pre] exI [of _ z]) (simp add: s)
  moreover have "up_ok c ?s u us"
    using p(1) by (simp add: up_ok_def reads_on_def s)
  moreover have "carried senv (matched cenv c) ?s"
    using p(4) y(3) by (simp add: carried_def s)
  moreover have "once us ?s (ds @ [response_of r])"
    using p(6) pc y(2) by (auto simp: once_def open_ids_def s response_of_def)
  ultimately have "wires cenv senv c ?s u (d @ a)"
    using p(3,5) r(2) unfolding wires_def
    by (intro exI [of _ us] exI [of _ "ds @ [response_of r]"]) simp
  then show ?thesis
    by (simp add: s(2,3) add)
qed

section \<open>Every step\<close>

lemma listens_before: "tame cenv c c' \<Longrightarrow> listens (rpc c') \<Longrightarrow> listens (rpc c)"
  by (simp add: tame_def)

lemma link_client:
  assumes inv: "link_inv cenv senv p" and step: "cstep cenv (lc p) c" and net: "incoming c = incoming (lc p) \<or> rpc c \<noteq> rpc (lc p)"
    and fit: "\<forall>q\<in>set (queue c). frame_ok (snd (request_body (env_codec cenv) (reqs c q)))"
  shows "link_inv cenv senv (p\<lparr>lc := c, up := up p @ added (outgoing (lc p)) (outgoing c),
      down := drop (taken (incoming (lc p)) (incoming c)) (down p)\<rparr>)"
proof -
  let ?u = "up p @ added (outgoing (lc p)) (outgoing c)" and ?d = "drop (taken (incoming (lc p)) (incoming c)) (down p)"
  have ok: "conn_ok cenv (lc p)" and obj: "inv_objects (lc p)"
    using inv by (simp_all add: link_inv_def conn_ok_def conn_inv_def)
  have "conn_ok cenv c"
    using client_conn.inv_step [OF ok step] .
  moreover have "ready cenv c \<and> wires cenv senv c (ls p) ?u ?d \<and> (\<exists>d. ?d = rd_data (incoming c) @ d)
      \<and> (reads_on (ls p) \<longrightarrow> (\<exists>u. ?u = rd_data (sincoming (ls p)) @ u))" if on: "listens (rpc c)"
  proof -
    have was: "ready cenv (lc p) \<and> wires cenv senv (lc p) (ls p) (up p) (down p)
        \<and> (\<exists>d. down p = rd_data (incoming (lc p)) @ d) \<and> (reads_on (ls p) \<longrightarrow> (\<exists>u. up p = rd_data (sincoming (ls p)) @ u))" if "listens (rpc (lc p))"
      using inv that by (simp add: link_inv_def delivered_def)
    from client_step_kinds [OF step ok net] consider (wr) q i where "wpc (lc p) = WWrite q i" "c = write_request cenv q i (lc p)"
      | (id) "rpc (lc p) = RReading" "c = receive_id (lc p)"
      | (body) q where "rpc (lc p) = RBody q" "receive_body cenv q (lc p) = Some c"
      | (tame) "tame cenv (lc p) c"
      by blast
    then show ?thesis
    proof cases
      case (wr q i)
      have "rpc c = rpc (lc p)"
        by (cases rule: write_request_cases [of cenv q i "lc p"]) (simp_all add: wr(2) release_def)
      with on was have w: "ready cenv (lc p)" "wires cenv senv (lc p) (ls p) (up p) (down p)"
          "\<exists>d. down p = rd_data (incoming (lc p)) @ d" "reads_on (ls p) \<longrightarrow> (\<exists>u. up p = rd_data (sincoming (ls p)) @ u)"
        by simp_all
      with wires_write [OF w(2,1) obj wr(1)] show ?thesis
        by (auto simp: wr(2) taken_def)
    next
      case id
      with was obtain d where w: "ready cenv (lc p)" "wires cenv senv (lc p) (ls p) (up p) (down p)"
          "down p = rd_data (incoming (lc p)) @ d" "reads_on (ls p) \<longrightarrow> (\<exists>u. up p = rd_data (sincoming (ls p)) @ u)"
        by (auto simp: listens_def)
      from wires_id [OF w(2,1) id(1) w(3)] on id(2) w(4) show ?thesis
        by (simp add: added_def)
    next
      case (body q)
      with was obtain d where w: "ready cenv (lc p)" "wires cenv senv (lc p) (ls p) (up p) (down p)"
          "down p = rd_data (incoming (lc p)) @ d" "reads_on (ls p) \<longrightarrow> (\<exists>u. up p = rd_data (sincoming (ls p)) @ u)"
        by (auto simp: listens_def)
      from wires_body [OF w(2,1) obj body(1) w(3) body(2) on] w(4) show ?thesis
        by (simp add: added_def)
    next
      case tame
      with was listens_before [OF tame on] have w: "ready cenv (lc p)" "wires cenv senv (lc p) (ls p) (up p) (down p)"
          "\<exists>d. down p = rd_data (incoming (lc p)) @ d" "reads_on (ls p) \<longrightarrow> (\<exists>u. up p = rd_data (sincoming (ls p)) @ u)"
        by simp_all
      have "queue_fits cenv c"
        using fit by (simp add: queue_fits_def)
      with tame on w wires_tame [OF tame on w(2)] show ?thesis
        by (simp add: tame_def added_def taken_def)
    qed
  qed
  ultimately show ?thesis
    by (simp add: link_inv_def delivered_def)
qed

lemma link_server:
  assumes inv: "link_inv cenv senv p" and step: "sstep senv (ls p) s" and net: "sincoming s = sincoming (ls p) \<or> sr s \<noteq> sr (ls p)"
    and fit: "\<forall>r. TSend r \<in> set (tasks s) \<longrightarrow> frame_ok (err_bytes (sr_err r)) \<and> frame_ok (sr_output r)"
  shows "link_inv cenv senv (p\<lparr>ls := s, down := down p @ added (soutgoing (ls p)) (soutgoing s),
      up := drop (taken (sincoming (ls p)) (sincoming s)) (up p)\<rparr>)"
proof -
  let ?d = "down p @ added (soutgoing (ls p)) (soutgoing s)" and ?u = "drop (taken (sincoming (ls p)) (sincoming s)) (up p)"
  have "wires cenv senv (lc p) s ?u ?d \<and> (reads_on s \<longrightarrow> (\<exists>u. ?u = rd_data (sincoming s) @ u))" if on: "listens (rpc (lc p))"
  proof -
    have view: "reads_on (ls p) \<longrightarrow> (\<exists>u. up p = rd_data (sincoming (ls p)) @ u)"
        and w: "wires cenv senv (lc p) (ls p) (up p) (down p)"
      using inv on by (simp_all add: link_inv_def delivered_def)
    from server_step_kinds [OF step net fit, of "matched cenv (lc p)"] consider
        (rd) "sr (ls p) = SRReading" "s = read_request (ls p)"
      | (wr) r where "sw (ls p) = SWWrite r" "s = write_response r (ls p)"
      | (tame) "stame senv (matched cenv (lc p)) (ls p) s"
      by blast
    then show ?thesis
    proof cases
      case rd
      with view obtain u where u: "up p = rd_data (sincoming (ls p)) @ u"
        by (auto simp: reads_on_def)
      from wires_read [OF w rd(1) u] show ?thesis
        by (auto simp: rd(2) added_def)
    next
      case (wr r)
      from wires_write_response [OF w wr(1)] view show ?thesis
        by (simp add: wr(2) taken_def reads_on_def)
    next
      case tame
      with wires_stame [OF tame w] view show ?thesis
        by (simp add: stame_def added_def taken_def)
    qed
  qed
  then show ?thesis
    using inv by (auto simp: link_inv_def delivered_def)
qed

lemma part_of: "\<exists>zs. xs = take k xs @ zs"
  by (rule exI [of _ "drop k xs"]) simp

lemma conn_ok_incoming: "conn_ok cenv c \<Longrightarrow> conn_ok cenv (c\<lparr>incoming := rd\<rparr>)"
  using client_conn.inv_step cstep.n_network by blast

lemma wires_incoming: "wires cenv senv (c\<lparr>incoming := rd\<rparr>) s u d = wires cenv senv c s u d"
proof -
  have "matched cenv (c\<lparr>incoming := rd\<rparr>) = matched cenv c"
    by (simp add: matched_def fun_eq_iff)
  moreover have "body_ok cenv senv (c\<lparr>incoming := rd\<rparr>) x = body_ok cenv senv c x" for x
    by (cases x) auto
  ultimately show ?thesis
    by (simp add: wires_def up_ok_def down_ok_def writer_active_def)
qed

lemma wires_sincoming: "wires cenv senv c (s\<lparr>sincoming := rd\<rparr>) u d = wires cenv senv c s u d"
  by (simp add: wires_def up_ok_def down_ok_def carried_def once_def open_ids_def reads_on_def)

lemma link_step:
  assumes inv: "link_inv cenv senv p" and step: "pstep cenv senv p p'"
  shows "link_inv cenv senv p'"
  using step
proof cases
  case (p_client c)
  with link_client [OF inv] show ?thesis
    by simp
next
  case (p_server s)
  with link_server [OF inv] show ?thesis
    by simp
next
  case (p_to_server k e)
  with inv part_of [of "up p" k] show ?thesis
    by (simp add: link_inv_def delivered_def wires_sincoming reads_on_def)
next
  case (p_to_client k e)
  with inv conn_ok_incoming [of cenv "lc p"] part_of [of "down p" k] show ?thesis
    by (simp add: link_inv_def delivered_def wires_incoming ready_def)
qed

lemma link_start:
  assumes "link_init cenv senv p"
  shows "link_inv cenv senv p"
proof -
  note init = assms [unfolded link_init_def conn_start_def conn_init_def sconn_init_def]
  have "conn_ok cenv (lc p)"
    using assms client_conn.inv_init by (auto simp: link_init_def)
  moreover have "wires cenv senv (lc p) (ls p) [] []"
    unfolding wires_def
    by (intro exI [of _ "[]"]) (use init in \<open>simp add: up_ok_def down_ok_def carried_def once_def open_ids_def\<close>)
  ultimately show ?thesis
    using init by (simp add: link_inv_def delivered_def ready_def)
qed

interpretation both_ends: machine_invariant "link_init cenv senv" "pstep cenv senv" "link_inv cenv senv"
  by unfold_locales (fact link_start, fact link_step)

text \<open>What the invariant says of the client's reader.\<close>

lemma both_ends_body:
  assumes "link_inv cenv senv p" "rpc (lc p) = RBody q" "receive_body cenv q (lc p) = Some c'" "listens (rpc c')"
  shows "\<exists>i. i \<noteq> 0 \<and> rpc_exchange (env_lim cenv) (env_codec cenv) (se_codec senv) (se_methods senv) i (reqs (lc p) q)
    = Some (i, Ok (), reqs c' q)"
proof -
  have "listens (rpc (lc p))"
    using assms(2) by (simp add: listens_def)
  with assms(1) obtain d where "wires cenv senv (lc p) (ls p) (up p) (down p)" "ready cenv (lc p)" "inv_objects (lc p)"
      "down p = rd_data (incoming (lc p)) @ d"
    by (auto simp: link_inv_def delivered_def conn_ok_def conn_inv_def)
  from wires_body [OF this(1-3) assms(2) this(4) assms(3,4)] show ?thesis
    by blast
qed

lemma both_ends_id:
  assumes "link_inv cenv senv p" "rpc (lc p) = RReading" "read_u64 (incoming (lc p)) = (Inr i, rd)"
  shows "\<exists>q. map_of (pending (lc p)) i = Some q"
proof -
  have "listens (rpc (lc p))"
    using assms(2) by (simp add: listens_def)
  with assms(1) obtain d where "wires cenv senv (lc p) (ls p) (up p) (down p)" "down p = rd_data (incoming (lc p)) @ d"
    by (auto simp: link_inv_def delivered_def)
  from next_response_pending [OF this(1) assms(2) this(2) assms(3)] show ?thesis .
qed

end
