(* ===== verification/Client_Conn_Live.thy ===== *)
theory Client_Conn_Live
  imports Client_Conn_Inv
begin

text \<open>
  That the client's connection comes to its end: once it is told to stop, both goroutines can
  finish from any reachable state, whatever they are doing, and the connection's goroutine can
  drain what is pending. Then the properties of the connection and a concrete run.
\<close>

section \<open>The two goroutines finish\<close>

text \<open>
  What the steps of the reader and of the writer leave alone, with a pending request \<open>q\<close> that
  waits for a reply.
\<close>

definition awaits :: "nat \<Rightarrow> 'v conn_state \<Rightarrow> bool" where
  "awaits q s \<longleftrightarrow> q \<in> snd ` set (pending s) \<and> \<not> cr_skip (reqs s q)"

definition keeps :: "nat \<Rightarrow> 'v conn_state \<Rightarrow> 'v conn_state \<Rightarrow> bool" where
  "keeps q s t \<longleftrightarrow> callers t = callers s \<and> hpc t = hpc s \<and> connStop t = connStop s \<and> clientStop t = clientStop s
     \<and> (awaits q s \<longrightarrow> awaits q t \<and> cr_reply (reqs t q) = cr_reply (reqs s q))"

lemma keeps_trans: "keeps q s t \<Longrightarrow> keeps q t u \<Longrightarrow> keeps q s u"
  by (auto simp: keeps_def)

lemma cr_writeTo_reply: "cr_writeTo cd r w = (e, r', w') \<Longrightarrow> cr_reply r' = cr_reply r"
  by (auto simp: cr_writeTo_def Let_def split: prod.splits option.splits)

lemma write_request_keeps:
  "wpc s = WWrite q' i \<Longrightarrow> keeps q s (write_request env q' i s) \<and> rpc (write_request env q' i s) = rpc s
    \<and> wpc (write_request env q' i s) \<in> insert WIdle (range WDone)"
  by (auto simp: write_request_def keeps_def awaits_def release_def Let_def
      dest: cr_writeTo_frame cr_writeTo_reply split: prod.splits option.splits)

lemma conn_ok_steps: "(cstep env)\<^sup>*\<^sup>* s t \<Longrightarrow> conn_ok env s \<Longrightarrow> conn_ok env t"
  by (rule client_conn.steps_inv)

lemma finish_writer:
  assumes ok: "conn_ok env s" and stop: "connStop s" and w: "wpc s \<noteq> WGone"
  shows "\<exists>t e. (cstep env)\<^sup>*\<^sup>* s t \<and> wpc t = WDone e \<and> rpc t = rpc s \<and> keeps q s t"
proof -
  have idle: "\<exists>t e. (cstep env)\<^sup>*\<^sup>* s t \<and> wpc t = WDone e \<and> rpc t = rpc s \<and> keeps q s t"
    if u: "wpc u = WIdle" "(cstep env)\<^sup>*\<^sup>* s u" "rpc u = rpc s" "keeps q s u" for u
  proof -
    from u stop have "cstep env u (u\<lparr>wpc := WDone ErrClientStopped\<rparr>)"
      by (intro cstep.w_stop) (simp_all add: keeps_def)
    moreover have "keeps q s (u\<lparr>wpc := WDone ErrClientStopped\<rparr>)"
      using u(4) by (simp add: keeps_def awaits_def)
    ultimately show ?thesis
      using u by (intro exI [of _ "u\<lparr>wpc := WDone ErrClientStopped\<rparr>"]) auto
  qed
  have refl: "keeps q s s"
    by (simp add: keeps_def)
  show ?thesis
  proof (cases "wpc s")
    case WIdle
    then show ?thesis
      using idle [of s] refl by simp
  next
    case (WWrite q' i)
    let ?u = "write_request env q' i s"
    have "cstep env s ?u"
      using WWrite by (rule cstep.w_write)
    then have step: "(cstep env)\<^sup>*\<^sup>* s ?u"
      by blast
    with write_request_keeps [OF WWrite, of q env] idle [of ?u] show ?thesis
      by auto
  qed (use ok w refl in \<open>auto simp: conn_ok_def conn_inv_def inv_table_def\<close>)
qed

lemma finish_reader:
  assumes ok: "conn_ok env s" and stop: "connStop s" and r: "rpc s \<noteq> RGone"
  shows "\<exists>t e. (cstep env)\<^sup>*\<^sup>* s t \<and> rpc t = RDone e \<and> wpc t = wpc s \<and> keeps q s t"
proof -
  have idle: "\<exists>t e. (cstep env)\<^sup>*\<^sup>* s t \<and> rpc t = RDone e \<and> wpc t = wpc s \<and> keeps q s t"
    if u: "rpc u = RIdle" "(cstep env)\<^sup>*\<^sup>* s u" "wpc u = wpc s" "keeps q s u" for u
  proof -
    from u stop have "cstep env u (u\<lparr>rpc := RDone ErrClientStopped\<rparr>)"
      using cstep.r_check [OF u(1), of env] by (simp add: keeps_def)
    moreover have "keeps q s (u\<lparr>rpc := RDone ErrClientStopped\<rparr>)"
      using u(4) by (simp add: keeps_def awaits_def)
    ultimately show ?thesis
      using u by (intro exI [of _ "u\<lparr>rpc := RDone ErrClientStopped\<rparr>"]) auto
  qed
  have refl: "keeps q s s"
    by (simp add: keeps_def)
  show ?thesis
  proof (cases "rpc s")
    case RIdle
    then show ?thesis
      using idle [of s] refl by simp
  next
    case RReading
    let ?u = "s\<lparr>incoming := \<lparr>rd_data = [], rd_end = EOF\<rparr>\<rparr>"
    let ?v = "?u\<lparr>rpc := RDone EOF\<rparr>"
    have "receive_id ?u = ?v"
      by (simp add: receive_id_def read_u64_def read_full_def)
    moreover have "cstep env s ?u" "cstep env ?u (receive_id ?u)"
      using RReading by (auto intro: cstep.n_network cstep.r_id)
    ultimately have "(cstep env)\<^sup>*\<^sup>* s ?v"
      by (metis converse_rtranclp_into_rtranclp r_into_rtranclp)
    moreover have "keeps q s ?v"
      by (simp add: keeps_def awaits_def)
    ultimately show ?thesis
      by (intro exI [of _ ?v]) auto
  next
    case (RBody q')
    then have q': "cr_done (reqs s q') = DoneEmpty" "awaits q s \<Longrightarrow> q \<noteq> q'"
      using ok by (auto simp: conn_ok_def conn_inv_def inv_objects_def in_flight_def awaits_def)
    obtain res r rd where rf: "cr_readFrom (env_lim env) (env_codec env) (reqs s q') (incoming s) = (res, r, rd)"
      by (cases "cr_readFrom (env_lim env) (env_codec env) (reqs s q') (incoming s)")
    then have f: "res \<noteq> Blocked"
      using q'(1) by (auto dest: cr_readFrom_frame)
    let ?u = "s\<lparr>reqs := (reqs s)(q' := r), incoming := rd, rpc := after_body res\<rparr>"
    have "receive_body env q' s = Some ?u"
      using rf f by (simp add: receive_body_def)
    then have step: "(cstep env)\<^sup>*\<^sup>* s ?u"
      using RBody by (blast intro: cstep.r_body)
    have "keeps q s ?u"
      using q'(2) by (auto simp: keeps_def awaits_def)
    moreover have "after_body res = RIdle \<or> (\<exists>e. after_body res = RDone e)"
      using f by (cases res) simp_all
    ultimately show ?thesis
      using idle [OF _ step] step by auto
  next
    case (RDone e)
    then show ?thesis
      using refl by blast
  qed (use r in simp)
qed

section \<open>The end of the connection\<close>

text \<open>One goroutine is left, or both are: each has its turn, and the drain follows.\<close>

abbreviation goes :: "'v conn_env \<Rightarrow> nat \<Rightarrow> 'v conn_state \<Rightarrow> handler_pc \<Rightarrow> bool" where
  "goes env q s h \<equiv> \<exists>t. (cstep env)\<^sup>*\<^sup>* s t \<and> hpc t = h \<and> callers t = callers s
     \<and> (awaits q s \<longrightarrow> awaits q t \<and> cr_reply (reqs t q) = cr_reply (reqs s q))"

lemma last_writer:
  assumes ok: "conn_ok env s" and h: "hpc s = HWaitWriter e"
  shows "goes env q s (HDrain e)"
proof -
  have "connStop s" "wpc s \<noteq> WGone"
    using ok h by (simp_all add: conn_ok_def conn_inv_def inv_phase_def)
  then obtain t e' where t: "(cstep env)\<^sup>*\<^sup>* s t" "wpc t = WDone e'" "keeps q s t"
    using finish_writer [OF ok, of q] by auto
  then have "cstep env t (t\<lparr>wpc := WGone, hpc := HDrain e\<rparr>)"
    using h by (intro cstep.h_last_writer) (simp_all add: keeps_def)
  with t show ?thesis
    by (intro exI [of _ "t\<lparr>wpc := WGone, hpc := HDrain e\<rparr>"]) (auto simp: keeps_def awaits_def)
qed


lemma goes_on:
  assumes "(cstep env)\<^sup>*\<^sup>* s t" and "callers t = callers s"
    and "awaits q s \<Longrightarrow> awaits q t \<and> cr_reply (reqs t q) = cr_reply (reqs s q)"
    and "goes env q t h"
  shows "goes env q s h"
  using assms by (metis (no_types, lifting) rtranclp_trans)

lemma both_last:
  assumes ok: "conn_ok env s" and h: "hpc s = HWaitBoth"
  shows "goes env q s (HDrain None)"
proof -
  have "connStop s" "rpc s \<noteq> RGone"
    using ok h by (simp_all add: conn_ok_def conn_inv_def inv_phase_def)
  then obtain t e' where t: "(cstep env)\<^sup>*\<^sup>* s t" "rpc t = RDone e'" "keeps q s t"
    using finish_reader [OF ok, of q] by auto
  let ?u = "t\<lparr>rpc := RGone, hpc := HWaitWriter None\<rparr>"
  have step: "cstep env t ?u"
    using t h by (intro cstep.h_both) (simp_all add: keeps_def)
  have u: "(cstep env)\<^sup>*\<^sup>* s ?u"
    using t(1) step by (rule rtranclp.rtrancl_into_rtrancl)
  then have "goes env q ?u (HDrain None)"
    using ok by (intro last_writer conn_ok_steps [OF u]) simp_all
  with u t(3) show ?thesis
    by (intro goes_on [of env s ?u q]) (auto simp: keeps_def awaits_def)
qed

text \<open>After the stop signal: the reader, the writer, then the drain.\<close>

lemma stop_reaches_drain:
  assumes ok: "conn_ok env s" and h: "hpc s = HWait" "clientStop s"
  shows "goes env q s (HDrain None)"
proof -
  let ?u = "s\<lparr>connStop := True, hpc := HWaitBoth\<rparr>"
  have step: "cstep env s ?u"
    using h by (rule cstep.h_stop)
  then have "goes env q ?u (HDrain None)"
    using ok by (intro both_last client_conn.inv_step [OF ok step]) simp_all
  then show ?thesis
    using step by (intro goes_on [of env s ?u q]) (auto simp: awaits_def)
qed



text \<open>A call that is pending when the client stops can return \<^verbatim>\<open>nil\<close> with its reply targets untouched.\<close>

lemma stop_returns_nil:
  assumes ok: "conn_ok env s" and h: "hpc s = HWait" "clientStop s"
    and q: "q \<in> snd ` set (pending s)" "callers s q = CWait"
  shows "\<exists>t. (cstep env)\<^sup>*\<^sup>* s t \<and> callers t q = CReturned None \<and> cr_reply (reqs t q) = cr_reply (reqs s q)"
proof -
  have "awaits q s"
    using ok q by (auto simp: awaits_def conn_ok_def conn_inv_def inv_waiting_def)
  with stop_reaches_drain [OF ok h, of q] q obtain t where t: "(cstep env)\<^sup>*\<^sup>* s t" "hpc t = HDrain None"
      "callers t q = CWait" "awaits q t" "cr_reply (reqs t q) = cr_reply (reqs s q)"
    by auto
  then have "conn_inv env t"
    using conn_ok_steps [OF t(1) ok] by (simp add: conn_ok_def)
  with t drained_returns [of env t None q] show ?thesis
    by (metis awaits_def rtranclp_trans)
qed

section \<open>The id of a request\<close>

lemma store_request_id:
  assumes "length (pending s) < 2 ^ 64"
  shows "\<exists>i. map_of (pending s) i = None
    \<and> store_request env q s = s\<lparr>nextId := i, pending := (i, q) # pending s, reqCount := reqCount s + 1,
      wpc := (if env_max env < length (pending s)
              then WDone (overflow_error (env_addr env) (length (pending s))) else WWrite q i)\<rparr>
    \<and> (unat (nextId s) + length (pending s) + 1 < 2 ^ 64 \<longrightarrow> i \<noteq> 0)"
proof -
  let ?start = "if nextId s = 0 then 1 else nextId s"
  obtain k where k: "next_free (pending s) ?start = Some (?start + word_of_nat k)"
      and free: "map_of (pending s) (?start + word_of_nat k) = None"
    using assms by (rule next_free_spec)
  have "?start + word_of_nat k \<noteq> 0" if "unat (nextId s) + length (pending s) + 1 < 2 ^ 64"
  proof -
    have "unat ?start + length (pending s) < 2 ^ 64"
      using that by (simp split: if_splits)
    then have "unat ?start \<le> unat (?start + word_of_nat k)"
      using next_free_no_wrap [OF k] by blast
    moreover have "0 < unat ?start"
      by (simp add: unat_gt_0)
    ultimately show ?thesis
      by (metis leD unat_0)
  qed
  with k free show ?thesis
    by (intro exI [of _ "?start + word_of_nat k"]) (simp add: store_request_def Let_def)
qed

section \<open>A run\<close>

text \<open>A call is queued, taken by the writer, and the client is told to stop.\<close>

definition env0 :: "byte list conn_env" where
  "env0 = \<lparr>env_lim = 100, env_codec = id_codec, env_max = 2, env_addr = ''host''\<rparr>"

definition conn0 :: "byte list conn_state" where
  "conn0 = \<lparr>reqs = (\<lambda>_. newClientRequest), queue = [], pending = [], nextId = 0, reqCount = 0,
     pool = [], wpc = WIdle, rpc = RIdle, hpc = HWait, callers = (\<lambda>_. CNone),
     incoming = buffer_reader [], outgoing = \<lparr>wr_out = [], wr_room = None, wr_err = EOF\<rparr>,
     connStop = False, clientStop = False\<rparr>"

definition conn_called :: "byte list conn_state" where
  "conn_called = conn0\<lparr>queue := [5], callers := (callers conn0)(5 := CWait)\<rparr>"

definition conn_pending :: "byte list conn_state" where
  "conn_pending = conn_called\<lparr>queue := [], pending := [(1, 5)], nextId := 1, reqCount := 1, wpc := WWrite 5 1\<rparr>"

definition conn_stopping :: "byte list conn_state" where
  "conn_stopping = conn_pending\<lparr>clientStop := True\<rparr>"

lemma conn0_reaches: "reaches (conn_start env0) (cstep env0) conn0"
  by (rule reaches_init) (simp add: conn_start_def conn_init_def conn0_def env0_def)

lemma conn_pending_reaches: "reaches (conn_start env0) (cstep env0) conn_pending"
proof (rule reaches_step [OF reaches_step [OF conn0_reaches]])
  have "cstep env0 conn0 (conn0\<lparr>reqs := (reqs conn0)(5 := newClientRequest), queue := queue conn0 @ [5],
      pool := removeAll 5 (pool conn0), callers := (callers conn0)(5 := CWait)\<rparr>)"
    by (rule cstep.c_call)
      (simp_all add: conn0_def env0_def in_use_def in_flight_def fresh_request_def newClientRequest_def)
  then show "cstep env0 conn0 conn_called"
    by (simp add: conn_called_def conn0_def fun_upd_idem)
  have "take_request env0 5 (conn_called\<lparr>queue := []\<rparr>) = conn_pending"
    by (subst take_request_def, simp add: store_request_def conn_called_def conn_pending_def conn0_def
        env0_def newClientRequest_def Let_def) (subst next_free.simps, simp)
  then show "cstep env0 conn_called conn_pending"
    using cstep.w_take [of conn_called 5 "[]" env0] by (simp add: conn_called_def conn0_def)
qed

lemma conn_stopping_reaches: "reaches (conn_start env0) (cstep env0) conn_stopping"
  unfolding conn_stopping_def by (rule reaches_step [OF conn_pending_reaches cstep.n_stop])

section \<open>Properties of the connection\<close>



text \<open>C19: The ids of the pending requests are distinct, the client's counter is their number and
  they are at most two more than the configured maximum: beyond it the writer ends the
  connection instead of storing more.\<close>

theorem client_conn_table:
  assumes "reaches (conn_start env) (cstep env) s"
  shows "distinct (List.map fst (pending s)) \<and> reqCount s = word_of_nat (length (pending s))
    \<and> length (pending s) \<le> env_max env + 2
    \<and> (env_max env + 1 < length (pending s) \<longrightarrow> \<not> writer_active s)"
  using reachable_inv [OF assms] by (auto simp: conn_inv_def inv_table_def split: if_splits)

lemma client_conn_table_witness:
  "distinct (List.map fst (pending conn_pending)) \<and> reqCount conn_pending = word_of_nat (length (pending conn_pending))
    \<and> length (pending conn_pending) \<le> env_max env0 + 2"
  using client_conn_table [OF conn_pending_reaches] by blast

text \<open>C8: No wake-up is lost: in every reachable state a caller that waits has its request in the
  queue, in the table or with the reader, or its channel is ready; once the connection is done,
  only the queue is left, from which the next connection takes it.\<close>

theorem client_conn_waiting:
  assumes "reaches (conn_start env) (cstep env) s" "callers s q = CWait"
  shows "(on_the_way s q \<or> done_ready (cr_done (reqs s q)))
    \<and> (\<forall>e. hpc s = HDone e \<longrightarrow> q \<in> set (queue s) \<or> done_ready (cr_done (reqs s q)))"
  using reachable_inv [OF assms(1)] assms(2) done_or_queued [of env s]
  by (auto simp: conn_inv_def inv_waiting_def)

lemma client_conn_waiting_witness:
  "on_the_way conn_pending 5"
  using client_conn_waiting [OF conn_pending_reaches, of 5]
  by (simp add: conn_pending_def conn_called_def conn0_def on_the_way_def)



text \<open>C34: A call that is pending when the client is stopped can return \<^verbatim>\<open>nil\<close> although nothing was
  ever written to its reply targets: the error the drain hands out is the one of the first
  \<^verbatim>\<open>select\<close>, which the stop branch does not set.\<close>

theorem client_conn_stop_returns_nil:
  assumes "reaches (conn_start env) (cstep env) s" "hpc s = HWait" "clientStop s"
    and "q \<in> snd ` set (pending s)" "callers s q = CWait"
  shows "\<exists>t. (cstep env)\<^sup>*\<^sup>* s t \<and> callers t q = CReturned None \<and> cr_reply (reqs t q) = cr_reply (reqs s q)"
  using stop_returns_nil [OF client_conn.reaches_inv [OF assms(1)] assms(2-)] .

lemma client_conn_stop_returns_nil_witness:
  "\<exists>t. (cstep env0)\<^sup>*\<^sup>* conn_stopping t \<and> callers t 5 = CReturned None
    \<and> cr_reply (reqs t 5) = cr_reply (reqs conn_stopping 5)"
  by (rule client_conn_stop_returns_nil [OF conn_stopping_reaches])
    (simp_all add: conn_stopping_def conn_pending_def conn_called_def conn0_def)

text \<open>C36: The search for an id ends, at an id no pending request has, and the request is stored
  under it; where the numbers do not wrap around the id is not the 0 of a request without
  reply. The request is written unless more requests than the maximum were pending before it.\<close>

theorem store_request_fresh:
  assumes "length (pending s) < 2 ^ 64"
  shows "\<exists>i. map_of (pending s) i = None
    \<and> store_request env q s = s\<lparr>nextId := i, pending := (i, q) # pending s, reqCount := reqCount s + 1,
      wpc := (if env_max env < length (pending s)
              then WDone (overflow_error (env_addr env) (length (pending s))) else WWrite q i)\<rparr>
    \<and> (unat (nextId s) + length (pending s) + 1 < 2 ^ 64 \<longrightarrow> i \<noteq> 0)"
  using assms by (rule store_request_id)

lemma store_request_fresh_witness:
  "\<exists>i. map_of (pending conn_pending) i = None \<and> i \<noteq> 0
    \<and> pending (store_request env0 6 conn_pending) = (i, 6) # pending conn_pending
    \<and> wpc (store_request env0 6 conn_pending) = WWrite 6 i"
proof -
  have small: "length (pending conn_pending) < 2 ^ 64" "length (pending conn_pending) \<le> env_max env0"
      "unat (nextId conn_pending) + length (pending conn_pending) + 1 < 2 ^ 64"
    by (simp_all add: conn_pending_def env0_def)
  from store_request_fresh [OF small(1), of env0 6] small(2,3) show ?thesis
    by auto
qed

text \<open>An argument that cannot be encoded ends the connection, with every other call pending on
  it: the writer has put the id on the wire and none of the frame that belongs to it.\<close>

lemma unencodable_argument_breaks_connection:
  assumes "cr_encode_args (env_codec env) (cr_args (reqs s q))
      (cr_wBuf (reqs s q) @ be_put (cr_nameLen (reqs s q)) @ cr_name (reqs s q)) = (Some e, wb)"
    and "wr_room (outgoing s) = None"
  shows "outgoing (write_request env q i s) = (outgoing s)\<lparr>wr_out := wr_out (outgoing s) @ be_put i\<rparr>
    \<and> wpc (write_request env q i s) = WDone e \<and> pending (write_request env q i s) = pending s"
  using assms(2) cr_writeTo_encode_error [OF assms(1) refl] by (simp add: write_request_def)

definition env_refusing :: "byte list conn_env" where
  "env_refusing = env0\<lparr>env_codec := id_codec\<lparr>Encode := (\<lambda>_. Inl EOF)\<rparr>\<rparr>"

lemma unencodable_argument_breaks_connection_witness:
  "wpc (write_request env_refusing 5 1 (conn0\<lparr>reqs := (\<lambda>_. Args [[7]] newClientRequest)\<rparr>)) = WDone EOF"
  using unencodable_argument_breaks_connection [of env_refusing "conn0\<lparr>reqs := (\<lambda>_. Args [[7]] newClientRequest)\<rparr>" 5 EOF _ 1]
  by (simp add: env_refusing_def env0_def conn0_def Args_def newClientRequest_def)

end
