(* ===== verification/Server_Conn_Inv.thy ===== *)
theory Server_Conn_Inv
  imports Server_Conn
begin

text \<open>
  Every step of the server's connection keeps \<open>sconn_inv\<close>; the machine as an interpretation of
  \<open>machine_invariant\<close>; what follows for slots, answers, the end of a connection and the handlers
  it leaves behind.
\<close>

section \<open>Worker slots\<close>

lemma inv_slots_task:
  assumes "inv_slots env s" "i < length (tasks s)"
    and "tasks t = (tasks s)[i := x]" "others t = others s"
    and "workers t + (if holds_slot (tasks s ! i) then 1 else 0) = workers s + (if holds_slot x then 1 else 0)"
    and "workers t \<le> se_concurrency env" "length (responses t) \<le> se_pendingResponses env"
  shows "inv_slots env t"
  using assms length_filter_update [OF assms(2), of holds_slot x] by (simp add: inv_slots_def)

lemma inv_slots_cong:
  "inv_slots env s \<Longrightarrow> tasks t = tasks s \<Longrightarrow> workers t = workers s \<Longrightarrow> others t = others s \<Longrightarrow>
    length (responses t) \<le> length (responses s) \<Longrightarrow> inv_slots env t"
  by (simp add: inv_slots_def)

lemma run_task_cases:
  obtains (respond) r' es where "run_task env i r s = s\<lparr>tasks := (tasks s)[i := TSend r'], told := told s @ es\<rparr>"
    and "filter (\<lambda>i. i \<noteq> 0) [sr_id r] = [sr_id r']"
  | (recycle) es where "run_task env i r s = s\<lparr>tasks := (tasks s)[i := TRelease], told := told s @ es\<rparr>"
    and "filter (\<lambda>i. i \<noteq> 0) [sr_id r] = []"
  | (crash) "run_task env i r s = s\<lparr>crashed := True\<rparr>"
proof (cases "handleRequest (se_codec env) (se_methods env) r")
  case (Pair h es)
  note ids = handleRequest_ids [OF Pair]
  show ?thesis
    by (cases h) (use Pair ids in \<open>simp_all add: run_task_def respond recycle crash\<close>)
qed

lemma inv_slots_step:
  assumes inv: "inv_slots env s" and step: "sstep env s t"
  shows "inv_slots env t"
  using step
proof cases
  case (t_start i r)
  with inv show ?thesis
    by (intro inv_slots_task [OF inv, of i t "TRun r"]) (simp_all add: inv_slots_def)
next
  case (t_run i r)
  show ?thesis
  proof (cases rule: run_task_cases [of env i r s])
    case (respond r' es)
    with t_run inv show ?thesis
      by (intro inv_slots_task [OF inv, of i t "TSend r'"]) (simp_all add: inv_slots_def)
  next
    case (recycle es)
    with t_run inv show ?thesis
      by (intro inv_slots_task [OF inv, of i t TRelease]) (simp_all add: inv_slots_def)
  next
    case crash
    with t_run inv show ?thesis
      by (simp add: inv_slots_def)
  qed
next
  case (t_send i r)
  with inv show ?thesis
    by (intro inv_slots_task [OF inv, of i t TRelease]) (simp_all add: inv_slots_def)
next
  case (t_release i)
  with inv show ?thesis
    by (intro inv_slots_task [OF inv, of i t TDone]) (auto simp: inv_slots_def)
qed (use inv in \<open>auto simp: inv_slots_def read_request_def write_response_def split: prod.splits option.splits\<close>)

text \<open>A task past its start has a slot to give back, so the release never blocks.\<close>

lemma slot_held: "inv_slots env s \<Longrightarrow> i < length (tasks s) \<Longrightarrow> holds_slot (tasks s ! i) \<Longrightarrow> 0 < workers s"
proof -
  assume "inv_slots env s" "i < length (tasks s)" "holds_slot (tasks s ! i)"
  then have "tasks s ! i \<in> set (filter holds_slot (tasks s))"
    by simp
  then have "0 < length (filter holds_slot (tasks s))"
    by (rule length_pos_if_in_set)
  with \<open>inv_slots env s\<close> show ?thesis
    by (simp add: inv_slots_def)
qed

section \<open>Every request is answered at most once\<close>

lemma inv_ids_task:
  assumes "inv_ids s" "i < length (tasks s)" "tasks t = (tasks s)[i := x]" "got t = got s" "sent t = sent s" "sw t = sw s"
    and "mset (task_ids x) + mset (List.map sr_id (responses t))
      = mset (task_ids (tasks s ! i)) + mset (List.map sr_id (responses s))"
  shows "inv_ids t"
proof -
  have "mset (open_ids t) + mset (task_ids (tasks s ! i)) = mset (concat (List.map task_ids (tasks s)))
      + (mset (task_ids x) + mset (List.map sr_id (responses t))) + mset (writer_ids (sw s))"
    using mset_concat_update [OF assms(2), of task_ids x] assms(3,6) by (simp add: open_ids_def ac_simps)
  also have "\<dots> = mset (open_ids s) + mset (task_ids (tasks s ! i))"
    unfolding assms(7) by (simp add: open_ids_def ac_simps)
  finally show ?thesis
    using assms(1,4-6) by (simp add: inv_ids_def)
qed

lemma inv_ids_same:
  "inv_ids s \<Longrightarrow> tasks t = tasks s \<Longrightarrow> responses t = responses s \<Longrightarrow> got t = got s \<Longrightarrow> sent t = sent s
    \<Longrightarrow> writer_ids (sw t) = writer_ids (sw s) \<Longrightarrow> (writer_failed (sw s) \<Longrightarrow> writer_failed (sw t)) \<Longrightarrow> inv_ids t"
  by (auto simp: inv_ids_def open_ids_def split: if_splits)

lemma inv_ids_read: "inv_ids s \<Longrightarrow> inv_ids (read_request s)"
  by (auto simp: inv_ids_def open_ids_def read_request_def ac_simps split: prod.splits option.splits)

lemma inv_ids_take:
  "inv_ids s \<Longrightarrow> sw s = SWIdle \<Longrightarrow> responses s = r # rs \<Longrightarrow> inv_ids (s\<lparr>sw := SWWrite r, responses := rs\<rparr>)"
  by (auto simp: inv_ids_def open_ids_def ac_simps)

lemma inv_ids_write: 
  assumes "inv_ids s" "sw s = SWWrite r"
  shows "inv_ids (write_response r s)"
proof -
  obtain e r' w where w: "sr_writeTo r (soutgoing s) = (e, r', w)"
    by (cases "sr_writeTo r (soutgoing s)")
  have eq: "mset (filter (\<lambda>i. i \<noteq> 0) (got s)) = mset (open_ids s) + mset (sent s)"
    using assms by (simp add: inv_ids_def)
  show ?thesis
  proof (cases e)
    case None
    with w eq assms(2) show ?thesis
      by (auto simp: inv_ids_def open_ids_def write_response_def)
  next
    case (Some x)
    with w eq assms(2) show ?thesis
      by (auto simp: inv_ids_def open_ids_def write_response_def intro!: exI [of _ "{#sr_id r#}"])
  qed
qed

lemma inv_ids_step:
  assumes inv: "inv_ids s" and step: "sstep env s t"
  shows "inv_ids t"
  using step
proof cases
  case (t_start i r)
  with inv show ?thesis
    by (intro inv_ids_task [OF inv, of i t "TRun r"]) simp_all
next
  case (t_run i r)
  show ?thesis
  proof (cases rule: run_task_cases [of env i r s])
    case (respond r' es)
    with t_run inv show ?thesis
      by (intro inv_ids_task [OF inv, of i t "TSend r'"]) simp_all
  next
    case (recycle es)
    with t_run inv show ?thesis
      by (intro inv_ids_task [OF inv, of i t TRelease]) simp_all
  next
    case crash
    with t_run inv show ?thesis
      by (intro inv_ids_same [OF inv]) simp_all
  qed
next
  case (t_send i r)
  with inv show ?thesis
    by (intro inv_ids_task [OF inv, of i t TRelease]) simp_all
next
  case (t_release i)
  with inv show ?thesis
    by (intro inv_ids_task [OF inv, of i t TDone]) simp_all
next
  case r_read
  with inv show ?thesis by (simp add: inv_ids_read)
next
  case (w_take r rs)
  with inv show ?thesis by (simp add: inv_ids_take)
next
  case (w_write r)
  with inv show ?thesis by (simp add: inv_ids_write)
qed (use inv in \<open>auto elim!: inv_ids_same\<close>)

section \<open>Phases\<close>

lemma run_task_phase: "inv_sphase s \<Longrightarrow> inv_sphase (run_task env i r s)"
  by (cases rule: run_task_cases [of env i r s]) (simp_all add: inv_sphase_def)

lemma read_request_phase: "inv_sphase s \<Longrightarrow> sr s = SRReading \<Longrightarrow> inv_sphase (read_request s)"
  by (auto simp: inv_sphase_def read_request_def split: prod.splits option.splits)

lemma write_response_phase: "inv_sphase s \<Longrightarrow> sw s = SWWrite r \<Longrightarrow> inv_sphase (write_response r s)"
  by (auto simp: inv_sphase_def write_response_def split: prod.splits option.splits)

lemma inv_sphase_step:
  assumes inv: "inv_sphase s" and step: "sstep env s t"
  shows "inv_sphase t"
  using step
  by cases (use inv in \<open>auto simp: run_task_phase read_request_phase write_response_phase, auto simp: inv_sphase_def\<close>)

section \<open>The reachable states\<close>

lemma sconn_init_inv: "sconn_init env s \<Longrightarrow> sconn_inv env s"
  by (simp add: sconn_init_def sconn_inv_def inv_slots_def inv_ids_def open_ids_def inv_sphase_def)

lemma sconn_step_inv: "sconn_inv env s \<Longrightarrow> sstep env s t \<Longrightarrow> sconn_inv env t"
  using inv_slots_step inv_ids_step inv_sphase_step by (fastforce simp: sconn_inv_def)

interpretation server_conn: machine_invariant "sconn_init env" "sstep env" "sconn_inv env"
  by unfold_locales (fact sconn_init_inv, fact sconn_step_inv)

end
