(* ===== verification/Server_Conn_Live.thy ===== *)
theory Server_Conn_Live
  imports Server_Conn_Inv
begin

text \<open>
  The end of a connection of the server: after the stop signal its reader and its writer can
  finish from any reachable state, and what that means for the handlers of its requests. Then
  the properties of the connection and a concrete run.
\<close>

section \<open>Steps of its own\<close>

text \<open>The steps that are neither another connection's nor the server's stop.\<close>

definition own :: "'v sconn_env \<Rightarrow> sconn_state \<Rightarrow> sconn_state \<Rightarrow> bool" where
  "own env s t \<longleftrightarrow> sstep env s t \<and> others t = others s \<and> serverStop t = serverStop s"

lemma own_frame [simp]:
  "others (read_request s) = others s" "serverStop (read_request s) = serverStop s"
  "others (write_response r s) = others s" "serverStop (write_response r s) = serverStop s"
  "others (run_task env i q s) = others s" "serverStop (run_task env i q s) = serverStop s"
  by (simp_all add: read_request_def write_response_def run_task_def split: prod.splits option.splits handled.splits)

lemma ownI: "sstep env s t \<Longrightarrow> others t = others s \<Longrightarrow> serverStop t = serverStop s \<Longrightarrow> own env s t"
  by (simp add: own_def)

lemma own_run: "(own env)\<^sup>*\<^sup>* s t \<Longrightarrow> (sstep env)\<^sup>*\<^sup>* s t"
  by (rule rtranclp_mono [THEN predicate2D, rotated]) (auto simp: own_def)

section \<open>The two goroutines finish\<close>

definition skeeps :: "sconn_state \<Rightarrow> sconn_state \<Rightarrow> bool" where
  "skeeps s t \<longleftrightarrow> tasks t = tasks s \<and> responses t = responses s \<and> sh t = sh s \<and> sconnStop t = sconnStop s
     \<and> \<not> crashed t"

lemma skeeps_trans: "skeeps s t \<Longrightarrow> skeeps t u \<Longrightarrow> skeeps s u"
  by (simp add: skeeps_def)

lemma sfinish_writer:
  assumes nc: "\<not> crashed s" and stop: "sconnStop s" and w: "sw s \<noteq> SWGone"
  shows "\<exists>t e. (own env)\<^sup>*\<^sup>* s t \<and> sw t = SWDone e \<and> sr t = sr s \<and> skeeps s t"
proof -
  have idle: "\<exists>t e. (own env)\<^sup>*\<^sup>* s t \<and> sw t = SWDone e \<and> sr t = sr s \<and> skeeps s t"
    if u: "sw u = SWIdle" "(own env)\<^sup>*\<^sup>* s u" "sr u = sr s" "skeeps s u" for u
  proof -
    from u stop have "own env u (u\<lparr>sw := SWDone None\<rparr>)"
      by (intro ownI sstep.w_stop) (simp_all add: skeeps_def)
    with u show ?thesis
      by (intro exI [of _ "u\<lparr>sw := SWDone None\<rparr>"]) (auto simp: skeeps_def)
  qed
  have refl: "skeeps s s"
    using nc by (simp add: skeeps_def)
  show ?thesis
  proof (cases "sw s")
    case SWIdle
    with idle [of s] refl show ?thesis by simp
  next
    case (SWWrite r)
    let ?u = "write_response r s"
    have "own env s ?u"
      using nc SWWrite by (intro ownI sstep.w_write) simp_all
    then have step: "(own env)\<^sup>*\<^sup>* s ?u"
      by blast
    have "sr ?u = sr s \<and> skeeps s ?u \<and> (sw ?u = SWIdle \<or> (\<exists>e. sw ?u = SWDone e))"
      using refl by (auto simp: write_response_def skeeps_def split: prod.splits option.splits)
    with step idle [of ?u] show ?thesis
      by blast
  qed (use w refl in auto)
qed

lemma sfinish_reader:
  assumes nc: "\<not> crashed s" and stop: "sconnStop s" and r: "sr s \<noteq> SRGone"
  shows "\<exists>t e. (own env)\<^sup>*\<^sup>* s t \<and> sr t = SRDone e \<and> sw t = sw s \<and> skeeps s t"
proof (cases "sr s")
  case SRIdle
  then have "own env s (s\<lparr>sr := SRDone None\<rparr>)"
    using sstep.r_check [OF nc SRIdle, of env] stop by (simp add: own_def)
  with nc show ?thesis
    by (intro exI [of _ "s\<lparr>sr := SRDone None\<rparr>"]) (auto simp: skeeps_def)
next
  case SRReading
  let ?u = "s\<lparr>sincoming := buffer_reader []\<rparr>"
  have "own env s ?u" "own env ?u (read_request ?u)"
    using nc SRReading by (auto intro!: ownI sstep.n_network sstep.r_read)
  then have "(own env)\<^sup>*\<^sup>* s (read_request ?u)"
    by (meson converse_rtranclp_into_rtranclp r_into_rtranclp)
  moreover have "\<exists>e. sr (read_request ?u) = SRDone e" "sw (read_request ?u) = sw s" "skeeps s (read_request ?u)"
    using nc by (auto simp: read_request_def sr_readFrom_def read_u64_def read_full_def buffer_reader_def skeeps_def)
  ultimately show ?thesis
    by blast
qed (use r nc in \<open>auto simp: skeeps_def\<close>)

section \<open>The end of the connection\<close>

abbreviation sgoes :: "'v sconn_env \<Rightarrow> sconn_state \<Rightarrow> bool" where
  "sgoes env s \<equiv> \<exists>t e. (own env)\<^sup>*\<^sup>* s t \<and> sh t = SHDone e \<and> sw t = SWGone
     \<and> tasks t = tasks s \<and> responses t = responses s \<and> \<not> crashed t"

lemma slast_writer:
  assumes "\<not> crashed s" "inv_sphase s" "sh s = SHWaitWriter e"
  shows "sgoes env s"
proof -
  have "sconnStop s" "sw s \<noteq> SWGone"
    using assms by (simp_all add: inv_sphase_def)
  then obtain t e' where t: "(own env)\<^sup>*\<^sup>* s t" "sw t = SWDone e'" "skeeps s t"
    using sfinish_writer [OF assms(1)] by blast
  then have "own env t (t\<lparr>sw := SWGone, sh := SHDone e\<rparr>)"
    using assms(3) by (intro ownI sstep.h_last_writer) (simp_all add: skeeps_def)
  with t show ?thesis
    by (intro exI [of _ "t\<lparr>sw := SWGone, sh := SHDone e\<rparr>"]) (auto simp: skeeps_def)
qed

lemma slast_reader:
  assumes "\<not> crashed s" "inv_sphase s" "sh s = SHWaitReader e"
  shows "sgoes env s"
proof -
  have "sconnStop s" "sr s \<noteq> SRGone" "sw s = SWGone"
    using assms by (simp_all add: inv_sphase_def)
  moreover from this obtain t e' where t: "(own env)\<^sup>*\<^sup>* s t" "sr t = SRDone e'" "sw t = sw s" "skeeps s t"
    using sfinish_reader [OF assms(1)] by blast
  then have "own env t (t\<lparr>sr := SRGone, sh := SHDone e\<rparr>)"
    using assms(3) by (intro ownI sstep.h_last_reader) (simp_all add: skeeps_def)
  ultimately show ?thesis
    using t by (intro exI [of _ "t\<lparr>sr := SRGone, sh := SHDone e\<rparr>"]) (auto simp: skeeps_def)
qed

lemma sboth_last:
  assumes "\<not> crashed s" "inv_sphase s" "sh s = SHWaitBoth"
  shows "sgoes env s"
proof -
  have g: "sconnStop s" "sr s \<noteq> SRGone" "sw s \<noteq> SWGone"
    using assms by (simp_all add: inv_sphase_def)
  then obtain t e' where t: "(own env)\<^sup>*\<^sup>* s t" "sr t = SRDone e'" "sw t = sw s" "skeeps s t"
    using sfinish_reader [OF assms(1)] by blast
  let ?u = "t\<lparr>sr := SRGone, sh := SHWaitWriter None\<rparr>"
  have step: "own env t ?u"
    using t assms(3) by (intro ownI sstep.h_both) (simp_all add: skeeps_def)
  have "sgoes env ?u"
    using t g by (intro slast_writer) (simp_all add: skeeps_def inv_sphase_def)
  moreover have "(own env)\<^sup>*\<^sup>* s ?u"
    using t(1) step by (rule rtranclp.rtrancl_into_rtrancl)
  ultimately show ?thesis
    using t(4) by (auto simp: skeeps_def elim: rtranclp_trans)
qed

text \<open>After the stop signal the connection can end, with its handlers where they are.\<close>

lemma server_conn_returns:
  assumes "\<not> crashed s" "inv_sphase s" "serverStop s"
  shows "sgoes env s"
proof (cases "sh s")
  case SHWait
  let ?u = "s\<lparr>sconnStop := True, sh := SHWaitBoth\<rparr>"
  have step: "own env s ?u"
    using assms SHWait by (intro ownI sstep.h_stop) simp_all
  have "sgoes env ?u"
    using assms inv_sphase_step [OF assms(2)] step by (intro sboth_last) (auto simp: own_def)
  with step show ?thesis
    by (auto intro: converse_rtranclp_into_rtranclp)
next
  case (SHDone e)
  with assms show ?thesis
    by (intro exI [of _ s]) (auto simp: inv_sphase_def)
qed (use assms slast_writer slast_reader sboth_last in blast)+

section \<open>Handlers left behind\<close>

lemma stuck_step:
  assumes "sstep env s t" "sw s = SWGone" "length (responses s) = se_pendingResponses env"
    and "i < length (tasks s)" "tasks s ! i = TSend r"
  shows "sw t = SWGone \<and> responses t = responses s \<and> i < length (tasks t) \<and> tasks t ! i = TSend r"
  using assms(1)
proof cases
  case (t_run j r')
  with assms have "j \<noteq> i"
    by auto
  with t_run assms show ?thesis
    by (cases rule: run_task_cases [of env j r' s]) simp_all
qed (use assms in \<open>auto simp: nth_list_update read_request_def nth_append split: prod.splits option.splits\<close>)

lemma stuck_forever:
  assumes "(sstep env)\<^sup>*\<^sup>* s t" "sw s = SWGone" "length (responses s) = se_pendingResponses env"
    and "i < length (tasks s)" "tasks s ! i = TSend r"
  shows "sw t = SWGone \<and> responses t = responses s \<and> i < length (tasks t) \<and> tasks t ! i = TSend r"
  using assms(1)
proof (induction rule: rtranclp_induct)
  case (step t u)
  with assms(3) show ?case
    using stuck_step [of env t u i r] by simp
qed (use assms in simp)

lemma stop_strands_handler:
  assumes inv: "sconn_inv env s" and s: "\<not> crashed s" "serverStop s"
    and full: "length (responses s) = se_pendingResponses env"
    and i: "i < length (tasks s)" "tasks s ! i = TSend r"
  shows "\<exists>t e. (sstep env)\<^sup>*\<^sup>* s t \<and> sh t = SHDone e
    \<and> (\<forall>u. (sstep env)\<^sup>*\<^sup>* t u \<longrightarrow> i < length (tasks u) \<and> tasks u ! i = TSend r \<and> 0 < workers u)"
proof -
  have "inv_sphase s"
    using inv by (simp add: sconn_inv_def)
  then obtain t e where o: "(own env)\<^sup>*\<^sup>* s t" "sh t = SHDone e" "sw t = SWGone" "tasks t = tasks s" "responses t = responses s"
    using server_conn_returns [OF s(1) _ s(2)] by blast
  note t = own_run [OF o(1)] o(2-)
  have "i < length (tasks u) \<and> tasks u ! i = TSend r \<and> 0 < workers u" if u: "(sstep env)\<^sup>*\<^sup>* t u" for u
  proof -
    have stuck: "i < length (tasks u)" "tasks u ! i = TSend r"
      using stuck_forever [OF u t(3), of i r] t(4,5) full i by simp_all
    have "sconn_inv env u"
      using server_conn.steps_inv [OF rtranclp_trans [OF t(1) u] inv] .
    then show ?thesis
      using stuck slot_held [of env u i] by (simp add: sconn_inv_def)
  qed
  with t show ?thesis
    by blast
qed

section \<open>A run\<close>

text \<open>Reading a request, and serving it up to its response, as a few steps each.\<close>

lemma own_reaches: "reaches (sconn_init env) (sstep env) s \<Longrightarrow> (own env)\<^sup>*\<^sup>* s t \<Longrightarrow> reaches (sconn_init env) (sstep env) t"
  by (meson own_run reaches_steps)

lemma own_request:
  assumes "\<not> crashed s" "sr s = SRIdle" "\<not> sconnStop s"
  shows "\<exists>t r. (own env)\<^sup>*\<^sup>* s t \<and> tasks t = tasks s @ [TStart r] \<and> sr_id r = i
    \<and> responses t = responses s \<and> workers t = workers s \<and> sr t = SRIdle \<and> sw t = sw s \<and> sh t = sh s
    \<and> \<not> crashed t \<and> \<not> sconnStop t"
proof -
  let ?s1 = "s\<lparr>sr := SRReading\<rparr>" and ?rd = "\<lparr>rd_data = be_put i @ put_frame [], rd_end = EOF\<rparr>"
  let ?s2 = "?s1\<lparr>sincoming := ?rd\<rparr>"
  have "own env s ?s1"
    using sstep.r_check [OF assms(1,2), of env] assms(3) by (intro ownI) simp_all
  moreover have "own env ?s1 ?s2"
    by (intro ownI sstep.n_network) simp_all
  moreover have "own env ?s2 (read_request ?s2)"
    using assms(1) by (intro ownI sstep.r_read) simp_all
  ultimately have "(own env)\<^sup>*\<^sup>* s (read_request ?s2)"
    by (meson converse_rtranclp_into_rtranclp r_into_rtranclp)
  moreover have "sr_readFrom newServerRequest ?rd = (None, newServerRequest\<lparr>sr_id := i\<rparr>, \<lparr>rd_data = [], rd_end = EOF\<rparr>)"
    using sr_readFrom_ok [of "[]" newServerRequest i "[]" EOF] by (simp add: frame_ok_def newServerRequest_def)
  ultimately show ?thesis
    using assms by (intro exI [of _ "read_request ?s2"] exI [of _ "newServerRequest\<lparr>sr_id := i\<rparr>"])
      (simp add: read_request_def)
qed

lemma own_response:
  assumes "\<not> crashed s" "j < length (tasks s)" "tasks s ! j = TStart r"
    and "sr_id r \<noteq> 0" "workers s < se_concurrency env"
  shows "\<exists>t r'. (own env)\<^sup>*\<^sup>* s t \<and> tasks t = (tasks s)[j := TSend r'] \<and> sr_id r' = sr_id r
    \<and> responses t = responses s \<and> workers t = workers s + 1 \<and> sr t = sr s \<and> sw t = sw s \<and> sh t = sh s
    \<and> \<not> crashed t \<and> sconnStop t = sconnStop s"
proof -
  let ?s1 = "s\<lparr>workers := workers s + 1, tasks := (tasks s)[j := TRun r]\<rparr>"
  obtain r' es where h: "handleRequest (se_codec env) (se_methods env) r = (Respond r', es)" "sr_id r' = sr_id r"
    using handleRequest_errors [OF assms(4)] by blast
  have "own env s ?s1"
    using assms by (intro ownI sstep.t_start) simp_all
  moreover have "own env ?s1 (run_task env j r ?s1)"
    using assms by (intro ownI sstep.t_run) simp_all
  ultimately have "(own env)\<^sup>*\<^sup>* s (run_task env j r ?s1)"
    by (meson converse_rtranclp_into_rtranclp r_into_rtranclp)
  with h assms(1) show ?thesis
    by (intro exI [of _ "run_task env j r ?s1"] exI [of _ r']) (simp add: run_task_def)
qed

definition senv1 :: "byte list sconn_env" where
  "senv1 = \<lparr>se_codec = id_codec, se_methods = echo_methods, se_concurrency = 2, se_pendingResponses = 1\<rparr>"

definition sconn0 :: sconn_state where
  "sconn0 = \<lparr>tasks = [], workers = 0, others = 0, responses = [], sw = SWIdle, sr = SRIdle, sh = SHWait,
     sincoming = buffer_reader [], soutgoing = \<lparr>wr_out = [], wr_room = None, wr_err = EOF\<rparr>, told = [],
     sconnStop = False, serverStop = False, crashed = False, got = [], sent = []\<rparr>"

lemma sconn0_reaches: "reaches (sconn_init senv1) (sstep senv1) sconn0"
  by (rule reaches_init) (simp add: sconn_init_def sconn0_def)

text \<open>Two requests, the response of the first in the channel, that of the second waiting to be sent.\<close>

lemma two_responses_reachable:
  "\<exists>s r. reaches (sconn_init senv1) (sstep senv1) s \<and> \<not> crashed s \<and> serverStop s
    \<and> length (responses s) = 1 \<and> tasks s = [TRelease, TSend r] \<and> sr_id r = 2"
proof -
  obtain s1 r1 where s1: "reaches (sconn_init senv1) (sstep senv1) s1" "tasks s1 = [TStart r1]" "sr_id r1 = 1"
      "responses s1 = []" "workers s1 = 0" "sr s1 = SRIdle" "\<not> crashed s1" "\<not> sconnStop s1"
    using own_request [of sconn0 senv1 1] own_reaches [OF sconn0_reaches] by (fastforce simp: sconn0_def)
  obtain s2 r2 where s2: "reaches (sconn_init senv1) (sstep senv1) s2" "tasks s2 = [TStart r1, TStart r2]" "sr_id r2 = 2"
      "responses s2 = []" "workers s2 = 0" "\<not> crashed s2"
    using own_request [OF s1(7,6,8), of senv1 2] own_reaches [OF s1(1)] s1 by fastforce
  obtain s3 r1' where s3: "reaches (sconn_init senv1) (sstep senv1) s3" "tasks s3 = [TSend r1', TStart r2]"
      "responses s3 = []" "workers s3 = 1" "\<not> crashed s3"
    using own_response [OF s2(6), of 0 r1 senv1] own_reaches [OF s2(1)] s2 s1(3) by (fastforce simp: senv1_def)
  let ?s4 = "s3\<lparr>responses := [r1'], tasks := [TRelease, TStart r2]\<rparr>"
  have "sstep senv1 s3 ?s4"
    using sstep.t_send [of s3 0 r1' senv1] s3 by (simp add: senv1_def)
  then have s4: "reaches (sconn_init senv1) (sstep senv1) ?s4"
    using s3(1) by (rule reaches_step [rotated])
  obtain s5 r2' where s5: "reaches (sconn_init senv1) (sstep senv1) s5" "tasks s5 = [TRelease, TSend r2']"
      "sr_id r2' = 2" "responses s5 = [r1']" "\<not> crashed s5"
    using own_response [of ?s4 1 r2 senv1] own_reaches [OF s4] s3 s2(3) by (fastforce simp: senv1_def)
  then show ?thesis
    by (intro exI [of _ "s5\<lparr>serverStop := True\<rparr>"] exI [of _ r2']) (auto intro: reaches_step sstep.n_stop)
qed

section \<open>Properties of the connection\<close>

text \<open>The server never runs more requests than its concurrency: the worker slots in use are
  exactly those of the tasks between their start and their end and those of other connections,
  a task past its start has a slot to give back, and the channel of responses is within its
  capacity.\<close>

lemma server_conn_slots:
  assumes "reaches (sconn_init env) (sstep env) s"
  shows "others s + length (filter holds_slot (tasks s)) = workers s \<and> workers s \<le> se_concurrency env
    \<and> length (responses s) \<le> se_pendingResponses env
    \<and> (\<forall>i<length (tasks s). holds_slot (tasks s ! i) \<longrightarrow> 0 < workers s)"
  using server_conn.reaches_inv [OF assms] slot_held [of env s] by (auto simp: sconn_inv_def inv_slots_def)

lemma server_conn_slots_witness:
  "\<exists>s :: sconn_state. length (tasks s) = 2 \<and> others s + length (filter holds_slot (tasks s)) = workers s \<and> workers s \<le> 2"
proof -
  obtain s where s: "reaches (sconn_init senv1) (sstep senv1) s" "length (tasks s) = 2"
    using two_responses_reachable by auto
  from server_conn_slots [OF s(1)] s(2) show ?thesis
    by (intro exI [of _ s]) (simp add: senv1_def)
qed



text \<open>A stopped server is not kept by its connections: from every reachable state with the stop
  channel closed, unless a panic ended the process, the reader, the writer and the connection's
  goroutine can run to their end.\<close>

lemma server_conn_stop_ends:
  assumes "reaches (sconn_init env) (sstep env) s" "serverStop s" "\<not> crashed s"
  shows "\<exists>t e. (sstep env)\<^sup>*\<^sup>* s t \<and> sh t = SHDone e"
proof -
  have "inv_sphase s"
    using server_conn.reaches_inv [OF assms(1)] by (simp add: sconn_inv_def)
  then show ?thesis
    using server_conn_returns [OF assms(3) _ assms(2), of env] by (blast dest: own_run)
qed

lemma server_conn_stop_ends_witness: "\<exists>t e. (sstep senv1)\<^sup>*\<^sup>* (sconn0\<lparr>serverStop := True\<rparr>) t \<and> sh t = SHDone e"
  by (rule server_conn_stop_ends [OF reaches_step [OF sconn0_reaches sstep.n_stop]]) (simp_all add: sconn0_def)

text \<open>A handler that waits to send on a full channel of responses when the server stops can be
  left behind: the connection ends, nobody receives any more, and in every state from then on
  the handler is where it was, with its worker slot.\<close>

lemma server_conn_strands_handler:
  assumes "reaches (sconn_init env) (sstep env) s" "\<not> crashed s" "serverStop s"
    and "length (responses s) = se_pendingResponses env"
    and "i < length (tasks s)" "tasks s ! i = TSend r"
  shows "\<exists>t e. (sstep env)\<^sup>*\<^sup>* s t \<and> sh t = SHDone e
    \<and> (\<forall>u. (sstep env)\<^sup>*\<^sup>* t u \<longrightarrow> i < length (tasks u) \<and> tasks u ! i = TSend r \<and> 0 < workers u)"
  using stop_strands_handler [OF server_conn.reaches_inv [OF assms(1)] assms(2-)] .

lemma server_conn_strands_handler_witness:
  "\<exists>s t r. reaches (sconn_init senv1) (sstep senv1) s \<and> (sstep senv1)\<^sup>*\<^sup>* s t \<and> tasks t ! 1 = TSend r"
proof -
  obtain s r where s: "reaches (sconn_init senv1) (sstep senv1) s" "\<not> crashed s" "serverStop s"
      "length (responses s) = 1" "tasks s = [TRelease, TSend r]"
    using two_responses_reachable by blast
  then obtain t e where "(sstep senv1)\<^sup>*\<^sup>* s t" "\<forall>u. (sstep senv1)\<^sup>*\<^sup>* t u \<longrightarrow> 1 < length (tasks u)
      \<and> tasks u ! 1 = TSend r \<and> 0 < workers u"
    using server_conn_strands_handler [OF s(1-3), of 1 r] by (auto simp: senv1_def)
  with s(1) show ?thesis
    by blast
qed

end
