(* ===== verification/Link_Props.thy ===== *)
theory Link_Props
  imports Link_Inv Client_Conn_Live Server_Conn_Live
begin

text \<open>
  What the two ends of a connection give the callers: no call gets the answer of another, the
  reader of the client is never surprised, and a call on an idle connection can be answered.
\<close>

section \<open>Building runs\<close>

lemma client_move:
  assumes "(pstep cenv senv)\<^sup>*\<^sup>* p \<lparr>lc = c, ls = s, up = u, down = d\<rparr>" "cstep cenv c c'"
    and "incoming c' = incoming c \<or> rpc c' \<noteq> rpc c" "queue_fits cenv c'"
    and "u' = u @ added (outgoing c) (outgoing c')" "d' = drop (taken (incoming c) (incoming c')) d"
  shows "(pstep cenv senv)\<^sup>*\<^sup>* p \<lparr>lc = c', ls = s, up = u', down = d'\<rparr>"
  using assms(1) pstep.p_client [of cenv "\<lparr>lc = c, ls = s, up = u, down = d\<rparr>" c' senv] assms(2-)
  by (simp add: queue_fits_def)

lemma server_move:
  assumes "(pstep cenv senv)\<^sup>*\<^sup>* p \<lparr>lc = c, ls = s, up = u, down = d\<rparr>" "sstep senv s s'"
    and "sincoming s' = sincoming s \<or> sr s' \<noteq> sr s"
    and "\<forall>r. TSend r \<in> set (tasks s') \<longrightarrow> frame_ok (err_bytes (sr_err r)) \<and> frame_ok (sr_output r)"
    and "d' = d @ added (soutgoing s) (soutgoing s')" "u' = drop (taken (sincoming s) (sincoming s')) u"
  shows "(pstep cenv senv)\<^sup>*\<^sup>* p \<lparr>lc = c, ls = s', up = u', down = d'\<rparr>"
  using assms(1) pstep.p_server [of senv "\<lparr>lc = c, ls = s, up = u, down = d\<rparr>" s' cenv] assms(2-)
  by simp

lemma deliver_up:
  assumes "(pstep cenv senv)\<^sup>*\<^sup>* p \<lparr>lc = c, ls = s, up = u, down = d\<rparr>"
  shows "(pstep cenv senv)\<^sup>*\<^sup>* p \<lparr>lc = c, ls = s\<lparr>sincoming := buffer_reader u\<rparr>, up = u, down = d\<rparr>"
  using assms pstep.p_to_server [of cenv senv "\<lparr>lc = c, ls = s, up = u, down = d\<rparr>" "length u" EOF]
  by (simp add: buffer_reader_def)

lemma deliver_down:
  assumes "(pstep cenv senv)\<^sup>*\<^sup>* p \<lparr>lc = c, ls = s, up = u, down = d\<rparr>"
  shows "(pstep cenv senv)\<^sup>*\<^sup>* p \<lparr>lc = c\<lparr>incoming := buffer_reader d\<rparr>, ls = s, up = u, down = d\<rparr>"
  using assms pstep.p_to_client [of cenv senv "\<lparr>lc = c, ls = s, up = u, down = d\<rparr>" "length d" EOF]
  by (simp add: buffer_reader_def)

section \<open>A call on an idle connection\<close>

definition client_idle :: "'v conn_state \<Rightarrow> bool" where
  "client_idle c \<longleftrightarrow> queue c = [] \<and> wpc c = WIdle \<and> rpc c = RIdle \<and> \<not> connStop c \<and> wr_room (outgoing c) = None"

definition server_idle :: "sconn_state \<Rightarrow> bool" where
  "server_idle s \<longleftrightarrow> set (tasks s) \<subseteq> {TDone} \<and> responses s = [] \<and> sw s = SWIdle \<and> sr s = SRIdle
     \<and> \<not> sconnStop s \<and> \<not> crashed s \<and> wr_room (soutgoing s) = None"

definition idle :: "'v link \<Rightarrow> bool" where
  "idle p \<longleftrightarrow> client_idle (lc p) \<and> server_idle (ls p) \<and> up p = [] \<and> down p = []"

text \<open>The client's part up to the request on the pipe.\<close>

lemma run_request:
  assumes idle: "client_idle c" "env_max cenv < 2 ^ 63" "0 < env_max cenv" "length (pending c) \<le> env_max cenv"
      "unat (nextId c) + length (pending c) + 1 < 2 ^ 64"
    and q: "q \<notin> in_use c" "callers c q \<noteq> CWait" "fresh_request r" "\<not> cr_skip r"
    and b: "stands_for cenv r b" "frame_ok b"
  shows "\<exists>i w. i \<noteq> 0 \<and> map_of (pending c) i = None \<and> wr_room w = None \<and> (pstep cenv senv)\<^sup>*\<^sup>* \<lparr>lc = c, ls = s, up = [], down = []\<rparr>
    \<lparr>lc = c\<lparr>reqs := (reqs c)(q := r), pool := removeAll q (pool c), callers := (callers c)(q := CWait), nextId := i,
       pending := (i, q) # pending c, reqCount := reqCount c + 1, outgoing := w, rpc := RReading\<rparr>,
     ls = s, up = put_request (i, b), down = []\<rparr>"
proof -
  let ?c1 = "c\<lparr>reqs := (reqs c)(q := r), queue := [q], pool := removeAll q (pool c), callers := (callers c)(q := CWait)\<rparr>"
  have i0: "queue c = []" "wpc c = WIdle" "rpc c = RIdle" "\<not> connStop c" "wr_room (outgoing c) = None"
    using idle(1) by (simp_all add: client_idle_def)
  have fits: "queue_fits cenv c'" if "set (queue c') \<subseteq> {q}" "reqs c' q = r" for c'
    using that b by (auto simp: queue_fits_def stands_for_def)
  have 1: "(pstep cenv senv)\<^sup>*\<^sup>* \<lparr>lc = c, ls = s, up = [], down = []\<rparr> \<lparr>lc = ?c1, ls = s, up = [], down = []\<rparr>"
    using cstep.c_call [of c cenv q r] q idle(3) i0(1)
    by (intro client_move [OF rtranclp.rtrancl_refl] fits) (simp_all add: added_def taken_def)
  obtain i where i: "map_of (pending c) i = None" "i \<noteq> 0"
      and store: "store_request cenv q (?c1\<lparr>queue := []\<rparr>) = ?c1\<lparr>queue := [], nextId := i, pending := (i, q) # pending c,
        reqCount := reqCount c + 1, wpc := WWrite q i\<rparr>"
    using store_request_id [of "?c1\<lparr>queue := []\<rparr>" cenv q] idle(2,4,5) by auto
  let ?c2 = "?c1\<lparr>queue := [], nextId := i, pending := (i, q) # pending c, reqCount := reqCount c + 1, wpc := WWrite q i\<rparr>"
  have "cr_err r = None" "cr_wBuf r = []"
    using q(3) by (simp_all add: fresh_request_def)
  then have take: "take_request cenv q (?c1\<lparr>queue := []\<rparr>) = ?c2"
    using q(4) store by (simp add: take_request_def)
  have "cstep cenv ?c1 ?c2"
    using cstep.w_take [of ?c1 q "[]" cenv] i0(2) unfolding take by simp
  then have 2: "(pstep cenv senv)\<^sup>*\<^sup>* \<lparr>lc = c, ls = s, up = [], down = []\<rparr> \<lparr>lc = ?c2, ls = s, up = [], down = []\<rparr>"
    by (intro client_move [OF 1] fits) (simp_all add: added_def taken_def)
  let ?w = "(outgoing c)\<lparr>wr_out := wr_out (outgoing c) @ put_request (i, b)\<rparr>"
  let ?c3 = "?c2\<lparr>outgoing := ?w, wpc := WIdle\<rparr>"
  have "write_request cenv q i ?c2 = ?c3"
    using stands_for_write [OF b(1)] i0(5) q(4) by (simp add: write_request_def put_request_simp Let_def)
  then have "cstep cenv ?c2 ?c3"
    using cstep.w_write [of ?c2 q i cenv] by simp
  then have 3: "(pstep cenv senv)\<^sup>*\<^sup>* \<lparr>lc = c, ls = s, up = [], down = []\<rparr> \<lparr>lc = ?c3, ls = s, up = put_request (i, b), down = []\<rparr>"
    by (intro client_move [OF 2] fits) (simp_all add: added_def taken_def)
  let ?c4 = "?c3\<lparr>rpc := RReading\<rparr>"
  have "cstep cenv ?c3 ?c4"
    using cstep.r_check [of ?c3 cenv] i0(3,4) by simp
  then have "(pstep cenv senv)\<^sup>*\<^sup>* \<lparr>lc = c, ls = s, up = [], down = []\<rparr> \<lparr>lc = ?c4, ls = s, up = put_request (i, b), down = []\<rparr>"
    by (intro client_move [OF 3] fits) (simp_all add: added_def taken_def)
  moreover have "?c4 = c\<lparr>reqs := (reqs c)(q := r), pool := removeAll q (pool c), callers := (callers c)(q := CWait), nextId := i,
       pending := (i, q) # pending c, reqCount := reqCount c + 1, outgoing := ?w, rpc := RReading\<rparr>"
    using i0(1,2) by simp
  ultimately show ?thesis
    using i i0(5) by (intro exI [of _ i] exI [of _ ?w]) simp
qed

text \<open>A task of the server from its start to its end, when there is room for it and its response.\<close>

lemma server_own:
  assumes "(pstep cenv senv)\<^sup>*\<^sup>* p \<lparr>lc = c, ls = s, up = u, down = d\<rparr>" "sstep senv s s'"
    and "sincoming s' = sincoming s" "soutgoing s' = soutgoing s"
    and "\<forall>r. TSend r \<in> set (tasks s') \<longrightarrow> frame_ok (err_bytes (sr_err r)) \<and> frame_ok (sr_output r)"
  shows "(pstep cenv senv)\<^sup>*\<^sup>* p \<lparr>lc = c, ls = s', up = u, down = d\<rparr>"
  using server_move [OF assms(1,2) _ assms(5)] assms(3,4) by (simp add: added_def taken_def)

lemma run_task_through:
  assumes s: "tasks s = ts @ [TStart r0]" "set ts \<subseteq> {TDone}" "responses s = []" "\<not> crashed s"
    and room: "workers s < se_concurrency senv" "0 < se_pendingResponses senv"
    and h: "handleRequest (se_codec senv) (se_methods senv) r0 = (Respond r, es)"
    and f: "frame_ok (err_bytes (sr_err r))" "frame_ok (sr_output r)"
    and run: "(pstep cenv senv)\<^sup>*\<^sup>* p \<lparr>lc = c, ls = s, up = u, down = d\<rparr>"
  shows "(pstep cenv senv)\<^sup>*\<^sup>* p
    \<lparr>lc = c, ls = s\<lparr>told := told s @ es, responses := [r], tasks := ts @ [TDone]\<rparr>, up = u, down = d\<rparr>"
proof -
  have upd: "(ts @ [t])[length ts := t'] = ts @ [t']" "(ts @ [t]) ! length ts = t" for t t'
    by simp_all
  have send: "TSend r' \<notin> set ts" for r'
    using s(2) by auto
  let ?s1 = "s\<lparr>workers := workers s + 1, tasks := ts @ [TRun r0]\<rparr>"
  let ?s2 = "?s1\<lparr>tasks := ts @ [TSend r], told := told s @ es\<rparr>"
  let ?s3 = "?s2\<lparr>responses := [r], tasks := ts @ [TRelease]\<rparr>"
  let ?s4 = "?s3\<lparr>workers := workers s, tasks := ts @ [TDone]\<rparr>"
  have "sstep senv s ?s1" "sstep senv ?s1 ?s2" "sstep senv ?s2 ?s3" "sstep senv ?s3 ?s4"
    using sstep.t_start [of s "length ts" r0 senv] sstep.t_run [of ?s1 "length ts" r0 senv]
      sstep.t_send [of ?s2 "length ts" r senv] sstep.t_release [of ?s3 "length ts" senv] s room
    by (simp_all add: upd run_task_def h)
  from server_own [OF server_own [OF server_own [OF server_own [OF run this(1)] this(2)] this(3)] this(4)]
  show ?thesis
    using send f by simp
qed

text \<open>The server's part: the request on one pipe becomes its response on the other.\<close>

lemma run_response:
  assumes idle: "server_idle s" "workers s < se_concurrency senv" "0 < se_pendingResponses senv"
    and b: "frame_ok b"
    and h: "handleRequest (se_codec senv) (se_methods senv) (request_read i b) = (Respond r, es)"
    and f: "frame_ok (err_bytes (sr_err r))" "frame_ok (sr_output r)"
  shows "\<exists>s'. server_idle s' \<and> workers s' = workers s \<and> (pstep cenv senv)\<^sup>*\<^sup>*
    \<lparr>lc = c, ls = s, up = put_request (i, b), down = []\<rparr> \<lparr>lc = c, ls = s', up = [], down = put_response (response_of r)\<rparr>"
proof -
  let ?run = "\<lambda>s' u d. (pstep cenv senv)\<^sup>*\<^sup>* \<lparr>lc = c, ls = s, up = put_request (i, b), down = []\<rparr> \<lparr>lc = c, ls = s', up = u, down = d\<rparr>"
  have i0: "\<And>r. TSend r \<notin> set (tasks s)" "set (tasks s) \<subseteq> {TDone}" "responses s = []" "sw s = SWIdle" "sr s = SRIdle"
      "\<not> sconnStop s" "\<not> crashed s" "wr_room (soutgoing s) = None"
    using idle(1) by (auto simp: server_idle_def)
  let ?s1 = "s\<lparr>sr := SRReading\<rparr>"
  have "sstep senv s ?s1"
    using sstep.r_check [of s senv] i0 by simp
  then have "?run ?s1 (put_request (i, b)) []"
    using i0(1) by (intro server_own [OF rtranclp.rtrancl_refl]) simp_all
  from deliver_up [OF this] have 1: "?run (?s1\<lparr>sincoming := buffer_reader (put_request (i, b))\<rparr>) (put_request (i, b)) []" .
  let ?s2 = "s\<lparr>sincoming := buffer_reader [], sr := SRIdle, tasks := tasks s @ [TStart (request_read i b)], got := got s @ [i]\<rparr>"
  have rd: "sr_readFrom newServerRequest (buffer_reader (put_request (i, b))) = (None, request_read i b, buffer_reader [])"
    using sr_readFrom_ok [OF b, of newServerRequest i "[]" EOF]
    by (simp add: buffer_reader_def put_request_simp request_read_def newServerRequest_def)
  have "sstep senv (?s1\<lparr>sincoming := buffer_reader (put_request (i, b))\<rparr>) ?s2"
    using sstep.r_read [of "?s1\<lparr>sincoming := buffer_reader (put_request (i, b))\<rparr>" senv] i0
    by (simp add: read_request_def rd request_read_def)
  then have "?run ?s2 [] []"
    by (intro server_move [OF 1]) (use i0 in \<open>simp_all add: added_def taken_def buffer_reader_def\<close>)
  from run_task_through [OF _ _ _ _ _ _ h f this]
  have 2: "?run (?s2\<lparr>told := told s @ es, responses := [r], tasks := tasks s @ [TDone]\<rparr>) [] []"
    using i0 idle(2,3) by simp
  let ?s3 = "?s2\<lparr>told := told s @ es, tasks := tasks s @ [TDone], sw := SWWrite r, responses := []\<rparr>"
  have "sstep senv (?s2\<lparr>told := told s @ es, responses := [r], tasks := tasks s @ [TDone]\<rparr>) ?s3"
    using sstep.w_take [of "?s2\<lparr>told := told s @ es, responses := [r], tasks := tasks s @ [TDone]\<rparr>" r "[]" senv] i0 by simp
  then have 3: "?run ?s3 [] []"
    using i0(1) by (intro server_own [OF 2]) simp_all
  have "sr_errLen r = 0"
    using handleRequest_errLen [OF h] by (simp add: request_read_def newServerRequest_def)
  then obtain r2 where out: "sr_writeTo r (soutgoing s)
      = (None, r2, (soutgoing s)\<lparr>wr_out := wr_out (soutgoing s) @ put_response (response_of r)\<rparr>)"
    using sr_writeTo_ok [OF i0(8) _ f(1)] by (auto simp: put_response_simp response_of_def)
  let ?s4 = "?s3\<lparr>soutgoing := (soutgoing s)\<lparr>wr_out := wr_out (soutgoing s) @ put_response (response_of r)\<rparr>,
      sw := SWIdle, sent := sent s @ [sr_id r]\<rparr>"
  have "sstep senv ?s3 ?s4"
    using sstep.w_write [of ?s3 r senv] i0 by (simp add: write_response_def out)
  then have "?run ?s4 [] (put_response (response_of r))"
    by (intro server_move [OF 3]) (use i0(1) in \<open>simp_all add: added_def taken_def\<close>)
  moreover have "server_idle ?s4" "workers ?s4 = workers s"
    using idle(1) by (simp_all add: server_idle_def)
  ultimately show ?thesis
    by blast
qed

text \<open>The two parts together: the response is delivered, and its id is the next to be read.\<close>

definition callable :: "'v conn_env \<Rightarrow> 'v sconn_env \<Rightarrow> nat \<Rightarrow> 'v link \<Rightarrow> bool" where
  "callable cenv senv q p \<longleftrightarrow> idle p \<and> env_max cenv < 2 ^ 63 \<and> 0 < env_max cenv \<and> length (pending (lc p)) \<le> env_max cenv
     \<and> unat (nextId (lc p)) + length (pending (lc p)) + 1 < 2 ^ 64
     \<and> workers (ls p) < se_concurrency senv \<and> 0 < se_pendingResponses senv
     \<and> q \<notin> in_use (lc p) \<and> callers (lc p) q \<noteq> CWait"

definition method_call :: "'v conn_env \<Rightarrow> 'v sconn_env \<Rightarrow> string \<Rightarrow> 'v list \<Rightarrow> 'v list \<Rightarrow> 'v list \<Rightarrow> go_error option \<Rightarrow> bool" where
  "method_call cenv senv name args ts vs err \<longleftrightarrow> (\<exists>V sm. codecs_agree (env_codec cenv) (se_codec senv) V
     \<and> set args \<subseteq> V \<and> set vs \<subseteq> V \<and> items (se_methods senv) name = Some sm
     \<and> list_all2 (fits (se_codec senv)) (fArgs sm) args \<and> direct_call (Call (fVal sm) args) = Some (vs, err)
     \<and> list_all2 (fits (env_codec cenv)) ts vs \<and> frame_ok (call_payload (env_codec cenv) name args)
     \<and> within (env_lim cenv) (put_values (env_codec cenv) vs) \<and> within (env_lim cenv) (err_bytes err))"

lemma method_call_handled:
  assumes "method_call cenv senv name args ts vs err" "i \<noteq> 0"
  shows "\<exists>r es. handleRequest (se_codec senv) (se_methods senv) (request_read i (call_payload (env_codec cenv) name args))
      = (Respond r, es) \<and> response_of r = (i, err_bytes err, put_values (env_codec cenv) vs)
      \<and> frame_ok (err_bytes (sr_err r)) \<and> frame_ok (sr_output r)"
proof -
  obtain V sm where m: "codecs_agree (env_codec cenv) (se_codec senv) V" "set args \<subseteq> V" "set vs \<subseteq> V"
      "items (se_methods senv) name = Some sm" "list_all2 (fits (se_codec senv)) (fArgs sm) args"
      "direct_call (Call (fVal sm) args) = Some (vs, err)" "frame_ok (call_payload (env_codec cenv) name args)"
      "within (env_lim cenv) (put_values (env_codec cenv) vs)" "within (env_lim cenv) (err_bytes err)"
    using assms(1) by (auto simp: method_call_def)
  have name: "frame_ok (bytes_of_string name)"
    using m(7) by (simp add: frame_ok_def call_payload_def put_frame_def)
  have "encodable (se_codec senv) V"
    using m(1) by (simp add: codecs_agree_def)
  from dispatch_direct [OF this m(2,3) name m(4-6)]
  have "dispatch (se_codec senv) (se_methods senv) (buffer_reader (call_payload (env_codec cenv) name args)) [] True
      = (case err of None \<Rightarrow> Ok () | Some e \<Rightarrow> Err e, buffer_reader [], put_values (env_codec cenv) vs)"
    using put_values_agree [OF m(1)] m(2,3) by (simp add: call_payload_def)
  moreover have "0 < i"
    using assms(2) by (simp add: word_neq_0_conv)
  ultimately show ?thesis
    using assms(2) m(8,9)
    by (cases err) (simp_all add: handleRequest_def request_read_def newServerRequest_def response_of_def Let_def)
qed

lemma make_request_stands:
  assumes "method_call cenv senv name args ts vs err"
  shows "stands_for cenv (make_request name args ts) (call_payload (env_codec cenv) name args)"
proof -
  obtain V where "encodable (env_codec cenv) V" "set args \<subseteq> V"
    using assms by (auto simp: method_call_def codecs_agree_def)
  then show ?thesis
    by (simp add: stands_for_def request_body_def cr_encode_args_ok call_payload_def put_frame_def)
qed

lemma call_to_id:
  assumes p: "callable cenv senv q p" and m: "method_call cenv senv name args ts vs err"
  shows "\<exists>i c s. i \<noteq> 0 \<and> (pstep cenv senv)\<^sup>*\<^sup>* p
      \<lparr>lc = c\<lparr>incoming := buffer_reader (put_response (i, err_bytes err, put_values (env_codec cenv) vs))\<rparr>, ls = s, up = [],
       down = put_response (i, err_bytes err, put_values (env_codec cenv) vs)\<rparr>
    \<and> server_idle s \<and> workers s = workers (ls p) \<and> client_idle (c\<lparr>rpc := RIdle\<rparr>) \<and> rpc c = RReading
    \<and> reqs c q = make_request name args ts \<and> pending c = (i, q) # pending (lc p) \<and> map_of (pending (lc p)) i = None \<and> callers c q = CWait"
proof -
  let ?r = "make_request name args ts" and ?b = "call_payload (env_codec cenv) name args"
  have eq: "p = \<lparr>lc = lc p, ls = ls p, up = [], down = []\<rparr>"
    using p by (simp add: callable_def idle_def)
  have ci: "client_idle (lc p)" and si: "server_idle (ls p)"
    using p by (simp_all add: callable_def idle_def)
  have fr: "fresh_request ?r" "\<not> cr_skip ?r"
    by (simp_all add: fresh_request_def) (simp add: make_request_def Reply_def Args_def cl_Request_def newClientRequest_def)
  have b: "frame_ok ?b"
    using m by (auto simp: method_call_def)
  obtain i w where i: "i \<noteq> 0" "map_of (pending (lc p)) i = None" "wr_room w = None" and run: "(pstep cenv senv)\<^sup>*\<^sup>* \<lparr>lc = lc p, ls = ls p, up = [], down = []\<rparr>
    \<lparr>lc = (lc p)\<lparr>reqs := (reqs (lc p))(q := ?r), pool := removeAll q (pool (lc p)), callers := (callers (lc p))(q := CWait), nextId := i,
       pending := (i, q) # pending (lc p), reqCount := reqCount (lc p) + 1, outgoing := w, rpc := RReading\<rparr>,
     ls = ls p, up = put_request (i, ?b), down = []\<rparr>"
    using run_request [OF ci _ _ _ _ _ _ fr make_request_stands [OF m] b, of q senv "ls p"] p by (auto simp: callable_def)
  let ?c = "(lc p)\<lparr>reqs := (reqs (lc p))(q := ?r), pool := removeAll q (pool (lc p)), callers := (callers (lc p))(q := CWait), nextId := i,
       pending := (i, q) # pending (lc p), reqCount := reqCount (lc p) + 1, outgoing := w, rpc := RReading\<rparr>"
  obtain r es where h: "handleRequest (se_codec senv) (se_methods senv) (request_read i ?b) = (Respond r, es)"
      "response_of r = (i, err_bytes err, put_values (env_codec cenv) vs)" "frame_ok (err_bytes (sr_err r))" "frame_ok (sr_output r)"
    using method_call_handled [OF m i(1)] by blast
  from run_response [OF si _ _ b h(1,3,4), of cenv ?c] p
  obtain s' where s': "server_idle s'" "workers s' = workers (ls p)" "(pstep cenv senv)\<^sup>*\<^sup>*
      \<lparr>lc = ?c, ls = ls p, up = put_request (i, ?b), down = []\<rparr>
      \<lparr>lc = ?c, ls = s', up = [], down = put_response (i, err_bytes err, put_values (env_codec cenv) vs)\<rparr>"
    unfolding h(2) by (auto simp: callable_def)
  from deliver_down [OF rtranclp_trans [OF run s'(3)]] s'(1,2) i ci show ?thesis
    by (intro exI [of _ i] exI [of _ ?c] exI [of _ s']) (simp add: eq [symmetric] client_idle_def)
qed

text \<open>The reader takes the id, and then the body.\<close>

lemma call_to_body:
  assumes p: "callable cenv senv q p" and m: "method_call cenv senv name args ts vs err"
  shows "\<exists>c c' s. (pstep cenv senv)\<^sup>*\<^sup>* p \<lparr>lc = c, ls = s, up = [], down = rd_data (incoming c)\<rparr>
    \<and> server_idle s \<and> workers s = workers (ls p) \<and> client_idle (c\<lparr>rpc := RIdle\<rparr>) \<and> rpc c = RBody q
    \<and> reqs c q = make_request name args ts \<and> pending c = pending (lc p) \<and> callers c q = CWait
    \<and> receive_body cenv q c = Some c' \<and> rpc c' = RIdle \<and> rd_data (incoming c') = []
    \<and> c' = c\<lparr>reqs := (reqs c)(q := reqs c' q), incoming := incoming c', rpc := RIdle\<rparr>
    \<and> cr_reply (reqs c' q) = vs \<and> cr_err (reqs c' q) = remote_error err \<and> cr_done (reqs c' q) = DoneFull"
proof -
  let ?x = "err_bytes err" and ?y = "put_values (env_codec cenv) vs" and ?r = "make_request name args ts"
  obtain i c s where i: "i \<noteq> 0" and run: "(pstep cenv senv)\<^sup>*\<^sup>* p
        \<lparr>lc = c\<lparr>incoming := buffer_reader (put_response (i, ?x, ?y))\<rparr>, ls = s, up = [], down = put_response (i, ?x, ?y)\<rparr>"
      and s: "server_idle s" "workers s = workers (ls p)"
      and c: "client_idle (c\<lparr>rpc := RIdle\<rparr>)" "rpc c = RReading" "reqs c q = ?r" "pending c = (i, q) # pending (lc p)"
        "map_of (pending (lc p)) i = None" "callers c q = CWait"
    using call_to_id [OF p m] by auto
  let ?c0 = "c\<lparr>incoming := buffer_reader (put_response (i, ?x, ?y))\<rparr>"
  let ?c1 = "c\<lparr>incoming := buffer_reader (put_frame ?x @ put_frame ?y), pending := pending (lc p), reqCount := reqCount c - 1, rpc := RBody q\<rparr>"
  have "filter (\<lambda>(j, _). j \<noteq> i) (pending (lc p)) = pending (lc p)"
    using c(5) by (intro filter_True) (force simp: map_of_eq_None_iff)
  then have "receive_id ?c0 = ?c1"
    using c(4) by (simp add: receive_id_def buffer_reader_def put_response_simp)
  then have "cstep cenv ?c0 ?c1"
    using cstep.r_id [of ?c0 cenv] c(2) by simp
  then have "(pstep cenv senv)\<^sup>*\<^sup>* p \<lparr>lc = ?c1, ls = s, up = [], down = put_frame ?x @ put_frame ?y\<rparr>"
    using c(1,2) by (intro client_move [OF run])
      (simp_all add: added_def taken_def buffer_reader_def put_response_simp queue_fits_def client_idle_def)
  moreover obtain r rd where read: "cr_readFrom (env_lim cenv) (env_codec cenv) ?r (buffer_reader (put_frame ?x @ put_frame ?y)) = (Ok (), r, rd)"
      and r: "cr_reply r = vs" "cr_err r = remote_error err" "cr_done r = DoneFull"
  proof -
    have "list_all2 (fits (env_codec cenv)) ts vs" "within (env_lim cenv) ?y" "within (env_lim cenv) ?x"
      using m by (auto simp: method_call_def)
    from client_receives_answer [OF this(1) within_value [OF this(2)] this(2,3), of name args i] that show thesis
      by (auto simp: client_receives_def response_bytes_def buffer_reader_def split: prod.splits)
  qed
  moreover have "rd_data rd = []"
  proof -
    have "frame_ok ?x" "frame_ok ?y"
      using m by (auto simp: method_call_def)
    from cr_readFrom_front [OF read [unfolded buffer_reader_def] this, of "[]" "[]"] show ?thesis
      by simp
  qed
  ultimately show ?thesis
    using s c by (intro exI [of _ ?c1] exI [of _ "?c1\<lparr>reqs := (reqs c)(q := r), incoming := rd, rpc := RIdle\<rparr>"] exI [of _ s])
      (simp add: receive_body_def buffer_reader_def client_idle_def)
qed

section \<open>Properties\<close>

text \<open>C1: No call gets the answer of another: whatever calls share a connection and however the
  goroutines of both ends and the deliveries of the network interleave, when the client's reader
  has read a response into a request, the request is what the exchange of it alone, with nobody
  else on the connection, would have made of it.\<close>

theorem shared_calls_are_exchanges:
  assumes "reaches (link_init cenv senv) (pstep cenv senv) p" "rpc (lc p) = RBody q"
    and "receive_body cenv q (lc p) = Some c'" "rpc c' = RIdle"
  shows "\<exists>i. i \<noteq> 0 \<and> rpc_exchange (env_lim cenv) (env_codec cenv) (se_codec senv) (se_methods senv) i (reqs (lc p) q)
    = Some (i, Ok (), reqs c' q)"
  using both_ends_body [OF both_ends.reaches_inv [OF assms(1)] assms(2,3)] assms(4) by (simp add: listens_def)

text \<open>C4: The client's reader never meets an unexpected message: a complete id it reads from the
  connection is that of a request still pending, and the body that follows goes to it.\<close>

theorem no_unexpected_message:
  assumes "reaches (link_init cenv senv) (pstep cenv senv) p" "rpc (lc p) = RReading"
    and "read_u64 (incoming (lc p)) = (Inr i, rd)"
  shows "\<exists>q. map_of (pending (lc p)) i = Some q \<and> rpc (receive_id (lc p)) = RBody q"
  using both_ends_id [OF both_ends.reaches_inv [OF assms(1)] assms(2,3)] assms(3) by (auto simp: receive_id_def)

text \<open>C2: A call can be answered: from any state of two ends that are idle, the goroutines of both
  can run until the call has returned with the error text and the results of a direct call of
  the method, and the two ends are idle again.\<close>

theorem idle_call_answered:
  assumes "callable cenv senv q p" "method_call cenv senv name args ts vs err"
  shows "\<exists>p'. (pstep cenv senv)\<^sup>*\<^sup>* p p' \<and> idle p' \<and> callers (lc p') q = CReturned (remote_error err)
    \<and> cr_reply (reqs (lc p') q) = vs"
proof -
  from call_to_body [OF assms] obtain c c' s where run: "(pstep cenv senv)\<^sup>*\<^sup>* p \<lparr>lc = c, ls = s, up = [], down = rd_data (incoming c)\<rparr>"
      and s: "server_idle s" and c: "client_idle (c\<lparr>rpc := RIdle\<rparr>)" "rpc c = RBody q" "callers c q = CWait"
      and c': "receive_body cenv q c = Some c'" "rpc c' = RIdle" "rd_data (incoming c') = []"
        "c' = c\<lparr>reqs := (reqs c)(q := reqs c' q), incoming := incoming c', rpc := RIdle\<rparr>"
        "cr_reply (reqs c' q) = vs" "cr_err (reqs c' q) = remote_error err" "cr_done (reqs c' q) = DoneFull"
    by blast
  have q: "queue c' = []" "client_idle c'" "callers c' q = CWait"
    using c by (subst c'(4), simp add: client_idle_def)+
  have out: "outgoing c' = outgoing c"
    by (subst c'(4)) simp
  have "cstep cenv c c'"
    using c(2) c'(1) by (rule cstep.r_body)
  then have 1: "(pstep cenv senv)\<^sup>*\<^sup>* p \<lparr>lc = c', ls = s, up = [], down = []\<rparr>"
    by (intro client_move [OF run]) (use c(2) c'(2,3) q(1) out in \<open>simp_all add: queue_fits_def added_def taken_def\<close>)
  let ?c2 = "c'\<lparr>reqs := (reqs c')(q := (reqs c' q)\<lparr>cr_done := done_drain (cr_done (reqs c' q))\<rparr>), callers := (callers c')(q := CReturning)\<rparr>"
  have "cstep cenv c' ?c2"
    using q(3) c'(7) by (intro cstep.c_done) (simp_all add: done_ready_def)
  then have 2: "(pstep cenv senv)\<^sup>*\<^sup>* p \<lparr>lc = ?c2, ls = s, up = [], down = []\<rparr>"
    by (intro client_move [OF 1]) (use q(1) in \<open>simp_all add: queue_fits_def added_def taken_def\<close>)
  let ?c3 = "?c2\<lparr>callers := (callers ?c2)(q := CReturned (cr_err (reqs ?c2 q)))\<rparr>"
  have "cstep cenv ?c2 ?c3"
    by (intro cstep.c_return) simp
  then have "(pstep cenv senv)\<^sup>*\<^sup>* p \<lparr>lc = ?c3, ls = s, up = [], down = []\<rparr>"
    by (intro client_move [OF 2]) (use q(1) in \<open>simp_all add: queue_fits_def added_def taken_def\<close>)
  moreover have "idle \<lparr>lc = ?c3, ls = s, up = [], down = []\<rparr>"
    using q(2) s by (simp add: idle_def client_idle_def)
  ultimately show ?thesis
    using c'(5,6) by (intro exI [of _ "\<lparr>lc = ?c3, ls = s, up = [], down = []\<rparr>"]) simp
qed

text \<open>C3: A call on a shared connection is a direct call: for a method that is registered and
  returns, and arguments and targets the codecs take, a response that has been read leaves the
  method's own results and the text of its error in the request, and the signal on its channel.\<close>

theorem shared_call_is_direct_call:
  assumes "reaches (link_init cenv senv) (pstep cenv senv) p" "rpc (lc p) = RBody q"
    and "receive_body cenv q (lc p) = Some c'" "rpc c' = RIdle"
    and "reqs (lc p) q = make_request name args ts" "method_call cenv senv name args ts vs err"
  shows "cr_reply (reqs c' q) = vs \<and> cr_err (reqs c' q) = remote_error err \<and> cr_done (reqs c' q) = DoneFull"
proof -
  have "listens (rpc c')"
    using assms(4) by (simp add: listens_def)
  with both_ends_body [OF both_ends.reaches_inv [OF assms(1)] assms(2,3)] obtain i where i: "i \<noteq> 0"
      "rpc_exchange (env_lim cenv) (env_codec cenv) (se_codec senv) (se_methods senv) i (make_request name args ts)
        = Some (i, Ok (), reqs c' q)"
    by (auto simp: assms(5))
  obtain V sm where "codecs_agree (env_codec cenv) (se_codec senv) V" "set args \<subseteq> V" "set vs \<subseteq> V"
      "items (se_methods senv) name = Some sm" "list_all2 (fits (se_codec senv)) (fArgs sm) args"
      "direct_call (Call (fVal sm) args) = Some (vs, err)" "list_all2 (fits (env_codec cenv)) ts vs"
      "frame_ok (call_payload (env_codec cenv) name args)"
      "within (env_lim cenv) (put_values (env_codec cenv) vs)" "within (env_lim cenv) (err_bytes err)"
    using assms(6) by (auto simp: method_call_def)
  from exchange_direct [OF this(1-7) i(1) this(8-10)] i(2) show ?thesis
    by auto
qed

section \<open>Two ends\<close>

definition link0 :: "byte list link" where
  "link0 = \<lparr>lc = conn0, ls = sconn0, up = [], down = []\<rparr>"

lemma link0_init: "link_init env0 senv1 link0"
  by (simp add: link_init_def link0_def conn_start_def conn_init_def conn0_def env0_def sconn_init_def sconn0_def
      senv1_def buffer_reader_def)

lemma link0_callable: "callable env0 senv1 5 link0"
  by (simp add: callable_def idle_def client_idle_def server_idle_def link0_def conn0_def env0_def sconn0_def senv1_def
      in_use_def in_flight_def)

lemma echo_call: "method_call env0 senv1 ''echo'' [[7]] [[]] [[7]] None"
  unfolding method_call_def
proof (intro exI conjI)
  show "codecs_agree (env_codec env0) (se_codec senv1) {v. frame_ok v}"
    using id_codecs_agree [of "{v. frame_ok v}"] by (simp add: env0_def senv1_def)
  show "items (se_methods senv1) ''echo'' = Some \<lparr>iNum = 1, fVal = \<lparr>NumOut = 2, In_zero = [[]], last_is_error = True,
      Call = (\<lambda>args. Results args (Nilable None))\<rparr>, fArgs = [[]]\<rparr>"
    by (simp add: senv1_def echo_methods_def echo_handler_def sv_Handler_def sm_add_def sm_register_def no_methods_def)
qed (simp_all add: env0_def senv1_def frame_ok_def within_def call_payload_def put_frame_def err_bytes_def)

lemma link0_runs: "(pstep env0 senv1)\<^sup>*\<^sup>* link0 p \<Longrightarrow> reaches (link_init env0 senv1) (pstep env0 senv1) p"
  by (induction rule: rtranclp_induct) (auto intro: reaches_init link0_init reaches_step)

lemma idle_call_answered_witness:
  "\<exists>p'. (pstep env0 senv1)\<^sup>*\<^sup>* link0 p' \<and> idle p' \<and> callers (lc p') 5 = CReturned None \<and> cr_reply (reqs (lc p') 5) = [[7]]"
  using idle_call_answered [OF link0_callable echo_call] by (simp add: remote_error_def)

lemma echo_body:
  obtains p c' where "reaches (link_init env0 senv1) (pstep env0 senv1) p" "rpc (lc p) = RBody 5"
    "receive_body env0 5 (lc p) = Some c'" "rpc c' = RIdle" "reqs (lc p) 5 = make_request ''echo'' [[7]] [[]]"
    "cr_reply (reqs c' 5) = [[7]]"
proof -
  from call_to_body [OF link0_callable echo_call] obtain c c' s where
      "(pstep env0 senv1)\<^sup>*\<^sup>* link0 \<lparr>lc = c, ls = s, up = [], down = rd_data (incoming c)\<rparr>" "rpc c = RBody 5"
      "receive_body env0 5 c = Some c'" "rpc c' = RIdle" "reqs c 5 = make_request ''echo'' [[7]] [[]]" "cr_reply (reqs c' 5) = [[7]]"
    by blast
  then show thesis
    using that [OF link0_runs] by (metis link.select_convs(1))
qed

lemma shared_calls_are_exchanges_witness:
  "\<exists>i r. rpc_exchange 100 id_codec id_codec echo_methods i (make_request ''echo'' [[7]] [[]]) = Some (i, Ok (), r)
    \<and> cr_reply r = [[7]]"
proof -
  obtain p c' where p: "reaches (link_init env0 senv1) (pstep env0 senv1) p" "rpc (lc p) = RBody 5"
    "receive_body env0 5 (lc p) = Some c'" "rpc c' = RIdle" "reqs (lc p) 5 = make_request ''echo'' [[7]] [[]]"
    "cr_reply (reqs c' 5) = [[7]]"
    by (rule echo_body)
  from shared_calls_are_exchanges [OF p(1-4)] p(5,6) show ?thesis
    by (auto simp: env0_def senv1_def)
qed

lemma shared_call_is_direct_call_witness:
  "\<exists>p c'. reaches (link_init env0 senv1) (pstep env0 senv1) p \<and> receive_body env0 5 (lc p) = Some c'
    \<and> cr_reply (reqs c' 5) = [[7]] \<and> cr_err (reqs c' 5) = None \<and> cr_done (reqs c' 5) = DoneFull"
proof -
  obtain p c' where p: "reaches (link_init env0 senv1) (pstep env0 senv1) p" "rpc (lc p) = RBody 5"
    "receive_body env0 5 (lc p) = Some c'" "rpc c' = RIdle" "reqs (lc p) 5 = make_request ''echo'' [[7]] [[]]"
    by (rule echo_body)
  from shared_call_is_direct_call [OF p echo_call] p show ?thesis
    by (auto simp: remote_error_def)
qed

lemma no_unexpected_message_witness:
  "\<exists>p i q. i \<noteq> 0 \<and> reaches (link_init env0 senv1) (pstep env0 senv1) p \<and> map_of (pending (lc p)) i = Some q
    \<and> rpc (receive_id (lc p)) = RBody q"
proof -
  from call_to_id [OF link0_callable echo_call] obtain i c s bs where i: "i \<noteq> 0" and run: "(pstep env0 senv1)\<^sup>*\<^sup>* link0
      \<lparr>lc = c\<lparr>incoming := buffer_reader (be_put i @ bs)\<rparr>, ls = s, up = [], down = be_put i @ bs\<rparr>" and c: "rpc c = RReading"
    unfolding put_response_simp by blast
  let ?p = "\<lparr>lc = c\<lparr>incoming := buffer_reader (be_put i @ bs)\<rparr>, ls = s, up = [], down = be_put i @ bs\<rparr>"
  have "reaches (link_init env0 senv1) (pstep env0 senv1) ?p"
    using run by (rule link0_runs)
  with no_unexpected_message [OF this, of i "buffer_reader bs"] c i show ?thesis
    by (intro exI [of _ ?p] exI [of _ i]) (auto simp: buffer_reader_def)
qed

end
