(* ===== verification/Lifecycle.thy ===== *)
theory Lifecycle
  imports Prelude
begin

text \<open>
  What the client's and the server's lifecycles share: the stop channel, and the contract under
  which \<^verbatim>\<open>Stop\<close> does not wait forever. \<^verbatim>\<open>Stop\<close> closes the channel and waits for the wait group;
  the locale \<open>stoppable\<close> asks that each goroutine of the group can finish on its own, whatever
  the others do, and concludes that all can.
\<close>

datatype stop_chan = SNil | SOpen | SClosed

datatype stopper = StopIdle | StopWaiting

text \<open>\<^verbatim>\<open>make(chan T, n)\<close> panics on a negative size.\<close>

definition make_chan :: "int \<Rightarrow> string option" where
  "make_chan n = (if n < 0 then Some ''makechan: size out of range'' else None)"

locale stoppable =
  fixes step :: "'s \<Rightarrow> 's \<Rightarrow> bool"
    and threads :: "'s \<Rightarrow> 'p list"
    and gone :: "'p \<Rightarrow> bool"
    and closing :: "'s \<Rightarrow> bool"
  assumes thread_ends: "closing s \<Longrightarrow> i < length (threads s) \<Longrightarrow> \<not> gone (threads s ! i) \<Longrightarrow>
      \<exists>t p. step\<^sup>*\<^sup>* s t \<and> closing t \<and> threads t = (threads s)[i := p] \<and> gone p"
begin

lemma filter_update_gone:
  "i < length ts \<Longrightarrow> \<not> gone (ts ! i) \<Longrightarrow> gone p \<Longrightarrow>
    length (filter (\<lambda>p. \<not> gone p) (ts[i := p])) < length (filter (\<lambda>p. \<not> gone p) ts)"
proof (induction ts arbitrary: i)
  case (Cons a ts)
  then show ?case
    by (cases i) auto
qed simp

lemma all_end:
  assumes "closing s"
  shows "\<exists>t. step\<^sup>*\<^sup>* s t \<and> closing t \<and> length (threads t) = length (threads s) \<and> (\<forall>p\<in>set (threads t). gone p)"
  using assms
proof (induction "length (filter (\<lambda>p. \<not> gone p) (threads s))" arbitrary: s rule: less_induct)
  case less
  show ?case
  proof (cases "\<forall>p\<in>set (threads s). gone p")
    case True
    with less.prems show ?thesis
      by blast
  next
    case False
    then obtain i where i: "i < length (threads s)" "\<not> gone (threads s ! i)"
      by (auto simp: in_set_conv_nth)
    then obtain t p where t: "step\<^sup>*\<^sup>* s t" "closing t" "threads t = (threads s)[i := p]" "gone p"
      using thread_ends [OF less.prems] by blast
    then have "length (filter (\<lambda>p. \<not> gone p) (threads t)) < length (filter (\<lambda>p. \<not> gone p) (threads s))"
      using filter_update_gone [OF i] by simp
    then obtain u where "step\<^sup>*\<^sup>* t u" "closing u" "length (threads u) = length (threads t)" "\<forall>p\<in>set (threads u). gone p"
      using less.hyps t(2) by blast
    with t show ?thesis
      by (metis length_list_update rtranclp_trans)
  qed
qed

end

end
