(* ===== verification/Hooks.thy ===== *)
theory Hooks
  imports Prelude
begin

text \<open>
  The contract both plugin registries follow. A plugin implements some of the hook interfaces; a
  registry keeps a list of implementations per interface and calls them in turn until one
  returns an error. A hook acts on the world \<open>'w\<close> (what plugins log, count or register). The
  locale \<open>hook_chain\<close> is the interface of one such list.
\<close>

section \<open>Running a list of hooks\<close>

type_synonym ('a, 'w) hook = "'a \<Rightarrow> 'w \<Rightarrow> go_error option \<times> 'w"

fun run_hooks :: "('a, 'w) hook list \<Rightarrow> 'a \<Rightarrow> 'w \<Rightarrow> go_error option \<times> 'w" where
  "run_hooks [] a w = (None, w)"
| "run_hooks (h # hs) a w =
     (case h a w of
        (Some e, w') \<Rightarrow> (Some e, w')
      | (None, w') \<Rightarrow> run_hooks hs a w')"

text \<open>A connection as the hooks see it is a reference, \<open>None\<close> for \<^verbatim>\<open>nil\<close>.\<close>

type_synonym conn_ref = "nat option"

text \<open>A list that is appended to when the plugin implements the interface.\<close>

definition append_hook :: "'h option \<Rightarrow> 'h list \<Rightarrow> 'h list" where
  "append_hook h hs = (case h of None \<Rightarrow> hs | Some v \<Rightarrow> hs @ [v])"

lemma run_hooks_append:
  "run_hooks (hs @ gs) a w =
    (case run_hooks hs a w of (Some e, w') \<Rightarrow> (Some e, w') | (None, w') \<Rightarrow> run_hooks gs a w')"
  by (induction hs arbitrary: w) (simp_all split: prod.splits option.splits)

text \<open>
  The specification of a run: the hooks up to the first error have been called, each on the
  world the one before it left, and none after it.
\<close>

inductive hooks_run :: "'a \<Rightarrow> ('a, 'w) hook list \<Rightarrow> 'w \<Rightarrow> nat \<Rightarrow> go_error option \<Rightarrow> 'w \<Rightarrow> bool" for a where
  run_end: "hooks_run a [] w 0 None w"
| run_error: "h a w = (Some e, w') \<Longrightarrow> hooks_run a (h # hs) w 1 (Some e) w'"
| run_next: "h a w = (None, w') \<Longrightarrow> hooks_run a hs w' n e w'' \<Longrightarrow> hooks_run a (h # hs) w (Suc n) e w''"

inductive_cases hooks_run_NilE: "hooks_run a [] w n e w'"
inductive_cases hooks_run_ConsE: "hooks_run a (h # hs) w n e w'"

lemma run_hooks_sound: "run_hooks hs a w = (e, w') \<Longrightarrow> \<exists>n. hooks_run a hs w n e w'"
proof (induction hs arbitrary: w)
  case Nil
  then show ?case
    by (auto intro: run_end)
next
  case (Cons h hs)
  obtain x w1 where h: "h a w = (x, w1)"
    by (cases "h a w")
  with Cons show ?case
    by (cases x) (auto intro: run_error dest: run_next [of h a w w1])
qed

lemma hooks_run_det: "hooks_run a hs w n e w' \<Longrightarrow> run_hooks hs a w = (e, w')"
  by (induction rule: hooks_run.induct) simp_all

lemma hooks_run_count: "hooks_run a hs w n e w' \<Longrightarrow> n \<le> length hs \<and> (e = None \<longrightarrow> n = length hs)"
  by (induction rule: hooks_run.induct) auto

section \<open>The interface of a chain\<close>

locale hook_chain =
  fixes add :: "'p \<Rightarrow> 'r \<Rightarrow> 'r"
    and none :: "'r"
    and hook_of :: "'p \<Rightarrow> ('a, 'w) hook option"
    and hooks :: "'r \<Rightarrow> ('a, 'w) hook list"
    and fire :: "'r \<Rightarrow> 'a \<Rightarrow> 'w \<Rightarrow> go_error option \<times> 'w"
  assumes hooks_none: "hooks none = []"
    and hooks_add: "hooks (add p r) = append_hook (hook_of p) (hooks r)"
    and fire_hooks: "fire r a w = run_hooks (hooks r) a w"
begin

lemma hooks_added: "hooks (foldl (\<lambda>r p. add p r) r ps) = hooks r @ List.map_filter hook_of ps"
  by (induction ps arbitrary: r)
    (simp_all add: hooks_add append_hook_def map_filter_simps split: option.splits)

text \<open>Plugins are called in the order of their registration.\<close>

lemma fire_added: "fire (foldl (\<lambda>r p. add p r) none ps) a w = run_hooks (List.map_filter hook_of ps) a w"
  by (simp add: fire_hooks hooks_added hooks_none)

lemma fire_none: "fire none a w = (None, w)"
  by (simp add: fire_hooks hooks_none)

lemma fire_add:
  "fire (add p r) a w =
    (case fire r a w of
       (Some e, w') \<Rightarrow> (Some e, w')
     | (None, w') \<Rightarrow> (case hook_of p of None \<Rightarrow> (None, w') | Some h \<Rightarrow> h a w'))"
  by (auto simp: fire_hooks hooks_add append_hook_def run_hooks_append split: option.splits prod.splits)

end

section \<open>Properties\<close>

text \<open>What the loop over the hooks computes is the specification of a run: the hooks up to the
  first that returns an error are called, once and in order, each on the world the one before it
  left, and no later one; without an error all are called.\<close>

lemma run_hooks_is_run:
  "run_hooks hs a w = (e, w') \<longleftrightarrow>
    (\<exists>n\<le>length hs. hooks_run a hs w n e w' \<and> (e = None \<longrightarrow> n = length hs))"
proof
  assume "run_hooks hs a w = (e, w')"
  then obtain n where "hooks_run a hs w n e w'"
    by (auto dest: run_hooks_sound)
  with hooks_run_count [OF this] show "\<exists>n\<le>length hs. hooks_run a hs w n e w' \<and> (e = None \<longrightarrow> n = length hs)"
    by blast
next
  assume "\<exists>n\<le>length hs. hooks_run a hs w n e w' \<and> (e = None \<longrightarrow> n = length hs)"
  then show "run_hooks hs a w = (e, w')"
    by (auto intro: hooks_run_det)
qed

lemma run_hooks_is_run_witness:
  "\<exists>n\<le>3. hooks_run (0 :: nat) [\<lambda>a w. (None, w @ [1]), \<lambda>a w. (Some EOF, w @ [2]), \<lambda>a w. (None, w @ [3])]
    [0 :: nat] n (Some EOF) [0, 1, 2]"
  using run_hooks_is_run [of "[\<lambda>a w. (None, w @ [1]), \<lambda>a w. (Some EOF, w @ [2]), \<lambda>a w. (None, w @ [3])]"
      "0 :: nat" "[0 :: nat]" "Some EOF" "[0, 1, 2]"] by (simp add: numeral_3_eq_3)

end
