(* ===== verification/Client_Plugin.thy ===== *)
theory Client_Plugin
  imports Hooks
begin

text \<open>
  \<^verbatim>\<open>client_plugin.go\<close>: the registry of the client's plugins, one list per hook interface. A
  plugin is what the type assertions of \<open>Add\<close> find out about it.
\<close>

record 'w client_plugin =
  cp_BeforeStart :: "(string, 'w) hook option"
  cp_AfterStart :: "(string, 'w) hook option"
  cp_BeforeStop :: "(string, 'w) hook option"
  cp_AfterStop :: "(string, 'w) hook option"
  cp_DialServer :: "(string \<times> conn_ref \<times> go_error option, 'w) hook option"
  cp_Connected :: "(string \<times> conn_ref, 'w) hook option"
  cp_Disconnected :: "(string \<times> go_error option, 'w) hook option"

record 'w clientPluginRegistry =
  cr_beforeStart :: "(string, 'w) hook list"
  cr_afterStart :: "(string, 'w) hook list"
  cr_beforeStop :: "(string, 'w) hook list"
  cr_afterStop :: "(string, 'w) hook list"
  cr_dialServer :: "(string \<times> conn_ref \<times> go_error option, 'w) hook list"
  cr_connected :: "(string \<times> conn_ref, 'w) hook list"
  cr_disconnected :: "(string \<times> go_error option, 'w) hook list"

definition no_client_plugins :: "'w clientPluginRegistry" where
  "no_client_plugins =
     \<lparr>cr_beforeStart = [], cr_afterStart = [], cr_beforeStop = [], cr_afterStop = [],
      cr_dialServer = [], cr_connected = [], cr_disconnected = []\<rparr>"

definition cp_Add :: "'w client_plugin \<Rightarrow> 'w clientPluginRegistry \<Rightarrow> 'w clientPluginRegistry" where
  "cp_Add p r =
     r\<lparr>cr_beforeStart := append_hook (cp_BeforeStart p) (cr_beforeStart r),
       cr_afterStart := append_hook (cp_AfterStart p) (cr_afterStart r),
       cr_beforeStop := append_hook (cp_BeforeStop p) (cr_beforeStop r),
       cr_afterStop := append_hook (cp_AfterStop p) (cr_afterStop r),
       cr_dialServer := append_hook (cp_DialServer p) (cr_dialServer r),
       cr_connected := append_hook (cp_Connected p) (cr_connected r),
       cr_disconnected := append_hook (cp_Disconnected p) (cr_disconnected r)\<rparr>"

text \<open>\<^verbatim>\<open>Client.Plugin\<close>: several at once.\<close>

definition cl_Plugin :: "'w client_plugin list \<Rightarrow> 'w clientPluginRegistry \<Rightarrow> 'w clientPluginRegistry" where
  "cl_Plugin ps r = foldl (\<lambda>r p. cp_Add p r) r ps"

definition cp_doBeforeStart :: "'w clientPluginRegistry \<Rightarrow> string \<Rightarrow> 'w \<Rightarrow> go_error option \<times> 'w" where
  "cp_doBeforeStart r addr w = run_hooks (cr_beforeStart r) addr w"

definition cp_doAfterStart :: "'w clientPluginRegistry \<Rightarrow> string \<Rightarrow> 'w \<Rightarrow> go_error option \<times> 'w" where
  "cp_doAfterStart r addr w = run_hooks (cr_afterStart r) addr w"

definition cp_doBeforeStop :: "'w clientPluginRegistry \<Rightarrow> string \<Rightarrow> 'w \<Rightarrow> go_error option \<times> 'w" where
  "cp_doBeforeStop r addr w = run_hooks (cr_beforeStop r) addr w"

definition cp_doAfterStop :: "'w clientPluginRegistry \<Rightarrow> string \<Rightarrow> 'w \<Rightarrow> go_error option \<times> 'w" where
  "cp_doAfterStop r addr w = run_hooks (cr_afterStop r) addr w"

text \<open>The inner \<^verbatim>\<open>err\<close> shadows the argument: every plugin gets the error of the dial.\<close>

definition cp_doDialServer ::
    "'w clientPluginRegistry \<Rightarrow> string \<times> conn_ref \<times> go_error option \<Rightarrow> 'w \<Rightarrow> go_error option \<times> 'w" where
  "cp_doDialServer r a w = run_hooks (cr_dialServer r) a w"

definition cp_doConnected ::
    "'w clientPluginRegistry \<Rightarrow> string \<times> conn_ref \<Rightarrow> 'w \<Rightarrow> go_error option \<times> 'w" where
  "cp_doConnected r a w = run_hooks (cr_connected r) a w"

definition cp_doDisconnected ::
    "'w clientPluginRegistry \<Rightarrow> string \<times> go_error option \<Rightarrow> 'w \<Rightarrow> go_error option \<times> 'w" where
  "cp_doDisconnected r a w = run_hooks (cr_disconnected r) a w"

lemmas client_fire_defs = cp_doBeforeStart_def cp_doAfterStart_def cp_doBeforeStop_def cp_doAfterStop_def
  cp_doDialServer_def cp_doConnected_def cp_doDisconnected_def

section \<open>Every list is a chain\<close>

interpretation cBeforeStart: hook_chain cp_Add no_client_plugins cp_BeforeStart cr_beforeStart cp_doBeforeStart
  by unfold_locales (simp_all add: cp_Add_def no_client_plugins_def client_fire_defs)

interpretation cAfterStart: hook_chain cp_Add no_client_plugins cp_AfterStart cr_afterStart cp_doAfterStart
  by unfold_locales (simp_all add: cp_Add_def no_client_plugins_def client_fire_defs)

interpretation cBeforeStop: hook_chain cp_Add no_client_plugins cp_BeforeStop cr_beforeStop cp_doBeforeStop
  by unfold_locales (simp_all add: cp_Add_def no_client_plugins_def client_fire_defs)

interpretation cAfterStop: hook_chain cp_Add no_client_plugins cp_AfterStop cr_afterStop cp_doAfterStop
  by unfold_locales (simp_all add: cp_Add_def no_client_plugins_def client_fire_defs)

interpretation cDialServer: hook_chain cp_Add no_client_plugins cp_DialServer cr_dialServer cp_doDialServer
  by unfold_locales (simp_all add: cp_Add_def no_client_plugins_def client_fire_defs)

interpretation cConnected: hook_chain cp_Add no_client_plugins cp_Connected cr_connected cp_doConnected
  by unfold_locales (simp_all add: cp_Add_def no_client_plugins_def client_fire_defs)

interpretation cDisconnected: hook_chain cp_Add no_client_plugins cp_Disconnected cr_disconnected cp_doDisconnected
  by unfold_locales (simp_all add: cp_Add_def no_client_plugins_def client_fire_defs)

section \<open>Properties\<close>

text \<open>The client's plugins are called in the order of their registration, those that implement
  the hook and no others, each on the world the one before it left, until one returns an error;
  every hook of the client behaves so.\<close>

lemma client_plugins_in_order:
  "cp_doBeforeStart (cl_Plugin ps no_client_plugins) a w = run_hooks (List.map_filter cp_BeforeStart ps) a w
   \<and> cp_doAfterStart (cl_Plugin ps no_client_plugins) a w = run_hooks (List.map_filter cp_AfterStart ps) a w
   \<and> cp_doBeforeStop (cl_Plugin ps no_client_plugins) a w = run_hooks (List.map_filter cp_BeforeStop ps) a w
   \<and> cp_doAfterStop (cl_Plugin ps no_client_plugins) a w = run_hooks (List.map_filter cp_AfterStop ps) a w
   \<and> cp_doDialServer (cl_Plugin ps no_client_plugins) d w = run_hooks (List.map_filter cp_DialServer ps) d w
   \<and> cp_doConnected (cl_Plugin ps no_client_plugins) c w = run_hooks (List.map_filter cp_Connected ps) c w
   \<and> cp_doDisconnected (cl_Plugin ps no_client_plugins) x w = run_hooks (List.map_filter cp_Disconnected ps) x w"
  by (simp_all add: cl_Plugin_def cBeforeStart.fire_added cAfterStart.fire_added cBeforeStop.fire_added
      cAfterStop.fire_added cDialServer.fire_added cConnected.fire_added cDisconnected.fire_added)

end
