(* ===== verification/Client_Life.thy ===== *)
theory Client_Life
  imports Lifecycle Client_Plugin
begin

text \<open>
  \<^verbatim>\<open>Start\<close>, \<^verbatim>\<open>Stop\<close> and \<^verbatim>\<open>handleConnections\<close> of \<^verbatim>\<open>client.go\<close>: the client's configuration and its
  defaults, the goroutines that dial and redial, and stopping them. \<^verbatim>\<open>Dial\<close> is a parameter of the
  application, so a dial ends with any outcome at any time; one connection, once the plugins
  accepted it, is the machine of \<open>Client_Conn\<close>, here a phase that can end at any time and, as
  that machine shows, can end after a stop. \<open>opened\<close> and \<open>closed\<close> count the connections dialled
  and the connections closed.
\<close>

section \<open>State\<close>

text \<open>The goroutine of one connection; the inner one that dials is still at it or has a result.\<close>

datatype dial = Dialing | Dialed "go_error option"

datatype dialer_pc =
    LDial dial
  | LStopDial dial
  | LConn
  | LServe
  | LAfter
  | LBackoff
  | LGone

record 'w client =
  Addr :: string
  has_Dial :: bool
  has_Codec :: bool
  Connections :: int
  PendingRequests :: int
  RequestBufSize :: int
  cl_plugins :: "'w clientPluginRegistry"
  cl_stopChan :: stop_chan
  requestsChan :: "int option"
  dialers :: "dialer_pc list"
  stopping :: stopper
  cl_world :: 'w
  opened :: nat
  closed :: nat

definition DefaultConnections :: int where "DefaultConnections = 1"
definition DefaultPendingRequests :: int where "DefaultPendingRequests = 32 * 1024"
definition DefaultRequestBufSize :: int where "DefaultRequestBufSize = 1024"

section \<open>Start and stop\<close>

definition cl_defaults :: "'w client \<Rightarrow> 'w client" where
  "cl_defaults c =
     c\<lparr>Connections := (if Connections c = 0 then DefaultConnections else Connections c),
       PendingRequests := (if PendingRequests c = 0 then DefaultPendingRequests else PendingRequests c),
       RequestBufSize := (if RequestBufSize c = 0 then DefaultRequestBufSize else RequestBufSize c)\<rparr>"

definition cl_run :: "'w client \<Rightarrow> 'w client" where
  "cl_run c = c\<lparr>requestsChan := Some (PendingRequests c),
     dialers := replicate (nat (Connections c)) (LDial Dialing)\<rparr>"

definition cl_Start :: "'w client \<Rightarrow> unit res \<times> 'w client" where
  "cl_Start c =
     (if Addr c = [] then (Err (ErrorString ''client should has any Server address''), c)
      else if \<not> has_Dial c then (Err (ErrorString ''client should has any dialer func''), c)
      else if \<not> has_Codec c then (Err (ErrorString ''client should has any codec''), c)
      else if cl_stopChan c \<noteq> SNil then (Err (ErrorString ''client already started''), c)
      else (case cp_doBeforeStart (cl_plugins c) (Addr c) (cl_world c) of
              (Some e, w) \<Rightarrow> (Err e, c\<lparr>cl_world := w\<rparr>)
            | (None, w) \<Rightarrow>
                (let c1 = (cl_defaults (c\<lparr>cl_world := w\<rparr>))\<lparr>cl_stopChan := SOpen\<rparr> in
                 case make_chan (PendingRequests c1) of
                   Some p \<Rightarrow> (Panic p, c1)
                 | None \<Rightarrow>
                     (let c2 = cl_run c1 in
                      case cp_doAfterStart (cl_plugins c2) (Addr c2) (cl_world c2) of
                        (Some e, w') \<Rightarrow> (Err e, c2\<lparr>cl_world := w'\<rparr>)
                      | (None, w') \<Rightarrow> (Ok (), c2\<lparr>cl_world := w'\<rparr>)))))"

text \<open>\<^verbatim>\<open>Stop\<close> up to the wait, which is \<open>Blocked\<close>, and from the wait on.\<close>

definition cl_Stop :: "'w client \<Rightarrow> unit res \<times> 'w client" where
  "cl_Stop c =
     (if cl_stopChan c = SNil then (Err (ErrorString ''client must be started before stopping it''), c)
      else (case cp_doBeforeStop (cl_plugins c) (Addr c) (cl_world c) of
              (Some e, w) \<Rightarrow> (Err e, c\<lparr>cl_world := w\<rparr>)
            | (None, w) \<Rightarrow>
                if cl_stopChan c = SClosed then (Panic ''close of closed channel'', c\<lparr>cl_world := w, cl_stopChan := SNil\<rparr>)
                else (Blocked, c\<lparr>cl_world := w, cl_stopChan := SClosed, stopping := StopWaiting\<rparr>)))"

definition cl_stopped :: "'w client \<Rightarrow> unit res \<times> 'w client" where
  "cl_stopped c =
     (case cp_doAfterStop (cl_plugins c) (Addr c) (cl_world c) of
        (e, w) \<Rightarrow> (res_of_err e, c\<lparr>cl_world := w, cl_stopChan := SNil, stopping := StopIdle\<rparr>))"

section \<open>The goroutines\<close>

definition set_dialer :: "nat \<Rightarrow> dialer_pc \<Rightarrow> 'w client \<Rightarrow> 'w client" where
  "set_dialer i pc c = c\<lparr>dialers := (dialers c)[i := pc]\<rparr>"

text \<open>The result of a dial before the plugins see it; the connection is a reference the plugins get.\<close>

definition dialed :: "nat \<Rightarrow> go_error option \<Rightarrow> 'w client \<Rightarrow> 'w client" where
  "dialed i e c =
     (case cp_doDialServer (cl_plugins c) (Addr c, if e = None then Some i else None, e) (cl_world c) of
        (p, w) \<Rightarrow> set_dialer i (if e = None \<and> p = None then LConn else LBackoff) (c\<lparr>cl_world := w\<rparr>))"

definition connected :: "nat \<Rightarrow> 'w client \<Rightarrow> 'w client" where
  "connected i c =
     (case cp_doConnected (cl_plugins c) (Addr c, Some i) (cl_world c) of
        (Some e, w) \<Rightarrow> set_dialer i LAfter (c\<lparr>cl_world := w\<rparr>)
      | (None, w) \<Rightarrow> set_dialer i LServe (c\<lparr>cl_world := w\<rparr>))"

definition disconnected :: "nat \<Rightarrow> go_error option \<Rightarrow> 'w client \<Rightarrow> 'w client" where
  "disconnected i e c =
     (case cp_doDisconnected (cl_plugins c) (Addr c, e) (cl_world c) of
        (p, w) \<Rightarrow> set_dialer i LAfter (c\<lparr>cl_world := w, closed := closed c + 1\<rparr>))"

inductive lstep :: "'w client \<Rightarrow> 'w client \<Rightarrow> bool" where
  l_start: "stopping c = StopIdle \<Longrightarrow> lstep c (snd (cl_Start c))"
| l_stop: "stopping c = StopIdle \<Longrightarrow> lstep c (snd (cl_Stop c))"
| l_stopped: "stopping c = StopWaiting \<Longrightarrow> \<forall>d\<in>set (dialers c). d = LGone \<Longrightarrow> lstep c (snd (cl_stopped c))"
| l_dial: "i < length (dialers c) \<Longrightarrow> dialers c ! i = LDial Dialing \<Longrightarrow>
    lstep c (set_dialer i (LDial (Dialed e)) (c\<lparr>opened := opened c + (if e = None then 1 else 0)\<rparr>))"
| l_late_dial: "i < length (dialers c) \<Longrightarrow> dialers c ! i = LStopDial Dialing \<Longrightarrow>
    lstep c (set_dialer i (LStopDial (Dialed e)) (c\<lparr>opened := opened c + (if e = None then 1 else 0)\<rparr>))"
| l_stop_dial: "i < length (dialers c) \<Longrightarrow> dialers c ! i = LDial d \<Longrightarrow> cl_stopChan c = SClosed \<Longrightarrow>
    lstep c (set_dialer i (LStopDial d) c)"
| l_stop_dialed: "i < length (dialers c) \<Longrightarrow> dialers c ! i = LStopDial (Dialed e) \<Longrightarrow> lstep c (set_dialer i LGone c)"
| l_dialed: "i < length (dialers c) \<Longrightarrow> dialers c ! i = LDial (Dialed e) \<Longrightarrow> lstep c (dialed i e c)"
| l_connected: "i < length (dialers c) \<Longrightarrow> dialers c ! i = LConn \<Longrightarrow> lstep c (connected i c)"
| l_disconnected: "i < length (dialers c) \<Longrightarrow> dialers c ! i = LServe \<Longrightarrow> lstep c (disconnected i e c)"
| l_after: "i < length (dialers c) \<Longrightarrow> dialers c ! i = LAfter \<Longrightarrow>
    lstep c (set_dialer i (if cl_stopChan c = SClosed then LGone else LDial Dialing) c)"
| l_backoff_stop: "i < length (dialers c) \<Longrightarrow> dialers c ! i = LBackoff \<Longrightarrow> cl_stopChan c = SClosed \<Longrightarrow>
    lstep c (set_dialer i LGone c)"
| l_backoff: "i < length (dialers c) \<Longrightarrow> dialers c ! i = LBackoff \<Longrightarrow> lstep c (set_dialer i (LDial Dialing) c)"

definition cl_init :: "'w client \<Rightarrow> bool" where
  "cl_init c \<longleftrightarrow> cl_stopChan c = SNil \<and> stopping c = StopIdle \<and> dialers c = [] \<and> opened c = 0 \<and> closed c = 0"

section \<open>The invariant\<close>

text \<open>
  \<^verbatim>\<open>Stop\<close> waits exactly while the channel is closed; without a channel no goroutine runs; there
  are as many goroutines as connections configured; no connection is closed that was not opened.
\<close>

fun holds_conn :: "dialer_pc \<Rightarrow> bool" where
  "holds_conn (LDial (Dialed None)) = True"
| "holds_conn LConn = True"
| "holds_conn LServe = True"
| "holds_conn _ = False"

definition cl_inv :: "'w client \<Rightarrow> bool" where
  "cl_inv c \<longleftrightarrow> (cl_stopChan c = SClosed \<longleftrightarrow> stopping c = StopWaiting)
     \<and> (cl_stopChan c = SNil \<longrightarrow> (\<forall>d\<in>set (dialers c). d = LGone))
     \<and> (dialers c = [] \<or> length (dialers c) = nat (Connections c))
     \<and> closed c + length (filter holds_conn (dialers c)) \<le> opened c"

lemma cl_init_inv: "cl_init c \<Longrightarrow> cl_inv c"
  by (simp add: cl_init_def cl_inv_def)

lemma set_dialer_inv:
  assumes "cl_inv c" "i < length (dialers c)" "dialers c ! i \<noteq> LGone"
    and "cl_stopChan d = cl_stopChan c" "stopping d = stopping c" "dialers d = dialers c" "Connections d = Connections c"
    and "closed d + (if holds_conn pc then 1 else 0) + opened c
      \<le> closed c + (if holds_conn (dialers c ! i) then 1 else 0) + opened d"
  shows "cl_inv (set_dialer i pc d)"
proof -
  have "cl_stopChan c \<noteq> SNil"
    using assms(1-3) by (auto simp: cl_inv_def)
  then show ?thesis
    using assms length_filter_update [OF assms(2), of holds_conn pc] by (auto simp: cl_inv_def set_dialer_def)
qed

lemma cl_inv_world [simp]: "cl_inv (c\<lparr>cl_world := w\<rparr>) = cl_inv c"
  by (simp add: cl_inv_def)

lemma cl_inv_refused_start:
  "cl_inv c \<Longrightarrow> cl_stopChan c = SNil \<Longrightarrow> cl_inv ((cl_defaults (c\<lparr>cl_world := w\<rparr>))\<lparr>cl_stopChan := SOpen\<rparr>)"
  by (auto simp: cl_inv_def cl_defaults_def)

lemma cl_inv_run:
  "cl_inv c \<Longrightarrow> cl_stopChan c = SNil \<Longrightarrow>
    cl_inv (cl_run ((cl_defaults (c\<lparr>cl_world := w\<rparr>))\<lparr>cl_stopChan := SOpen\<rparr>))"
  by (auto simp: cl_inv_def cl_defaults_def cl_run_def)

lemma cl_inv_start: "cl_inv c \<Longrightarrow> cl_inv (snd (cl_Start c))"
  unfolding cl_Start_def Let_def
  by (auto split: prod.splits option.splits intro: cl_inv_refused_start cl_inv_run)

lemma cl_inv_stop: "cl_inv c \<Longrightarrow> stopping c = StopIdle \<Longrightarrow> cl_inv (snd (cl_Stop c))"
  by (auto simp: cl_Stop_def cl_inv_def split: prod.splits option.splits)

lemma cl_inv_stopped:
  "cl_inv c \<Longrightarrow> stopping c = StopWaiting \<Longrightarrow> \<forall>d\<in>set (dialers c). d = LGone \<Longrightarrow> cl_inv (snd (cl_stopped c))"
  by (auto simp: cl_stopped_def cl_inv_def split: prod.splits)

lemma dialed_cases:
  obtains w pc where "dialed i e c = set_dialer i pc (c\<lparr>cl_world := w\<rparr>)" "pc = LBackoff \<or> pc = LConn \<and> e = None"
  by (cases "cp_doDialServer (cl_plugins c) (Addr c, if e = None then Some i else None, e) (cl_world c)")
    (auto simp: dialed_def split: if_splits)

lemma connected_cases:
  obtains w pc where "connected i c = set_dialer i pc (c\<lparr>cl_world := w\<rparr>)" "pc = LAfter \<or> pc = LServe"
proof (cases "cp_doConnected (cl_plugins c) (Addr c, Some i) (cl_world c)")
  case (Pair e w)
  then show ?thesis
    by (cases e) (auto simp: connected_def intro: that)
qed

lemma disconnected_cases:
  obtains w where "disconnected i e c = set_dialer i LAfter (c\<lparr>cl_world := w, closed := closed c + 1\<rparr>)"
  by (cases "cp_doDisconnected (cl_plugins c) (Addr c, e) (cl_world c)") (auto simp: disconnected_def)

lemma lstep_inv:
  assumes inv: "cl_inv c" and step: "lstep c d"
  shows "cl_inv d"
  using step
proof cases
  case l_start
  with inv show ?thesis by (simp add: cl_inv_start)
next
  case l_stop
  with inv show ?thesis by (simp add: cl_inv_stop)
next
  case l_stopped
  with inv show ?thesis by (simp add: cl_inv_stopped)
next
  case (l_dialed i e)
  then show ?thesis
    by (cases rule: dialed_cases [of i e c]) (auto intro!: set_dialer_inv [OF inv])
next
  case (l_connected i)
  then show ?thesis
    by (cases rule: connected_cases [of i c]) (auto intro!: set_dialer_inv [OF inv])
next
  case (l_disconnected i e)
  then show ?thesis
    by (cases rule: disconnected_cases [of i e c]) (auto intro!: set_dialer_inv [OF inv])
next
  case (l_stop_dial i x)
  then show ?thesis
    by (cases x) (auto intro!: set_dialer_inv [OF inv])
qed (auto intro!: set_dialer_inv [OF inv])

interpretation client_life: machine_invariant cl_init lstep cl_inv
  by unfold_locales (fact cl_init_inv, fact lstep_inv)

section \<open>Stop returns\<close>

definition cl_closing :: "'w client \<Rightarrow> bool" where
  "cl_closing c \<longleftrightarrow> cl_stopChan c = SClosed \<and> stopping c = StopWaiting"

definition ends :: "nat \<Rightarrow> 'w client \<Rightarrow> bool" where
  "ends i c \<longleftrightarrow> (\<exists>t. lstep\<^sup>*\<^sup>* c t \<and> cl_closing t \<and> dialers t = (dialers c)[i := LGone])"

lemma ends_step: "lstep c d \<Longrightarrow> dialers d = (dialers c)[i := pc] \<Longrightarrow> ends i d \<Longrightarrow> ends i c"
  unfolding ends_def by (metis converse_rtranclp_into_rtranclp list_update_overwrite)

lemma ends_at:
  "lstep c d \<Longrightarrow> dialers d = (dialers c)[i := LGone] \<Longrightarrow> cl_closing d \<Longrightarrow> ends i c"
  unfolding ends_def by blast

lemma set_dialer_simps [simp]:
  "cl_closing (set_dialer i pc c) = cl_closing c" "dialers (set_dialer i pc c) = (dialers c)[i := pc]"
  "cl_stopChan (set_dialer i pc c) = cl_stopChan c"
  "cl_closing (c\<lparr>cl_world := w\<rparr>) = cl_closing c" "cl_closing (c\<lparr>opened := n\<rparr>) = cl_closing c"
  "cl_closing (c\<lparr>cl_world := w, closed := n\<rparr>) = cl_closing c"
  by (simp_all add: set_dialer_def cl_closing_def)

lemma closing_chan: "cl_closing c \<Longrightarrow> cl_stopChan c = SClosed"
  by (simp add: cl_closing_def)

lemma end_backoff: "i < length (dialers c) \<Longrightarrow> cl_closing c \<Longrightarrow> dialers c ! i = LBackoff \<Longrightarrow> ends i c"
  by (rule ends_at [OF lstep.l_backoff_stop [of i c]]) (simp_all add: closing_chan)

lemma end_after: "i < length (dialers c) \<Longrightarrow> cl_closing c \<Longrightarrow> dialers c ! i = LAfter \<Longrightarrow> ends i c"
  by (rule ends_at [OF lstep.l_after [of i c]]) (simp_all add: closing_chan)

lemma end_serve:
  assumes "i < length (dialers c)" "cl_closing c" "dialers c ! i = LServe"
  shows "ends i c"
proof (cases rule: disconnected_cases [of i None c])
  case (1 w)
  then have "ends i (disconnected i None c)"
    using assms by (intro end_after) simp_all
  with 1 ends_step [OF lstep.l_disconnected [OF assms(1,3)], of None i LAfter] show ?thesis
    by simp
qed

lemma end_conn:
  assumes "i < length (dialers c)" "cl_closing c" "dialers c ! i = LConn"
  shows "ends i c"
proof (cases rule: connected_cases [of i c])
  case (1 w pc)
  have "ends i (connected i c)"
    using 1 assms by (auto intro: end_after end_serve)
  with 1 ends_step [OF lstep.l_connected [OF assms(1,3)], of i pc] show ?thesis
    by simp
qed

lemma end_stop_dialed: "i < length (dialers c) \<Longrightarrow> cl_closing c \<Longrightarrow> dialers c ! i = LStopDial (Dialed e) \<Longrightarrow> ends i c"
  by (rule ends_at [OF lstep.l_stop_dialed [of i c e]]) simp_all

lemma end_stop_dial: "i < length (dialers c) \<Longrightarrow> cl_closing c \<Longrightarrow> dialers c ! i = LStopDial d \<Longrightarrow> ends i c"
proof (cases d)
  case Dialing
  assume *: "i < length (dialers c)" "cl_closing c" "dialers c ! i = LStopDial d"
  with Dialing show ?thesis
    by (intro ends_step [OF lstep.l_late_dial [of i c None], of i "LStopDial (Dialed None)"])
      (simp_all add: end_stop_dialed)
qed (simp add: end_stop_dialed)

lemma end_dial: "i < length (dialers c) \<Longrightarrow> cl_closing c \<Longrightarrow> dialers c ! i = LDial d \<Longrightarrow> ends i c"
  by (rule ends_step [OF lstep.l_stop_dial [of i c d], of i "LStopDial d"])
    (simp_all add: closing_chan end_stop_dial)

interpretation client_stop: stoppable lstep dialers "\<lambda>d. d = LGone" cl_closing
proof
  fix c :: "'w client" and i
  assume "cl_closing c" "i < length (dialers c)" "dialers c ! i \<noteq> LGone"
  then have "ends i c"
    using end_dial end_stop_dial end_conn end_serve end_after end_backoff
    by (cases "dialers c ! i") blast+
  then show "\<exists>t p. lstep\<^sup>*\<^sup>* c t \<and> cl_closing t \<and> dialers t = (dialers c)[i := p] \<and> p = LGone"
    unfolding ends_def by blast
qed

lemma client_stop_returns:
  assumes "cl_closing c"
  shows "\<exists>t. lstep\<^sup>*\<^sup>* c t \<and> cl_stopChan t = SNil \<and> stopping t = StopIdle \<and> (\<forall>d\<in>set (dialers t). d = LGone)"
proof -
  obtain u where u: "lstep\<^sup>*\<^sup>* c u" "cl_closing u" "\<forall>d\<in>set (dialers u). d = LGone"
    using client_stop.all_end [OF assms] by blast
  then have "lstep u (snd (cl_stopped u))"
    by (intro lstep.l_stopped) (simp_all add: cl_closing_def)
  moreover have "cl_stopChan (snd (cl_stopped u)) = SNil" "stopping (snd (cl_stopped u)) = StopIdle"
      "dialers (snd (cl_stopped u)) = dialers u"
    by (simp_all add: cl_stopped_def split: prod.splits)
  ultimately show ?thesis
    using u by (metis rtranclp.rtrancl_into_rtrancl)
qed

section \<open>Start\<close>

text \<open>What the plugins and the configuration say of a start.\<close>

definition cl_startable :: "'w client \<Rightarrow> bool" where
  "cl_startable c \<longleftrightarrow> Addr c \<noteq> [] \<and> has_Dial c \<and> has_Codec c \<and> cl_stopChan c = SNil"

lemma cl_Start_startable:
  assumes "cl_startable c" "cp_doBeforeStart (cl_plugins c) (Addr c) (cl_world c) = (None, w)"
    and "0 \<le> PendingRequests c" "cp_doAfterStart (cl_plugins c) (Addr c) w = (e, w')"
  shows "cl_Start c = (res_of_err e,
    (cl_run ((cl_defaults c)\<lparr>cl_stopChan := SOpen\<rparr>))\<lparr>cl_world := w'\<rparr>)"
proof -
  have pos: "make_chan (PendingRequests (cl_defaults (c\<lparr>cl_world := w\<rparr>))) = None"
    using assms(3) by (simp add: make_chan_def cl_defaults_def DefaultPendingRequests_def)
  have same: "cl_plugins (cl_run ((cl_defaults (c\<lparr>cl_world := w\<rparr>))\<lparr>cl_stopChan := SOpen\<rparr>)) = cl_plugins c"
      "Addr (cl_run ((cl_defaults (c\<lparr>cl_world := w\<rparr>))\<lparr>cl_stopChan := SOpen\<rparr>)) = Addr c"
      "cl_world (cl_run ((cl_defaults (c\<lparr>cl_world := w\<rparr>))\<lparr>cl_stopChan := SOpen\<rparr>)) = w"
      "(cl_run ((cl_defaults (c\<lparr>cl_world := w\<rparr>))\<lparr>cl_stopChan := SOpen\<rparr>))\<lparr>cl_world := w'\<rparr>
        = (cl_run ((cl_defaults c)\<lparr>cl_stopChan := SOpen\<rparr>))\<lparr>cl_world := w'\<rparr>"
    by (simp_all add: cl_run_def cl_defaults_def)
  have "cl_Start c = (case cp_doAfterStart (cl_plugins c) (Addr c) w of
      (Some e, w') \<Rightarrow> (Err e, (cl_run ((cl_defaults (c\<lparr>cl_world := w\<rparr>))\<lparr>cl_stopChan := SOpen\<rparr>))\<lparr>cl_world := w'\<rparr>)
    | (None, w') \<Rightarrow> (Ok (), (cl_run ((cl_defaults (c\<lparr>cl_world := w\<rparr>))\<lparr>cl_stopChan := SOpen\<rparr>))\<lparr>cl_world := w'\<rparr>))"
    using assms(1,2) pos same(1-3) by (simp add: cl_Start_def cl_startable_def Let_def)
  with assms(4) same(4) show ?thesis
    by (cases e) simp_all
qed

section \<open>A run\<close>

definition client0 :: "unit client" where
  "client0 = \<lparr>Addr = ''host:80'', has_Dial = True, has_Codec = True, Connections = 0, PendingRequests = 0,
     RequestBufSize = 0, cl_plugins = no_client_plugins, cl_stopChan = SNil, requestsChan = None, dialers = [],
     stopping = StopIdle, cl_world = (), opened = 0, closed = 0\<rparr>"

lemma client0_hooks [simp]:
  "cp_doBeforeStart no_client_plugins a w = (None, w)" "cp_doAfterStart no_client_plugins a w = (None, w)"
  "cp_doBeforeStop no_client_plugins a w = (None, w)" "cp_doAfterStop no_client_plugins a w = (None, w)"
  by (simp_all add: cBeforeStart.fire_none cAfterStart.fire_none cBeforeStop.fire_none cAfterStop.fire_none)

definition client_running :: "unit client" where
  "client_running = client0\<lparr>Connections := 1, PendingRequests := 32768, RequestBufSize := 1024,
     cl_stopChan := SOpen, requestsChan := Some 32768, dialers := [LDial Dialing]\<rparr>"

definition client_closing :: "unit client" where
  "client_closing = client_running\<lparr>cl_stopChan := SClosed, stopping := StopWaiting\<rparr>"

lemma client_running_reaches: "reaches cl_init lstep client_running"
proof (rule reaches_step [OF reaches_init])
  show "cl_init client0"
    by (simp add: cl_init_def client0_def)
  have "cl_Start client0 = (Ok (), client_running)"
    by (simp add: cl_Start_startable [where w = "()" and e = None] cl_startable_def client0_def client_running_def
        cl_run_def cl_defaults_def DefaultConnections_def DefaultPendingRequests_def DefaultRequestBufSize_def)
  then show "lstep client0 client_running"
    using lstep.l_start [of client0] by (simp add: client0_def)
qed

lemma client_closing_reaches: "reaches cl_init lstep client_closing"
proof (rule reaches_step [OF client_running_reaches])
  have "cl_Stop client_running = (Blocked, client_closing)"
    by (simp add: cl_Stop_def client_closing_def client_running_def client0_def)
  then show "lstep client_running client_closing"
    using lstep.l_stop [of client_running] by (simp add: client_running_def client0_def)
qed

section \<open>Properties\<close>

text \<open>Starting a client that is configured and not started: when the hooks before the start
  accept it, it gets the defaults for the fields that are 0, an open stop channel, a queue of the
  configured capacity and a goroutine per connection; the outcome is that of the hooks after
  the start, whose error leaves the client running.\<close>

lemma client_start:
  assumes "cl_startable c" "cp_doBeforeStart (cl_plugins c) (Addr c) (cl_world c) = (None, w)"
    and "0 \<le> PendingRequests c" "cp_doAfterStart (cl_plugins c) (Addr c) w = (e, w')"
  shows "fst (cl_Start c) = res_of_err e \<and> cl_stopChan (snd (cl_Start c)) = SOpen
    \<and> dialers (snd (cl_Start c)) = replicate (nat (if Connections c = 0 then 1 else Connections c)) (LDial Dialing)
    \<and> requestsChan (snd (cl_Start c)) = Some (if PendingRequests c = 0 then 32768 else PendingRequests c)
    \<and> cl_world (snd (cl_Start c)) = w'"
  unfolding cl_Start_startable [OF assms]
  by (simp add: cl_run_def cl_defaults_def DefaultConnections_def DefaultPendingRequests_def)

lemma client_start_witness:
  "fst (cl_Start client0) = Ok () \<and> dialers (snd (cl_Start client0)) = [LDial Dialing]"
  using client_start [of client0 "()" None "()"] by (simp add: cl_startable_def client0_def)



text \<open>\<^verbatim>\<open>Stop\<close> returns: from every reachable state in which it waits, whatever its goroutines are
  doing, dialling, connected or backing off, they can end, and the client is then as if it had
  not been started, with its channel gone, so that it can be started again.\<close>

lemma client_stop_ends:
  assumes "reaches cl_init lstep c" "stopping c = StopWaiting"
  shows "\<exists>t. lstep\<^sup>*\<^sup>* c t \<and> cl_stopChan t = SNil \<and> stopping t = StopIdle \<and> (\<forall>d\<in>set (dialers t). d = LGone)"
proof -
  have "cl_closing c"
    using client_life.reaches_inv [OF assms(1)] assms(2) by (simp add: cl_inv_def cl_closing_def)
  then show ?thesis
    by (rule client_stop_returns)
qed

lemma client_stop_ends_witness:
  "\<exists>t. lstep\<^sup>*\<^sup>* client_closing t \<and> cl_stopChan t = SNil \<and> stopping t = StopIdle \<and> (\<forall>d\<in>set (dialers t). d = LGone)"
  by (rule client_stop_ends [OF client_closing_reaches]) (simp add: client_closing_def)

text \<open>A connection whose dial succeeds after the stop is never closed: the goroutine waits for
  the dial to finish and returns without looking at its result.\<close>

lemma late_dial_leaks:
  "\<exists>c. reaches cl_init (lstep :: unit client \<Rightarrow> unit client \<Rightarrow> bool) c \<and> cl_stopChan c = SNil
    \<and> dialers c = [LGone] \<and> opened c = 1 \<and> closed c = 0"
proof -
  let ?d = "client_closing"
  let ?c1 = "set_dialer 0 (LStopDial Dialing) ?d"
  let ?c2 = "set_dialer 0 (LStopDial (Dialed None)) (?c1\<lparr>opened := 1\<rparr>)"
  let ?c3 = "set_dialer 0 LGone ?c2"
  have one: "dialers ?d = [LDial Dialing]" "opened ?d = 0" "closed ?d = 0" "cl_stopChan ?d = SClosed"
      "stopping ?d = StopWaiting" "cl_plugins ?d = no_client_plugins"
    by (simp_all add: client_closing_def client_running_def client0_def)
  have "lstep ?d ?c1"
    using one by (intro lstep.l_stop_dial [of 0 _ Dialing]) simp_all
  moreover have "lstep ?c1 ?c2"
    using lstep.l_late_dial [of 0 ?c1 None] one by (simp add: set_dialer_def)
  moreover have "lstep ?c2 ?c3"
    using one by (intro lstep.l_stop_dialed [of 0 _ None]) (simp_all add: set_dialer_def)
  moreover have "lstep ?c3 (snd (cl_stopped ?c3))"
    using one by (intro lstep.l_stopped) (simp_all add: set_dialer_def)
  ultimately have "reaches cl_init lstep (snd (cl_stopped ?c3))"
    using client_closing_reaches by (meson reaches_step)
  then show ?thesis
    using one by (intro exI [of _ "snd (cl_stopped ?c3)"]) (simp add: cl_stopped_def set_dialer_def)
qed

end
