(* ===== verification/Client_Whole.thy ===== *)
theory Client_Whole
  imports Client_Life Client_Conn_Live
begin

text \<open>
  A client with one connection at a time (the default) as a whole: the lifecycle of \<open>Client_Life\<close>
  and the connection of \<open>Client_Conn\<close> joined, across reconnections, stops and starts. The phase the
  lifecycle has for a connection is here a run of the connection's machine; both see the same
  stop channel. The queue of requests, the pool of request objects and the counter belong to the
  client and outlive a connection; the table, the ids and the two goroutines do not. \<^verbatim>\<open>Start\<close> makes
  a new queue: what was still in the old one is \<open>stranded\<close>, with the callers that wait for it.
\<close>

section \<open>State\<close>

record ('v, 'w) whole =
  life :: "'w client"
  conn :: "'v conn_state"
  stranded :: "('v client_request \<times> caller_pc) list"

definition env_of :: "nat \<Rightarrow> 'v codec \<Rightarrow> 'w client \<Rightarrow> 'v conn_env" where
  "env_of lim cd c = \<lparr>env_lim = lim, env_codec = cd, env_max = nat (PendingRequests c), env_addr = Addr c\<rparr>"

definition serving :: "'w client \<Rightarrow> bool" where
  "serving c \<longleftrightarrow> LServe \<in> set (dialers c)"

section \<open>Steps\<close>

text \<open>The variables of \<^verbatim>\<open>handleConnection\<close> and its goroutines, for a connection just made.\<close>

definition new_conn :: "reader \<Rightarrow> writer \<Rightarrow> bool \<Rightarrow> 'v conn_state \<Rightarrow> 'v conn_state" where
  "new_conn rd out stopped s =
     s\<lparr>pending := [], nextId := 0, wpc := WIdle, rpc := RIdle, hpc := HWait, incoming := rd, outgoing := out,
       connStop := False, clientStop := stopped\<rparr>"

text \<open>
  \<^verbatim>\<open>Start\<close> replaces the channel of requests once nothing refuses it. The requests in the old one
  are then known to their callers alone; their names are free for new objects.
\<close>

definition new_queue :: "('v, 'w) whole \<Rightarrow> ('v, 'w) whole" where
  "new_queue w =
     (let s = conn w in
      w\<lparr>conn := s\<lparr>queue := [], callers := (\<lambda>q. if q \<in> set (queue s) then CNone else callers s q)\<rparr>,
        stranded := stranded w @ List.map (\<lambda>q. (reqs s q, callers s q)) (queue s)\<rparr>)"

definition makes_queue :: "'w client \<Rightarrow> 'w client \<Rightarrow> bool" where
  "makes_queue c c' \<longleftrightarrow> cl_stopChan c = SNil \<and> cl_stopChan c' = SOpen \<and> make_chan (PendingRequests c') = None"

definition whole_Start :: "('v, 'w) whole \<Rightarrow> ('v, 'w) whole" where
  "whole_Start w =
     (let c = snd (cl_Start (life w)) in
      if makes_queue (life w) c then new_queue (w\<lparr>life := c\<rparr>) else w\<lparr>life := c\<rparr>)"

definition whole_Stop :: "('v, 'w) whole \<Rightarrow> ('v, 'w) whole" where
  "whole_Stop w =
     (let c = snd (cl_Stop (life w)) in
      w\<lparr>life := c, conn := (conn w)\<lparr>clientStop := (cl_stopChan c = SClosed)\<rparr>\<rparr>)"

definition whole_connected :: "nat \<Rightarrow> reader \<Rightarrow> writer \<Rightarrow> ('v, 'w) whole \<Rightarrow> ('v, 'w) whole" where
  "whole_connected i rd out w =
     (let c = connected i (life w) in
      w\<lparr>life := c, conn := (if serving c then new_conn rd out (cl_stopChan c = SClosed) (conn w) else conn w)\<rparr>)"

text \<open>A step of a goroutine that dials, waits or ends.\<close>

definition between_conns :: "'w client \<Rightarrow> 'w client \<Rightarrow> bool" where
  "between_conns c c' \<longleftrightarrow> lstep c c' \<and> cl_stopChan c' = cl_stopChan c \<and> stopping c' = stopping c
     \<and> \<not> serving c \<and> \<not> serving c'"

text \<open>The steps a caller can still take whose request is in a channel nobody receives from.\<close>

inductive strand_step :: "'v client_request \<times> caller_pc \<Rightarrow> 'v client_request \<times> caller_pc \<Rightarrow> bool" where
  x_cancel: "strand_step (r, CWait) (r\<lparr>cr_err := Some e\<rparr>, CReturning)"
| x_done: "done_ready (cr_done r) \<Longrightarrow> strand_step (r, CWait) (r\<lparr>cr_done := done_drain (cr_done r)\<rparr>, CReturning)"
| x_return: "strand_step (r, CReturning) (r, CReturned (cr_err r))"

text \<open>Before the first \<^verbatim>\<open>Start\<close> the channel of requests is \<^verbatim>\<open>nil\<close> and a send on it blocks.\<close>

inductive wstep :: "nat \<Rightarrow> 'v codec \<Rightarrow> ('v, 'w) whole \<Rightarrow> ('v, 'w) whole \<Rightarrow> bool" for lim cd where
  w_conn: "cstep (env_of lim cd (life w)) (conn w) s \<Longrightarrow> clientStop s = clientStop (conn w) \<Longrightarrow>
    (requestsChan (life w) = None \<Longrightarrow> queue s = queue (conn w)) \<Longrightarrow> wstep lim cd w (w\<lparr>conn := s\<rparr>)"
| w_start: "stopping (life w) = StopIdle \<Longrightarrow> wstep lim cd w (whole_Start w)"
| w_stop: "stopping (life w) = StopIdle \<Longrightarrow> wstep lim cd w (whole_Stop w)"
| w_stopped: "stopping (life w) = StopWaiting \<Longrightarrow> \<forall>d\<in>set (dialers (life w)). d = LGone \<Longrightarrow>
    wstep lim cd w (w\<lparr>life := snd (cl_stopped (life w))\<rparr>)"
| w_dialer: "between_conns (life w) c \<Longrightarrow> wstep lim cd w (w\<lparr>life := c\<rparr>)"
| w_connected: "i < length (dialers (life w)) \<Longrightarrow> dialers (life w) ! i = LConn \<Longrightarrow> wr_out out = [] \<Longrightarrow>
    wstep lim cd w (whole_connected i rd out w)"
| w_disconnected: "i < length (dialers (life w)) \<Longrightarrow> dialers (life w) ! i = LServe \<Longrightarrow> hpc (conn w) = HDone e \<Longrightarrow>
    wstep lim cd w (w\<lparr>life := disconnected i e (life w)\<rparr>)"
| w_stranded: "i < length (stranded w) \<Longrightarrow> strand_step (stranded w ! i) x \<Longrightarrow>
    wstep lim cd w (w\<lparr>stranded := (stranded w)[i := x]\<rparr>)"

definition no_conn :: "'v conn_state \<Rightarrow> bool" where
  "no_conn s \<longleftrightarrow> queue s = [] \<and> pending s = [] \<and> reqCount s = 0 \<and> pool s = [] \<and> wpc s = WGone \<and> rpc s = RGone
     \<and> hpc s = HDone None \<and> callers s = (\<lambda>_. CNone) \<and> connStop s"

definition whole_init :: "('v, 'w) whole \<Rightarrow> bool" where
  "whole_init w \<longleftrightarrow> cl_init (life w) \<and> Connections (life w) \<in> {0, 1} \<and> requestsChan (life w) = None
     \<and> 0 \<le> PendingRequests (life w) \<and> PendingRequests (life w) < 2 ^ 63 \<and> no_conn (conn w) \<and> stranded w = []"

section \<open>The invariant\<close>

text \<open>
  The connection's machine is at rest while no connection is served, and has the stop channel's
  state while one is; a stranded request has not been signalled.
\<close>

definition config_ok :: "'w client \<Rightarrow> bool" where
  "config_ok c \<longleftrightarrow> Connections c \<in> {0, 1} \<and> length (dialers c) \<le> 1 \<and> (requestsChan c = None \<longrightarrow> dialers c = [])
     \<and> 0 \<le> PendingRequests c \<and> PendingRequests c < 2 ^ 63"

definition phase_agrees :: "'w client \<Rightarrow> 'v conn_state \<Rightarrow> bool" where
  "phase_agrees c s \<longleftrightarrow> (if serving c then clientStop s = (cl_stopChan c = SClosed) else (\<exists>e. hpc s = HDone e))"

definition whole_inv :: "nat \<Rightarrow> 'v codec \<Rightarrow> ('v, 'w) whole \<Rightarrow> bool" where
  "whole_inv lim cd w \<longleftrightarrow> cl_inv (life w) \<and> config_ok (life w) \<and> conn_inv (env_of lim cd (life w)) (conn w)
     \<and> phase_agrees (life w) (conn w) \<and> (\<forall>x\<in>set (stranded w). cr_done (fst x) = DoneEmpty)"

lemma env_of_max [simp]: "env_max (env_of lim cd c) = nat (PendingRequests c)"
  by (simp add: env_of_def)

lemma conn_ok_whole: "whole_inv lim cd w \<Longrightarrow> conn_ok (env_of lim cd (life w)) (conn w)"
  by (auto simp: whole_inv_def conn_ok_def config_ok_def)

text \<open>The configuration matters to the invariant of a connection only as the bound of its table.\<close>

lemma conn_inv_env:
  "conn_inv env s \<Longrightarrow> env_max env \<le> env_max env' \<Longrightarrow> conn_inv env' s"
  by (auto simp: conn_inv_def inv_table_def)

lemma at_rest_fields: "conn_inv env s \<Longrightarrow> hpc s = HDone e \<Longrightarrow> rpc s = RGone \<and> wpc s = WGone \<and> pending s = []"
  by (simp add: conn_inv_def inv_phase_def)

lemma at_rest_stays: "cstep env s t \<Longrightarrow> conn_inv env s \<Longrightarrow> hpc s = HDone e \<Longrightarrow> hpc t = HDone e"
  by (frule (1) at_rest_fields) (auto elim!: cstep.cases)

lemmas conn_inv_parts = conn_inv_def inv_objects_def in_flight_def inv_table_def writer_active_def inv_waiting_def
  on_the_way_def inv_phase_def

lemma new_conn_inv:
  assumes inv: "conn_inv env s" and h: "hpc s = HDone e"
  shows "conn_inv env (new_conn rd out stopped s)"
proof -
  note rest = at_rest_fields [OF inv h]
  from inv rest h show ?thesis
    by (simp add: conn_inv_parts new_conn_def skips_def)
qed

lemma new_queue_inv:
  assumes inv: "conn_inv env s" and h: "hpc s = HDone e"
  shows "conn_inv env (s\<lparr>queue := [], callers := (\<lambda>q. if q \<in> set (queue s) then CNone else callers s q)\<rparr>)"
proof -
  note rest = at_rest_fields [OF inv h]
  from inv rest h show ?thesis
    by (auto simp: conn_inv_parts)
qed

lemma no_conn_inv: "no_conn s \<Longrightarrow> conn_inv env s"
  by (simp add: no_conn_def conn_inv_parts)

section \<open>Every step keeps the invariant\<close>

lemma serving_set_dialer: "serving (set_dialer i pc c) \<Longrightarrow> i < length (dialers c) \<Longrightarrow> length (dialers c) \<le> 1 \<Longrightarrow> pc = LServe"
  by (cases "dialers c") (auto simp: serving_def set_dialer_def)

lemma serving_at: "i < length (dialers c) \<Longrightarrow> length (dialers c) \<le> 1 \<Longrightarrow> serving c \<longleftrightarrow> dialers c ! i = LServe"
  by (cases "dialers c") (auto simp: serving_def)

lemma not_serving_gone: "\<forall>d\<in>set (dialers c). d = LGone \<Longrightarrow> \<not> serving c"
  by (auto simp: serving_def)

lemma config_world [simp]: "config_ok (c\<lparr>cl_world := w\<rparr>) = config_ok c"
  by (simp add: config_ok_def)

lemma config_run: "config_ok c \<Longrightarrow> config_ok ((cl_defaults c)\<lparr>cl_stopChan := x\<rparr>) \<and> config_ok (cl_run ((cl_defaults c)\<lparr>cl_stopChan := x\<rparr>))"
  by (auto simp: config_ok_def cl_run_def cl_defaults_def DefaultConnections_def DefaultPendingRequests_def)

lemma config_Start: "config_ok c \<Longrightarrow> config_ok (snd (cl_Start c))"
  using config_run [of "c\<lparr>cl_world := w\<rparr>" SOpen for w]
  by (auto simp: cl_Start_def Let_def split: prod.splits option.splits)

lemma config_frame: "config_ok c \<Longrightarrow> dialers c' = dialers c \<Longrightarrow> Connections c' = Connections c \<Longrightarrow>
    PendingRequests c' = PendingRequests c \<Longrightarrow> requestsChan c' = requestsChan c \<Longrightarrow> config_ok c'"
  by (simp add: config_ok_def)

lemma Stop_frame: "dialers (snd (cl_Stop c)) = dialers c" "Connections (snd (cl_Stop c)) = Connections c"
  "PendingRequests (snd (cl_Stop c)) = PendingRequests c" "requestsChan (snd (cl_Stop c)) = requestsChan c"
  by (simp_all add: cl_Stop_def split: prod.splits option.splits)

lemma stopped_frame: "dialers (snd (cl_stopped c)) = dialers c" "Connections (snd (cl_stopped c)) = Connections c"
  "PendingRequests (snd (cl_stopped c)) = PendingRequests c" "requestsChan (snd (cl_stopped c)) = requestsChan c"
  by (simp_all add: cl_stopped_def split: prod.splits)

lemma Start_pending_cases: "PendingRequests (snd (cl_Start c)) = PendingRequests c \<or> PendingRequests c = 0"
  by (auto simp: cl_Start_def Let_def cl_run_def cl_defaults_def split: prod.splits option.splits)

lemma lstep_config:
  assumes "lstep c c'" "config_ok c" "stopping c' = stopping c" "cl_stopChan c' = cl_stopChan c"
  shows "config_ok c' \<and> (PendingRequests c' = PendingRequests c \<or> PendingRequests c = 0)"
  using assms(1)
proof cases
  case l_start
  with config_Start [OF assms(2)] Start_pending_cases [of c] show ?thesis
    by simp
next
  case l_stop
  with assms(2) show ?thesis
    by (auto intro: config_frame simp: Stop_frame)
next
  case l_stopped
  with assms(2) show ?thesis
    by (auto intro: config_frame simp: stopped_frame)
next
  case (l_dialed i e)
  then show ?thesis
    using assms(2) by (cases rule: dialed_cases [of i e c]) (auto simp: config_ok_def set_dialer_def)
next
  case (l_connected i)
  then show ?thesis
    using assms(2) by (cases rule: connected_cases [of i c]) (auto simp: config_ok_def set_dialer_def)
next
  case (l_disconnected i e)
  then show ?thesis
    using assms(2) by (cases rule: disconnected_cases [of i e c]) (auto simp: config_ok_def set_dialer_def)
qed (use assms(2) in \<open>auto simp: config_ok_def set_dialer_def\<close>)

lemma Start_serving:
  assumes "cl_inv c"
  shows "\<not> serving (snd (cl_Start c)) \<and> \<not> serving c \<or> snd (cl_Start c) = c"
proof (cases "cl_stopChan c = SNil")
  case True
  then have "\<not> serving c"
    using assms by (intro not_serving_gone) (simp add: cl_inv_def)
  moreover have "\<not> serving (snd (cl_Start c))"
    using calculation by (auto simp: cl_Start_def Let_def serving_def cl_run_def cl_defaults_def
        split: prod.splits option.splits)
  ultimately show ?thesis
    by blast
qed (simp add: cl_Start_def)

lemma Start_pending: "config_ok c \<Longrightarrow> nat (PendingRequests c) \<le> nat (PendingRequests (snd (cl_Start c)))"
  using Start_pending_cases [of c] by auto

lemma strand_done: "strand_step x y \<Longrightarrow> cr_done (fst x) = DoneEmpty \<Longrightarrow> cr_done (fst y) = DoneEmpty"
  by (auto elim!: strand_step.cases)

lemma whole_init_inv: "whole_init w \<Longrightarrow> whole_inv lim cd w"
  using cl_init_inv [of "life w"] no_conn_inv [of "conn w" "env_of lim cd (life w)"]
  by (auto simp: whole_init_def whole_inv_def config_ok_def cl_init_def no_conn_def phase_agrees_def serving_def)

lemma whole_conn_inv:
  assumes inv: "whole_inv lim cd w" and step: "cstep (env_of lim cd (life w)) (conn w) s"
    and stop: "clientStop s = clientStop (conn w)"
  shows "whole_inv lim cd (w\<lparr>conn := s\<rparr>)"
proof -
  have "conn_ok (env_of lim cd (life w)) s"
    using client_conn.inv_step [OF conn_ok_whole [OF inv] step] .
  moreover have "phase_agrees (life w) s"
    using inv stop at_rest_stays [OF step] by (auto simp: whole_inv_def phase_agrees_def split: if_splits)
  ultimately show ?thesis
    using inv by (simp add: whole_inv_def conn_ok_def)
qed

lemma whole_queue_inv:
  assumes "whole_inv lim cd w" "\<not> serving (life w)"
  shows "whole_inv lim cd (new_queue w)"
proof -
  obtain e where h: "hpc (conn w) = HDone e"
    using assms by (auto simp: whole_inv_def phase_agrees_def)
  have inv: "conn_inv (env_of lim cd (life w)) (conn w)"
    using assms(1) by (simp add: whole_inv_def)
  have "cr_done (reqs (conn w) q) = DoneEmpty" if "q \<in> set (queue (conn w))" for q
    using inv that by (auto simp: conn_inv_parts)
  then show ?thesis
    using assms h new_queue_inv [OF inv h] by (auto simp: whole_inv_def new_queue_def Let_def phase_agrees_def)
qed

lemma whole_life_inv:
  assumes inv: "whole_inv lim cd w" and c: "cl_inv c" "config_ok c" "\<not> serving c" "\<not> serving (life w)"
    and "nat (PendingRequests (life w)) \<le> nat (PendingRequests c)"
  shows "whole_inv lim cd (w\<lparr>life := c\<rparr>)"
  using inv c assms(6) by (auto simp: whole_inv_def phase_agrees_def intro: conn_inv_env)

lemma whole_Start_inv:
  assumes inv: "whole_inv lim cd w"
  shows "whole_inv lim cd (whole_Start w)"
proof -
  let ?c = "snd (cl_Start (life w))"
  have ok: "cl_inv (life w)" "config_ok (life w)"
    using inv by (simp_all add: whole_inv_def)
  have "\<not> serving ?c \<and> \<not> serving (life w) \<or> ?c = life w"
    using Start_serving [OF ok(1)] .
  then show ?thesis
  proof
    assume quiet: "\<not> serving ?c \<and> \<not> serving (life w)"
    then have "whole_inv lim cd (w\<lparr>life := ?c\<rparr>)"
      using inv ok by (intro whole_life_inv Start_pending cl_inv_start config_Start) simp_all
    then show ?thesis
      using quiet whole_queue_inv [of lim cd "w\<lparr>life := ?c\<rparr>"] by (simp add: whole_Start_def Let_def)
  next
    assume same: "?c = life w"
    then have "whole_Start w = w"
      by (auto simp: whole_Start_def Let_def makes_queue_def)
    with inv show ?thesis by simp
  qed
qed

lemma whole_Stop_inv:
  assumes inv: "whole_inv lim cd w" and idle: "stopping (life w) = StopIdle"
  shows "whole_inv lim cd (whole_Stop w)"
proof -
  let ?c = "snd (cl_Stop (life w))" and ?s = "\<lambda>b. (conn w)\<lparr>clientStop := b\<rparr>"
  have ok: "cl_inv (life w)" "config_ok (life w)" "conn_inv (env_of lim cd (life w)) (conn w)"
    using inv by (simp_all add: whole_inv_def)
  have "conn_inv (env_of lim cd ?c) (?s b)" for b
    using ok(3) Stop_frame [of "life w"]
    by (simp add: conn_inv_def inv_objects_def in_flight_def inv_table_def writer_active_def inv_waiting_def on_the_way_def
        inv_phase_def skips_def)
  moreover have "phase_agrees ?c (?s (cl_stopChan ?c = SClosed))"
    using inv Stop_frame [of "life w"] by (auto simp: whole_inv_def phase_agrees_def serving_def)
  ultimately show ?thesis
    using inv ok cl_inv_stop [OF ok(1) idle] config_frame [OF ok(2) Stop_frame]
    by (simp add: whole_Stop_def Let_def whole_inv_def)
qed

lemma whole_connected_inv:
  assumes inv: "whole_inv lim cd w" and i: "i < length (dialers (life w))" "dialers (life w) ! i = LConn"
  shows "whole_inv lim cd (whole_connected i rd out w)"
proof -
  let ?c = "connected i (life w)"
  have ok: "cl_inv (life w)" "config_ok (life w)" "conn_inv (env_of lim cd (life w)) (conn w)"
    using inv by (simp_all add: whole_inv_def)
  have "\<not> serving (life w)"
    using ok(2) i serving_at [of i "life w"] by (simp add: config_ok_def)
  then obtain e where h: "hpc (conn w) = HDone e"
    using inv by (auto simp: whole_inv_def phase_agrees_def)
  obtain wd pc where c: "?c = set_dialer i pc ((life w)\<lparr>cl_world := wd\<rparr>)"
    by (rule connected_cases)
  have config: "config_ok ?c" "env_of lim cd ?c = env_of lim cd (life w)"
    using ok(2) by (simp_all add: c config_ok_def set_dialer_def env_of_def)
  have "cl_inv ?c"
    using lstep_inv [OF ok(1) lstep.l_connected [OF i]] .
  moreover have "conn_inv (env_of lim cd (life w)) (if serving ?c then new_conn rd out b (conn w) else conn w)" for b
    using ok(3) new_conn_inv [OF ok(3) h] by simp
  moreover have "phase_agrees ?c (if serving ?c then new_conn rd out (cl_stopChan ?c = SClosed) (conn w) else conn w)"
    using h by (auto simp: phase_agrees_def new_conn_def)
  ultimately show ?thesis
    using inv config by (simp add: whole_connected_def Let_def whole_inv_def)
qed

lemma whole_disconnected_inv:
  assumes inv: "whole_inv lim cd w" and i: "i < length (dialers (life w))" "dialers (life w) ! i = LServe" and h: "hpc (conn w) = HDone e"
  shows "whole_inv lim cd (w\<lparr>life := disconnected i e (life w)\<rparr>)"
proof -
  have ok: "cl_inv (life w)" "config_ok (life w)"
    using inv by (simp_all add: whole_inv_def)
  obtain wd where c: "disconnected i e (life w) = set_dialer i LAfter ((life w)\<lparr>cl_world := wd, closed := closed (life w) + 1\<rparr>)"
    by (rule disconnected_cases)
  have "\<not> serving (disconnected i e (life w))"
    unfolding c using i(1) ok(2) serving_set_dialer [of i LAfter "(life w)\<lparr>cl_world := wd, closed := closed (life w) + 1\<rparr>"]
    by (auto simp: config_ok_def)
  moreover have "config_ok (disconnected i e (life w))" "env_of lim cd (disconnected i e (life w)) = env_of lim cd (life w)"
    using ok(2) by (simp_all add: c config_ok_def set_dialer_def env_of_def)
  moreover have "cl_inv (disconnected i e (life w))"
    using lstep_inv [OF ok(1) lstep.l_disconnected [OF i]] .
  ultimately show ?thesis
    using inv h by (simp add: whole_inv_def phase_agrees_def)
qed

lemma wstep_inv:
  assumes inv: "whole_inv lim cd w" and step: "wstep lim cd w w'"
  shows "whole_inv lim cd w'"
  using step
proof cases
  case (w_conn s)
  with whole_conn_inv [OF inv] show ?thesis by simp
next
  case w_start
  with whole_Start_inv [OF inv] show ?thesis by simp
next
  case w_stop
  with whole_Stop_inv [OF inv] show ?thesis by simp
next
  case w_stopped
  have ok: "cl_inv (life w)" "config_ok (life w)"
    using inv by (simp_all add: whole_inv_def)
  have "\<not> serving (life w)" "\<not> serving (snd (cl_stopped (life w)))"
    using w_stopped(3) by (simp_all add: not_serving_gone stopped_frame)
  with w_stopped ok show ?thesis
    by (auto intro!: whole_life_inv [OF inv] cl_inv_stopped config_frame [OF ok(2)] simp: stopped_frame)
next
  case (w_dialer c)
  then have b: "lstep (life w) c" "cl_stopChan c = cl_stopChan (life w)" "stopping c = stopping (life w)"
      "\<not> serving (life w)" "\<not> serving c"
    by (simp_all add: between_conns_def)
  have ok: "cl_inv (life w)" "config_ok (life w)"
    using inv by (simp_all add: whole_inv_def)
  from lstep_config [OF b(1) ok(2) b(3,2)] b w_dialer lstep_inv [OF ok(1) b(1)] show ?thesis
    by (auto intro!: whole_life_inv [OF inv])
next
  case (w_connected i out rd)
  with whole_connected_inv [OF inv] show ?thesis by simp
next
  case (w_disconnected i e)
  with whole_disconnected_inv [OF inv] show ?thesis by simp
next
  case (w_stranded i x)
  then have "cr_done (fst x) = DoneEmpty"
    using inv strand_done [of "stranded w ! i" x] by (simp add: whole_inv_def)
  with inv w_stranded show ?thesis
    by (auto simp: whole_inv_def dest!: subsetD [OF set_update_subset_insert])
qed

interpretation whole_client: machine_invariant whole_init "wstep lim cd" "whole_inv lim cd"
  by unfold_locales (fact whole_init_inv wstep_inv)+

end
