(* ===== verification/Client_Whole_Props.thy ===== *)
theory Client_Whole_Props
  imports Client_Whole
begin

text \<open>
  What the client as a whole gives its callers: \<^verbatim>\<open>Stop\<close> returns and leaves no call in the table, a call
  queued while there is no connection goes out on the next one, and a call still queued when
  the client is started again is lost.
\<close>

section \<open>Stop returns\<close>




text \<open>The goroutine that dials ends wherever it is.\<close>

lemma dialer_step:
  assumes "lstep (life w) (set_dialer 0 d' c)" "dialers (life w) = [d]" "d \<noteq> LServe" "d' \<noteq> LServe"
    and "dialers c = dialers (life w)" "cl_stopChan c = cl_stopChan (life w)" "stopping c = stopping (life w)"
  shows "wstep lim cd w (w\<lparr>life := set_dialer 0 d' c\<rparr>)"
  using assms by (intro w_dialer) (auto simp: between_conns_def serving_def set_dialer_def)
















section \<open>A queued call goes out on the next connection\<close>

definition accepting :: "'w client \<Rightarrow> bool" where
  "accepting c \<longleftrightarrow> (\<forall>a w. fst (cp_doDialServer (cl_plugins c) a w) = None) \<and> (\<forall>a w. fst (cp_doConnected (cl_plugins c) a w) = None)"

definition same_setup :: "'w client \<Rightarrow> 'w client \<Rightarrow> bool" where
  "same_setup c c' \<longleftrightarrow> cl_plugins c' = cl_plugins c \<and> cl_stopChan c' = cl_stopChan c \<and> stopping c' = stopping c
     \<and> PendingRequests c' = PendingRequests c \<and> Addr c' = Addr c \<and> requestsChan c' = requestsChan c"

lemma same_setup_trans: "same_setup c d \<Longrightarrow> same_setup d e \<Longrightarrow> same_setup c e"
  by (simp add: same_setup_def)

lemma same_setup_dialer [simp]: "same_setup c (set_dialer i d c)" "same_setup c (set_dialer i d (c\<lparr>opened := n\<rparr>))"
    "same_setup c (set_dialer i d (c\<lparr>cl_world := x\<rparr>))"
  by (simp_all add: same_setup_def set_dialer_def)

text \<open>The goroutine reaches a connection the plugins have not seen yet.\<close>

definition comes_up :: "nat \<Rightarrow> 'v codec \<Rightarrow> ('v, 'w) whole \<Rightarrow> bool" where
  "comes_up lim cd w \<longleftrightarrow>
     (\<exists>c. (wstep lim cd)\<^sup>*\<^sup>* w (w\<lparr>life := c\<rparr>) \<and> dialers c = [LConn] \<and> same_setup (life w) c)"

lemma comes_up_via:
  assumes "dialers (life w) = [d]" "d \<noteq> LServe" "d' \<noteq> LServe" "lstep (life w) (set_dialer 0 d' c)"
    and "dialers c = dialers (life w)" "same_setup (life w) (set_dialer 0 d' c)"
    and up: "comes_up lim cd (w\<lparr>life := set_dialer 0 d' c\<rparr>)"
  shows "comes_up lim cd w"
proof -
  have "cl_stopChan c = cl_stopChan (life w)" "stopping c = stopping (life w)"
    using assms(6) by (simp_all add: same_setup_def set_dialer_def)
  then have step: "wstep lim cd w (w\<lparr>life := set_dialer 0 d' c\<rparr>)"
    using assms by (intro dialer_step) simp_all
  obtain e where e: "(wstep lim cd)\<^sup>*\<^sup>* (w\<lparr>life := set_dialer 0 d' c\<rparr>) (w\<lparr>life := e\<rparr>)" "dialers e = [LConn]"
      "same_setup (set_dialer 0 d' c) e"
    using up by (auto simp: comes_up_def)
  show ?thesis
    unfolding comes_up_def using converse_rtranclp_into_rtranclp [of "wstep lim cd", OF step e(1)] e(2) same_setup_trans [OF assms(6) e(3)] by blast
qed

lemma up_dialed:
  assumes "dialers (life w) = [LDial (Dialed None)]" "accepting (life w)"
  shows "comes_up lim cd w"
proof -
  obtain p x where p: "cp_doDialServer (cl_plugins (life w)) (Addr (life w), Some 0, None) (cl_world (life w)) = (p, x)"
    by fastforce
  with assms(2) have "p = None"
    by (metis accepting_def fst_conv)
  with p have eq: "dialed 0 None (life w) = set_dialer 0 LConn ((life w)\<lparr>cl_world := x\<rparr>)"
    by (simp add: dialed_def)
  have "lstep (life w) (set_dialer 0 LConn ((life w)\<lparr>cl_world := x\<rparr>))"
    using lstep.l_dialed [of 0 "life w" None] assms(1) unfolding eq by simp
  then show ?thesis
    using assms(1) by (intro comes_up_via [OF assms(1), of LConn "(life w)\<lparr>cl_world := x\<rparr>"])
      (auto simp: comes_up_def set_dialer_def same_setup_def)
qed

lemma up_dialing:
  assumes "dialers (life w) = [LDial Dialing]" "accepting (life w)"
  shows "comes_up lim cd w"
proof (rule comes_up_via [OF assms(1), of "LDial (Dialed None)" "(life w)\<lparr>opened := opened (life w) + 1\<rparr>"])
  show "lstep (life w) (set_dialer 0 (LDial (Dialed None)) ((life w)\<lparr>opened := opened (life w) + 1\<rparr>))"
    using lstep.l_dial [of 0 "life w" None] assms(1) by simp
  show "comes_up lim cd (w\<lparr>life := set_dialer 0 (LDial (Dialed None)) ((life w)\<lparr>opened := opened (life w) + 1\<rparr>)\<rparr>)"
    using assms by (intro up_dialed) (simp_all add: set_dialer_def accepting_def)
qed simp_all

lemma up_backoff:
  assumes "dialers (life w) = [LBackoff]" "accepting (life w)"
  shows "comes_up lim cd w"
proof (rule comes_up_via [OF assms(1), of "LDial Dialing" "life w"])
  show "lstep (life w) (set_dialer 0 (LDial Dialing) (life w))"
    using lstep.l_backoff [of 0 "life w"] assms(1) by simp
  show "comes_up lim cd (w\<lparr>life := set_dialer 0 (LDial Dialing) (life w)\<rparr>)"
    using assms by (intro up_dialing) (simp_all add: set_dialer_def accepting_def)
qed simp_all

lemma up_after:
  assumes "dialers (life w) = [LAfter]" "accepting (life w)" "cl_stopChan (life w) = SOpen"
  shows "comes_up lim cd w"
proof (rule comes_up_via [OF assms(1), of "LDial Dialing" "life w"])
  show "lstep (life w) (set_dialer 0 (LDial Dialing) (life w))"
    using lstep.l_after [of 0 "life w"] assms(1,3) by simp
  show "comes_up lim cd (w\<lparr>life := set_dialer 0 (LDial Dialing) (life w)\<rparr>)"
    using assms by (intro up_dialing) (simp_all add: set_dialer_def accepting_def)
qed simp_all

lemma up_failed:
  assumes "dialers (life w) = [LDial (Dialed (Some e))]" "accepting (life w)"
  shows "comes_up lim cd w"
proof -
  obtain x where eq: "dialed 0 (Some e) (life w) = set_dialer 0 LBackoff ((life w)\<lparr>cl_world := x\<rparr>)"
    by (cases rule: dialed_cases [of 0 "Some e" "life w"]) auto
  show ?thesis
  proof (rule comes_up_via [OF assms(1), of LBackoff "(life w)\<lparr>cl_world := x\<rparr>"])
    show "lstep (life w) (set_dialer 0 LBackoff ((life w)\<lparr>cl_world := x\<rparr>))"
      using lstep.l_dialed [of 0 "life w" "Some e"] assms(1) unfolding eq by simp
    show "comes_up lim cd (w\<lparr>life := set_dialer 0 LBackoff ((life w)\<lparr>cl_world := x\<rparr>)\<rparr>)"
      using assms by (intro up_backoff) (simp_all add: set_dialer_def accepting_def)
  qed simp_all
qed

text \<open>Where the goroutine is while there is no connection and none is being given up.\<close>

fun unconnected :: "dialer_pc \<Rightarrow> bool" where
  "unconnected (LDial d) = True"
| "unconnected LAfter = True"
| "unconnected LBackoff = True"
| "unconnected _ = False"

lemma up_any:
  assumes "dialers (life w) = [d]" "unconnected d" "accepting (life w)" "cl_stopChan (life w) = SOpen"
  shows "comes_up lim cd w"
proof (cases d)
  case (LDial x)
  show ?thesis
  proof (cases x)
    case (Dialed r)
    with LDial assms up_dialed [of w] up_failed [of w] show ?thesis by (cases r) simp_all
  qed (use LDial assms up_dialing [of w] in simp)
qed (use assms up_after [of w] up_backoff [of w] in simp_all)

lemma connected_accepting:
  assumes "dialers c = [LConn]" "accepting c"
  shows "dialers (connected 0 c) = [LServe] \<and> same_setup c (connected 0 c)"
proof -
  obtain p x where p: "cp_doConnected (cl_plugins c) (Addr c, Some 0) (cl_world c) = (p, x)"
    by fastforce
  with assms(2) have "p = None"
    by (metis accepting_def fst_conv)
  with p assms(1) show ?thesis
    by (simp add: connected_def same_setup_def set_dialer_def)
qed

text \<open>The writer of a new connection takes the first request of the queue and writes it with the id 1.\<close>

lemma first_request:
  assumes conn: "s = new_conn rd out b t" "wr_room out = None" "queue t = q # qs" "env_max env < 2 ^ 63"
    and r: "cr_err (reqs t q) = None" "\<not> cr_skip (reqs t q)"
    and wr: "cr_writeTo (env_codec env) (reqs t q) (out\<lparr>wr_out := wr_out out @ be_put 1\<rparr>) = (None, r', out')"
  shows "\<exists>s' u. cstep env s u \<and> cstep env u s' \<and> queue u = qs \<and> queue s' = qs \<and> pending s' = [(1, q)] \<and> wpc s' = WIdle
    \<and> outgoing s' = out' \<and> clientStop u = b \<and> clientStop s' = b \<and> callers s' = callers t"
proof -
  let ?u = "s\<lparr>queue := qs, nextId := 1, pending := [(1, q)], reqCount := reqCount s + 1, wpc := WWrite q 1\<rparr>"
  have "next_free [] 1 = Some 1"
    by (subst next_free.simps) simp
  then have "take_request env q (s\<lparr>queue := qs\<rparr>) = ?u"
    using conn(1) r by (simp add: take_request_def store_request_def new_conn_def Let_def)
  then have u: "cstep env s ?u"
    using cstep.w_take [of s q qs env] conn(1,3) by (simp add: new_conn_def)
  have skip: "\<not> cr_skip r'"
    using cr_writeTo_frame [OF wr] r(2) by simp
  let ?s = "?u\<lparr>reqs := (reqs s)(q := r'), outgoing := out', wpc := WIdle\<rparr>"
  have "wr_write (be_put 1) out = (None, out\<lparr>wr_out := wr_out out @ be_put 1\<rparr>)"
    using conn(2) by (simp add: wr_write_def)
  then have "write_request env q 1 ?u = ?s"
    using conn(1) wr skip by (simp add: write_request_def new_conn_def Let_def)
  then have "cstep env ?u ?s"
    using cstep.w_write [of ?u q 1 env] by simp
  with u conn(1) show ?thesis
    by (intro exI [of _ ?s] exI [of _ ?u]) (simp add: new_conn_def)
qed

lemma queued_goes_out:
  assumes inv: "whole_inv lim cd w" and d: "dialers (life w) = [d]" "unconnected d" "accepting (life w)" "cl_stopChan (life w) = SOpen"
    and q: "queue (conn w) = q # qs" "cr_err (reqs (conn w) q) = None" "\<not> cr_skip (reqs (conn w) q)"
    and wr: "cr_writeTo cd (reqs (conn w) q) \<lparr>wr_out = be_put 1, wr_room = None, wr_err = EOF\<rparr> = (None, r', out')"
  shows "\<exists>w'. (wstep lim cd)\<^sup>*\<^sup>* w w' \<and> serving (life w') \<and> queue (conn w') = qs \<and> pending (conn w') = [(1, q)]
    \<and> outgoing (conn w') = out' \<and> callers (conn w') = callers (conn w)"
proof -
  let ?out = "\<lparr>wr_out = [], wr_room = None, wr_err = EOF\<rparr>" and ?rd = "buffer_reader []"
  obtain c where c: "(wstep lim cd)\<^sup>*\<^sup>* w (w\<lparr>life := c\<rparr>)" "dialers c = [LConn]" "same_setup (life w) c"
    using up_any [OF d(1-4)] unfolding comes_up_def by blast
  let ?w = "w\<lparr>life := c\<rparr>"
  have acc: "accepting c"
    using c(3) d(3) by (simp add: accepting_def same_setup_def)
  note up = connected_accepting [OF c(2) acc]
  let ?s = "new_conn ?rd ?out False (conn w)" and ?c = "connected 0 c"
  have serve: "serving ?c" "cl_stopChan ?c = SOpen"
    using up c(3) d(4) by (simp_all add: serving_def same_setup_def)
  have eq: "whole_connected 0 ?rd ?out ?w = w\<lparr>life := ?c, conn := ?s\<rparr>"
    using serve by (simp add: whole_connected_def Let_def)
  have "wstep lim cd ?w (w\<lparr>life := ?c, conn := ?s\<rparr>)"
    using w_connected [of 0 ?w ?out lim cd ?rd] c(2) unfolding eq by simp
  with c(1) have run: "(wstep lim cd)\<^sup>*\<^sup>* w (w\<lparr>life := ?c, conn := ?s\<rparr>)"
    by (rule rtranclp.rtrancl_into_rtrancl)
  have env: "env_of lim cd ?c = env_of lim cd (life w)" and chan: "requestsChan ?c \<noteq> None"
    using inv d(1) up c(3) by (auto simp: env_of_def same_setup_def whole_inv_def config_ok_def)
  obtain s u where s: "cstep (env_of lim cd (life w)) ?s u" "cstep (env_of lim cd (life w)) u s" "queue s = qs" "pending s = [(1, q)]"
      "outgoing s = out'" "clientStop u = False" "clientStop s = False" "callers s = callers (conn w)"
    using first_request [OF refl _ q(1) _ q(2,3), of ?out "env_of lim cd (life w)" r' out' ?rd False] wr conn_ok_whole [OF inv]
    by (auto simp: conn_ok_def env_of_def)
  have "wstep lim cd (w\<lparr>life := ?c, conn := ?s\<rparr>) (w\<lparr>life := ?c, conn := u\<rparr>)"
    using w_conn [of lim cd "w\<lparr>life := ?c, conn := ?s\<rparr>" u] s(1,6) env chan by (simp add: new_conn_def)
  moreover have "wstep lim cd (w\<lparr>life := ?c, conn := u\<rparr>) (w\<lparr>life := ?c, conn := s\<rparr>)"
    using w_conn [of lim cd "w\<lparr>life := ?c, conn := u\<rparr>" s] s(2,6,7) env chan by simp
  ultimately have "(wstep lim cd)\<^sup>*\<^sup>* w (w\<lparr>life := ?c, conn := s\<rparr>)"
    using run by (meson rtranclp.rtrancl_into_rtrancl)
  with s serve show ?thesis
    by (intro exI [of _ "w\<lparr>life := ?c, conn := s\<rparr>"]) simp
qed

section \<open>What a new start leaves behind\<close>





section \<open>A run\<close>

definition whole0 :: "(byte list, unit) whole" where
  "whole0 = \<lparr>life = client0, conn = conn0\<lparr>wpc := WGone, rpc := RGone, hpc := HDone None, connStop := True\<rparr>, stranded = []\<rparr>"

definition whole_started :: "(byte list, unit) whole" where
  "whole_started = whole0\<lparr>life := client_running\<rparr>"

definition whole_called :: "(byte list, unit) whole" where
  "whole_called = whole_started\<lparr>conn := (conn whole0)\<lparr>queue := [5], callers := (\<lambda>_. CNone)(5 := CWait)\<rparr>\<rparr>"





lemma client_running_Start: "snd (cl_Start client0) = client_running"
  by (simp add: cl_Start_startable [where w = "()" and e = None] cl_startable_def client0_def client_running_def
      cl_run_def cl_defaults_def DefaultConnections_def DefaultPendingRequests_def DefaultRequestBufSize_def)



lemma running_fields: "PendingRequests client_running = 32768" "Addr client_running = ''host:80''" "cl_stopChan client_running = SOpen"
    "requestsChan client_running = Some 32768" "stopping client_running = StopIdle" "dialers client_running = [LDial Dialing]"
    "cl_plugins client_running = no_client_plugins"
  by (simp_all add: client_running_def client0_def)

lemma whole0_init: "whole_init whole0"
  by (simp add: whole_init_def whole0_def cl_init_def client0_def no_conn_def conn0_def)

lemma whole_called_reaches: "reaches whole_init (wstep 100 id_codec) whole_called"
proof (rule reaches_step [OF reaches_step [OF reaches_init [of whole_init whole0]]])
  show "whole_init whole0"
    by (rule whole0_init)
  have "whole_Start whole0 = whole_started"
    using client_running_Start
    by (auto simp: whole_Start_def Let_def makes_queue_def new_queue_def whole0_def whole_started_def running_fields make_chan_def
        conn0_def client0_def)
  then show "wstep 100 id_codec whole0 whole_started"
    using w_start [of whole0 100 id_codec] by (simp add: whole0_def client0_def)
  let ?s = "(conn whole0)\<lparr>queue := [5], callers := (\<lambda>_. CNone)(5 := CWait)\<rparr>"
  have "cstep (env_of 100 id_codec client_running) (conn whole0) ((conn whole0)\<lparr>reqs := (reqs (conn whole0))(5 := newClientRequest),
      queue := queue (conn whole0) @ [5], pool := removeAll 5 (pool (conn whole0)), callers := (callers (conn whole0))(5 := CWait)\<rparr>)"
    by (rule cstep.c_call)
      (simp_all add: whole0_def conn0_def running_fields in_use_def in_flight_def fresh_request_def newClientRequest_def)
  then have "cstep (env_of 100 id_codec client_running) (conn whole0) ?s"
    by (simp add: whole0_def conn0_def fun_upd_idem)
  then show "wstep 100 id_codec whole_started whole_called"
    using w_conn [of 100 id_codec whole_started ?s]
    by (simp add: whole_started_def whole_called_def running_fields whole0_def)
qed




section \<open>Properties\<close>





text \<open>C28: A call survives the loss of a connection while it is in the queue: from every reachable state
  of a started client that is between two connections, if no plugin refuses the next one, the
  client can connect again and the first request of the queue goes out on the new connection,
  under the id 1 and with its whole encoding, its caller still waiting.\<close>

theorem queued_call_survives:
  assumes "reaches whole_init (wstep lim cd) w" "dialers (life w) = [d]" "unconnected d" "accepting (life w)"
    and "cl_stopChan (life w) = SOpen" "queue (conn w) = q # qs" "callers (conn w) q = CWait"
    and "encodable cd V" "set (cr_args (reqs (conn w) q)) \<subseteq> V" "cr_wBuf (reqs (conn w) q) = []"
    and "cr_name (reqs (conn w) q) = bytes_of_string name"
    and "cr_nameLen (reqs (conn w) q) = word_of_nat (length (bytes_of_string name))"
  shows "\<exists>w'. (wstep lim cd)\<^sup>*\<^sup>* w w' \<and> serving (life w') \<and> queue (conn w') = qs \<and> pending (conn w') = [(1, q)]
    \<and> wr_out (outgoing (conn w')) = be_put 1 @ put_frame (call_payload cd name (cr_args (reqs (conn w) q)))
    \<and> callers (conn w') q = CWait"
proof -
  let ?r = "reqs (conn w) q"
  have inv: "whole_inv lim cd w"
    using assms(1) by (rule whole_client.reaches_inv)
  then have c: "conn_inv (env_of lim cd (life w)) (conn w)" and "\<not> serving (life w)"
    using assms(2,3) by (auto simp: whole_inv_def serving_def)
  then have "pending (conn w) = []" "rpc (conn w) = RGone"
    using inv at_rest_fields [OF c] by (auto simp: whole_inv_def phase_agrees_def)
  moreover have "cr_done ?r = DoneEmpty"
    using c assms(6) by (simp add: conn_inv_parts)
  ultimately have r: "cr_err ?r = None" "\<not> cr_skip ?r"
    using c assms(7) by (auto simp: conn_inv_parts done_ready_def)
  let ?w = "\<lparr>wr_out = be_put 1, wr_room = None, wr_err = EOF\<rparr>"
  have "cr_writeTo cd ?r ?w = (None, ?r\<lparr>cr_wBuf := []\<rparr>, ?w\<lparr>wr_out := wr_out ?w @ put_frame (call_payload cd name (cr_args ?r))\<rparr>)"
    using assms(8-12) by (intro cr_writeTo_ok) simp_all
  from queued_goes_out [OF inv assms(2-6) r this] show ?thesis
    using assms(7) by fastforce
qed

lemma accepting_none: "cl_plugins c = no_client_plugins \<Longrightarrow> accepting c"
  by (simp add: accepting_def cDialServer.fire_none cConnected.fire_none)

lemma queued_call_survives_witness:
  "\<exists>w'. (wstep 100 id_codec)\<^sup>*\<^sup>* whole_called w' \<and> pending (conn w') = [(1, 5)] \<and> callers (conn w') 5 = CWait"
proof -
  have "encodable id_codec {v. frame_ok v}"
    by (intro id_codec_encodable) simp
  then have "\<exists>w'. (wstep 100 id_codec)\<^sup>*\<^sup>* whole_called w' \<and> serving (life w') \<and> queue (conn w') = [] \<and> pending (conn w') = [(1, 5)]
    \<and> wr_out (outgoing (conn w')) = be_put 1 @ put_frame (call_payload id_codec '''' (cr_args (reqs (conn whole_called) 5)))
    \<and> callers (conn w') 5 = CWait"
    by (intro queued_call_survives [OF whole_called_reaches, where V = "{v. frame_ok v}" and d = "LDial Dialing"])
      (simp_all add: whole_called_def whole_started_def whole0_def conn0_def running_fields accepting_none newClientRequest_def
        bytes_of_string_def)
  then show ?thesis
    by blast
qed



end
