(* ===== verification/Server_Plugin.thy ===== *)
theory Server_Plugin
  imports Hooks
begin

text \<open>
  \<^verbatim>\<open>server_plugin.go\<close>: the registry of the server's plugins. A listener is the address it
  listens on. The error handlers return nothing and are all called.
\<close>

datatype net_addr = TCPAddr int string | UDPAddr int string | OtherAddr

type_synonym listener = net_addr
record 'w server_plugin =
  sp_BeforeStart :: "(listener \<times> string list, 'w) hook option"
  sp_AfterStart :: "(listener \<times> string list, 'w) hook option"
  sp_BeforeStop :: "(listener \<times> string list, 'w) hook option"
  sp_AfterStop :: "(listener \<times> string list, 'w) hook option"
  sp_AcceptConnection :: "(conn_ref \<times> go_error option, 'w) hook option"
  sp_ClientConnected :: "(conn_ref, 'w) hook option"
  sp_ClientDisconnected :: "(go_error option, 'w) hook option"
  sp_ErrorHandle :: "(go_error \<Rightarrow> 'w \<Rightarrow> 'w) option"

record 'w serverPluginRegistry =
  sr_beforeStart :: "(listener \<times> string list, 'w) hook list"
  sr_afterStart :: "(listener \<times> string list, 'w) hook list"
  sr_beforeStop :: "(listener \<times> string list, 'w) hook list"
  sr_afterStop :: "(listener \<times> string list, 'w) hook list"
  sr_acceptConn :: "(conn_ref \<times> go_error option, 'w) hook list"
  sr_clientConn :: "(conn_ref, 'w) hook list"
  sr_clientDisc :: "(go_error option, 'w) hook list"
  sr_errorHandlers :: "(go_error \<Rightarrow> 'w \<Rightarrow> 'w) list"

definition no_server_plugins :: "'w serverPluginRegistry" where
  "no_server_plugins =
     \<lparr>sr_beforeStart = [], sr_afterStart = [], sr_beforeStop = [], sr_afterStop = [],
      sr_acceptConn = [], sr_clientConn = [], sr_clientDisc = [], sr_errorHandlers = []\<rparr>"

definition sp_Add :: "'w server_plugin \<Rightarrow> 'w serverPluginRegistry \<Rightarrow> 'w serverPluginRegistry" where
  "sp_Add p r =
     r\<lparr>sr_beforeStart := append_hook (sp_BeforeStart p) (sr_beforeStart r),
       sr_afterStart := append_hook (sp_AfterStart p) (sr_afterStart r),
       sr_beforeStop := append_hook (sp_BeforeStop p) (sr_beforeStop r),
       sr_afterStop := append_hook (sp_AfterStop p) (sr_afterStop r),
       sr_acceptConn := append_hook (sp_AcceptConnection p) (sr_acceptConn r),
       sr_clientConn := append_hook (sp_ClientConnected p) (sr_clientConn r),
       sr_clientDisc := append_hook (sp_ClientDisconnected p) (sr_clientDisc r),
       sr_errorHandlers := append_hook (sp_ErrorHandle p) (sr_errorHandlers r)\<rparr>"

text \<open>\<^verbatim>\<open>Server.Plugin\<close>: several at once.\<close>

definition sv_Plugin :: "'w server_plugin list \<Rightarrow> 'w serverPluginRegistry \<Rightarrow> 'w serverPluginRegistry" where
  "sv_Plugin ps r = foldl (\<lambda>r p. sp_Add p r) r ps"

definition sp_doBeforeStart ::
    "'w serverPluginRegistry \<Rightarrow> listener \<times> string list \<Rightarrow> 'w \<Rightarrow> go_error option \<times> 'w" where
  "sp_doBeforeStart r a w = run_hooks (sr_beforeStart r) a w"

definition sp_doAfterStart ::
    "'w serverPluginRegistry \<Rightarrow> listener \<times> string list \<Rightarrow> 'w \<Rightarrow> go_error option \<times> 'w" where
  "sp_doAfterStart r a w = run_hooks (sr_afterStart r) a w"

definition sp_doBeforeStop ::
    "'w serverPluginRegistry \<Rightarrow> listener \<times> string list \<Rightarrow> 'w \<Rightarrow> go_error option \<times> 'w" where
  "sp_doBeforeStop r a w = run_hooks (sr_beforeStop r) a w"

definition sp_doAfterStop ::
    "'w serverPluginRegistry \<Rightarrow> listener \<times> string list \<Rightarrow> 'w \<Rightarrow> go_error option \<times> 'w" where
  "sp_doAfterStop r a w = run_hooks (sr_afterStop r) a w"

definition sp_doAcceptConnection ::
    "'w serverPluginRegistry \<Rightarrow> conn_ref \<times> go_error option \<Rightarrow> 'w \<Rightarrow> go_error option \<times> 'w" where
  "sp_doAcceptConnection r a w = run_hooks (sr_acceptConn r) a w"

definition sp_doClientConnected ::
    "'w serverPluginRegistry \<Rightarrow> conn_ref \<Rightarrow> 'w \<Rightarrow> go_error option \<times> 'w" where
  "sp_doClientConnected r a w = run_hooks (sr_clientConn r) a w"

definition sp_doClientDisconnected ::
    "'w serverPluginRegistry \<Rightarrow> go_error option \<Rightarrow> 'w \<Rightarrow> go_error option \<times> 'w" where
  "sp_doClientDisconnected r a w = run_hooks (sr_clientDisc r) a w"

definition sp_doError :: "'w serverPluginRegistry \<Rightarrow> go_error \<Rightarrow> 'w \<Rightarrow> 'w" where
  "sp_doError r e w = foldl (\<lambda>w h. h e w) w (sr_errorHandlers r)"

lemmas server_fire_defs = sp_doBeforeStart_def sp_doAfterStart_def sp_doBeforeStop_def sp_doAfterStop_def sp_doAcceptConnection_def sp_doClientConnected_def sp_doClientDisconnected_def

section \<open>Every list is a chain\<close>

interpretation sBeforeStart: hook_chain sp_Add no_server_plugins sp_BeforeStart sr_beforeStart sp_doBeforeStart
  by unfold_locales (simp_all add: sp_Add_def no_server_plugins_def server_fire_defs)

interpretation sAfterStart: hook_chain sp_Add no_server_plugins sp_AfterStart sr_afterStart sp_doAfterStart
  by unfold_locales (simp_all add: sp_Add_def no_server_plugins_def server_fire_defs)

interpretation sBeforeStop: hook_chain sp_Add no_server_plugins sp_BeforeStop sr_beforeStop sp_doBeforeStop
  by unfold_locales (simp_all add: sp_Add_def no_server_plugins_def server_fire_defs)

interpretation sAfterStop: hook_chain sp_Add no_server_plugins sp_AfterStop sr_afterStop sp_doAfterStop
  by unfold_locales (simp_all add: sp_Add_def no_server_plugins_def server_fire_defs)

interpretation sAcceptConnection: hook_chain sp_Add no_server_plugins sp_AcceptConnection sr_acceptConn sp_doAcceptConnection
  by unfold_locales (simp_all add: sp_Add_def no_server_plugins_def server_fire_defs)

interpretation sClientConnected: hook_chain sp_Add no_server_plugins sp_ClientConnected sr_clientConn sp_doClientConnected
  by unfold_locales (simp_all add: sp_Add_def no_server_plugins_def server_fire_defs)

interpretation sClientDisconnected: hook_chain sp_Add no_server_plugins sp_ClientDisconnected sr_clientDisc sp_doClientDisconnected
  by unfold_locales (simp_all add: sp_Add_def no_server_plugins_def server_fire_defs)

text \<open>An error handler is a hook that never fails.\<close>

definition silent :: "('a \<Rightarrow> 'w \<Rightarrow> 'w) \<Rightarrow> ('a, 'w) hook" where
  "silent h a w = (None, h a w)"

lemma run_silent: "run_hooks (List.map silent hs) a w = (None, foldl (\<lambda>w h. h a w) w hs)"
  by (induction hs arbitrary: w) (simp_all add: silent_def)

interpretation sErrorHandle: hook_chain sp_Add no_server_plugins
    "\<lambda>p. map_option silent (sp_ErrorHandle p)" "\<lambda>r. List.map silent (sr_errorHandlers r)"
    "\<lambda>r e w. (None, sp_doError r e w)"
  by unfold_locales
    (simp_all add: sp_Add_def no_server_plugins_def sp_doError_def run_silent append_hook_def split: option.splits)

section \<open>Properties\<close>

text \<open>The server's plugins are called in the order of their registration, those that implement
  the hook and no others, each on the world the one before it left, until one returns an error;
  the error handlers are all called, and never stop the run.\<close>

lemma server_plugins_in_order:
  "sp_doBeforeStart (sv_Plugin ps no_server_plugins) a w = run_hooks (List.map_filter sp_BeforeStart ps) a w
   \<and> sp_doAfterStart (sv_Plugin ps no_server_plugins) a w = run_hooks (List.map_filter sp_AfterStart ps) a w
   \<and> sp_doBeforeStop (sv_Plugin ps no_server_plugins) a w = run_hooks (List.map_filter sp_BeforeStop ps) a w
   \<and> sp_doAfterStop (sv_Plugin ps no_server_plugins) a w = run_hooks (List.map_filter sp_AfterStop ps) a w
   \<and> sp_doAcceptConnection (sv_Plugin ps no_server_plugins) b w = run_hooks (List.map_filter sp_AcceptConnection ps) b w
   \<and> sp_doClientConnected (sv_Plugin ps no_server_plugins) c w = run_hooks (List.map_filter sp_ClientConnected ps) c w
   \<and> sp_doClientDisconnected (sv_Plugin ps no_server_plugins) d w = run_hooks (List.map_filter sp_ClientDisconnected ps) d w
   \<and> (None, sp_doError (sv_Plugin ps no_server_plugins) x w)
      = run_hooks (List.map_filter (\<lambda>p. map_option silent (sp_ErrorHandle p)) ps) x w"
  by (simp_all add: sv_Plugin_def sBeforeStart.fire_added sAfterStart.fire_added sBeforeStop.fire_added sAfterStop.fire_added sAcceptConnection.fire_added sClientConnected.fire_added sClientDisconnected.fire_added
      sErrorHandle.fire_added)

end
