(* ===== verification/Server_Life.thy ===== *)
theory Server_Life
  imports Lifecycle Server_Plugin Server_Handle
begin

text \<open>
  \<^verbatim>\<open>Start\<close>, \<^verbatim>\<open>Stop\<close>, \<^verbatim>\<open>Serve\<close>, \<^verbatim>\<open>isStopped\<close> and \<^verbatim>\<open>acceptConnections\<close> of \<^verbatim>\<open>server.go\<close>: the server's
  configuration, the goroutine that accepts connections and one goroutine per connection, and
  stopping them. \<^verbatim>\<open>Accept\<close> belongs to the listener, so it ends with any outcome at any time; a
  connection the plugins accepted is the machine of \<open>Server_Conn\<close>, here a phase that can end at
  any time. \<open>listening\<close> says whether the listener is open.
\<close>

section \<open>State\<close>

datatype accept = Accepting | Accepted "go_error option"

datatype sthread =
    AAccept accept
  | AWait accept
  | ABackoff
  | VStart
  | VServe
  | VGone

record ('v, 'w) server =
  Concurrency :: int
  sv_RequestBufSize :: int
  PendingResponses :: int
  sv_hasCodec :: bool
  sv_listener :: "listener option"
  sv_methods :: "'v serverMethods"
  sv_plugins :: "'w serverPluginRegistry"
  sv_stopChan :: stop_chan
  workerChain :: "int option"
  sthreads :: "sthread list"
  sstopping :: stopper
  sv_world :: 'w
  listening :: bool

definition DefaultConcurrency :: int where "DefaultConcurrency = 32 * 1024"
definition DefaultPendingResponses :: int where "DefaultPendingResponses = 32 * 1024"
definition sv_DefaultRequestBufSize :: int where "sv_DefaultRequestBufSize = 1024"

section \<open>Start and stop\<close>

definition sv_defaults :: "('v, 'w) server \<Rightarrow> ('v, 'w) server" where
  "sv_defaults s =
     s\<lparr>Concurrency := (if Concurrency s = 0 then DefaultConcurrency else Concurrency s),
       sv_RequestBufSize := (if sv_RequestBufSize s = 0 then sv_DefaultRequestBufSize else sv_RequestBufSize s),
       PendingResponses := (if PendingResponses s = 0 then DefaultPendingResponses else PendingResponses s)\<rparr>"

definition sv_run :: "('v, 'w) server \<Rightarrow> ('v, 'w) server" where
  "sv_run s = s\<lparr>workerChain := Some (Concurrency s), sthreads := [AAccept Accepting]\<rparr>"

definition sv_Start :: "('v, 'w) server \<Rightarrow> unit res \<times> ('v, 'w) server" where
  "sv_Start s =
     (if \<not> sv_hasCodec s then (Err (ErrorString ''server should has any codec''), s)
      else (case sv_listener s of
              None \<Rightarrow> (Err (ErrorString ''server should has any listener''), s)
            | Some l \<Rightarrow>
                if sv_stopChan s \<noteq> SNil then (Err (ErrorString ''server already started''), s)
                else if dom (items (sv_methods s)) = {}
                then (Err (ErrorString ''server should have at least one handler''), s)
                else (case sp_doBeforeStart (sv_plugins s) (l, names (sv_methods s)) (sv_world s) of
                        (Some e, w) \<Rightarrow> (Err e, s\<lparr>sv_world := w\<rparr>)
                      | (None, w) \<Rightarrow>
                          (let s1 = (sv_defaults (s\<lparr>sv_world := w\<rparr>))\<lparr>sv_stopChan := SOpen\<rparr> in
                           case make_chan (Concurrency s1) of
                             Some p \<Rightarrow> (Panic p, s1)
                           | None \<Rightarrow>
                               (let s2 = sv_run s1 in
                                case sp_doAfterStart (sv_plugins s2) (l, names (sv_methods s2)) (sv_world s2) of
                                  (e, w') \<Rightarrow> (res_of_err e, s2\<lparr>sv_world := w'\<rparr>))))))"

text \<open>\<^verbatim>\<open>Stop\<close> up to the wait, which is \<open>Blocked\<close>, and from the wait on. The plugins get the
  listener, which a started server has.\<close>

definition the_listener :: "('v, 'w) server \<Rightarrow> listener" where
  "the_listener s = (case sv_listener s of None \<Rightarrow> OtherAddr | Some l \<Rightarrow> l)"

definition sv_Stop :: "('v, 'w) server \<Rightarrow> unit res \<times> ('v, 'w) server" where
  "sv_Stop s =
     (if sv_stopChan s = SNil then (Err (ErrorString ''server must be started before stopping it''), s)
      else (case sp_doBeforeStop (sv_plugins s) (the_listener s, names (sv_methods s)) (sv_world s) of
              (Some e, w) \<Rightarrow> (Err e, s\<lparr>sv_world := w\<rparr>)
            | (None, w) \<Rightarrow>
                if sv_stopChan s = SClosed then (Panic ''close of closed channel'', s\<lparr>sv_world := w, sv_stopChan := SNil\<rparr>)
                else (Blocked, s\<lparr>sv_world := w, sv_stopChan := SClosed, sstopping := StopWaiting\<rparr>)))"

definition sv_stopped :: "('v, 'w) server \<Rightarrow> unit res \<times> ('v, 'w) server" where
  "sv_stopped s =
     (case sp_doAfterStop (sv_plugins s) (the_listener s, names (sv_methods s)) (sv_world s) of
        (e, w) \<Rightarrow> (res_of_err e, s\<lparr>sv_world := w, sv_stopChan := SNil, sstopping := StopIdle\<rparr>))"

text \<open>\<^verbatim>\<open>Serve\<close> returns the error of the start or waits until no goroutine is left.\<close>

definition sv_Serve :: "('v, 'w) server \<Rightarrow> unit res \<times> ('v, 'w) server" where
  "sv_Serve s =
     (case sv_Start s of
        (Ok u, s') \<Rightarrow> (if \<forall>t\<in>set (sthreads s'). t = VGone then Ok () else Blocked, s')
      | (r, s') \<Rightarrow> (r, s'))"

definition isStopped :: "('v, 'w) server \<Rightarrow> bool" where
  "isStopped s \<longleftrightarrow> sv_stopChan s = SNil \<or> sv_stopChan s = SClosed"

section \<open>The goroutines\<close>

definition set_thread :: "nat \<Rightarrow> sthread \<Rightarrow> ('v, 'w) server \<Rightarrow> ('v, 'w) server" where
  "set_thread i t s = s\<lparr>sthreads := (sthreads s)[i := t]\<rparr>"

text \<open>An accepted connection gets its goroutine, and the next one is waited for.\<close>

definition accepted :: "nat \<Rightarrow> go_error option \<Rightarrow> ('v, 'w) server \<Rightarrow> ('v, 'w) server" where
  "accepted i e s =
     (case sp_doAcceptConnection (sv_plugins s) (if e = None then Some (length (sthreads s)) else None, e) (sv_world s) of
        (p, w) \<Rightarrow>
          if e = None \<and> p = None
          then s\<lparr>sv_world := w, sthreads := (sthreads s)[i := AAccept Accepting] @ [VStart]\<rparr>
          else set_thread i ABackoff (s\<lparr>sv_world := w\<rparr>))"

definition client_connected :: "nat \<Rightarrow> ('v, 'w) server \<Rightarrow> ('v, 'w) server" where
  "client_connected i s =
     (case sp_doClientConnected (sv_plugins s) (Some i) (sv_world s) of
        (Some e, w) \<Rightarrow> set_thread i VGone (s\<lparr>sv_world := w\<rparr>)
      | (None, w) \<Rightarrow> set_thread i VServe (s\<lparr>sv_world := w\<rparr>))"

definition client_disconnected :: "nat \<Rightarrow> go_error option \<Rightarrow> ('v, 'w) server \<Rightarrow> ('v, 'w) server" where
  "client_disconnected i e s =
     (case sp_doClientDisconnected (sv_plugins s) e (sv_world s) of
        (p, w) \<Rightarrow> set_thread i VGone (s\<lparr>sv_world := w\<rparr>))"

inductive vstep :: "('v, 'w) server \<Rightarrow> ('v, 'w) server \<Rightarrow> bool" where
  v_start: "sstopping s = StopIdle \<Longrightarrow> vstep s (snd (sv_Start s))"
| v_stop: "sstopping s = StopIdle \<Longrightarrow> vstep s (snd (sv_Stop s))"
| v_stopped: "sstopping s = StopWaiting \<Longrightarrow> \<forall>t\<in>set (sthreads s). t = VGone \<Longrightarrow> vstep s (snd (sv_stopped s))"
| a_accept: "i < length (sthreads s) \<Longrightarrow> sthreads s ! i = AAccept Accepting \<Longrightarrow> (listening s \<or> e \<noteq> None) \<Longrightarrow>
    vstep s (set_thread i (AAccept (Accepted e)) s)"
| a_late_accept: "i < length (sthreads s) \<Longrightarrow> sthreads s ! i = AWait Accepting \<Longrightarrow> (listening s \<or> e \<noteq> None) \<Longrightarrow>
    vstep s (set_thread i (AWait (Accepted e)) s)"
| a_stop: "i < length (sthreads s) \<Longrightarrow> sthreads s ! i = AAccept a \<Longrightarrow> sv_stopChan s = SClosed \<Longrightarrow>
    vstep s (set_thread i (AWait a) (s\<lparr>listening := False\<rparr>))"
| a_stopped: "i < length (sthreads s) \<Longrightarrow> sthreads s ! i = AWait (Accepted e) \<Longrightarrow> vstep s (set_thread i VGone s)"
| a_accepted: "i < length (sthreads s) \<Longrightarrow> sthreads s ! i = AAccept (Accepted e) \<Longrightarrow> vstep s (accepted i e s)"
| a_backoff_stop: "i < length (sthreads s) \<Longrightarrow> sthreads s ! i = ABackoff \<Longrightarrow> sv_stopChan s = SClosed \<Longrightarrow>
    vstep s (set_thread i VGone s)"
| a_backoff: "i < length (sthreads s) \<Longrightarrow> sthreads s ! i = ABackoff \<Longrightarrow>
    vstep s (set_thread i (AAccept Accepting) s)"
| v_connected: "i < length (sthreads s) \<Longrightarrow> sthreads s ! i = VStart \<Longrightarrow> vstep s (client_connected i s)"
| v_disconnected: "i < length (sthreads s) \<Longrightarrow> sthreads s ! i = VServe \<Longrightarrow> vstep s (client_disconnected i e s)"

definition sv_init :: "('v, 'w) server \<Rightarrow> bool" where
  "sv_init s \<longleftrightarrow> sv_stopChan s = SNil \<and> sstopping s = StopIdle \<and> sthreads s = [] \<and> listening s
     \<and> methods_inv (sv_methods s)"

section \<open>The invariant\<close>

fun is_acceptor :: "sthread \<Rightarrow> bool" where
  "is_acceptor (AAccept a) = True"
| "is_acceptor (AWait a) = True"
| "is_acceptor ABackoff = True"
| "is_acceptor _ = False"

text \<open>
  \<^verbatim>\<open>Stop\<close> waits exactly while the channel is closed, a server without a channel has no goroutine
  left, at most one accepts, and a running server has a method and a listener.
\<close>

definition sv_inv :: "('v, 'w) server \<Rightarrow> bool" where
  "sv_inv s \<longleftrightarrow> (sv_stopChan s = SClosed \<longleftrightarrow> sstopping s = StopWaiting)
     \<and> (sv_stopChan s = SNil \<longrightarrow> (\<forall>t\<in>set (sthreads s). t = VGone))
     \<and> length (filter is_acceptor (sthreads s)) \<le> 1
     \<and> (sv_stopChan s \<noteq> SNil \<longrightarrow> sv_listener s \<noteq> None \<and> names (sv_methods s) \<noteq> [])
     \<and> methods_inv (sv_methods s)"

lemma sv_init_inv: "sv_init s \<Longrightarrow> sv_inv s"
  by (simp add: sv_init_def sv_inv_def)

lemma thread_running: "sv_inv s \<Longrightarrow> i < length (sthreads s) \<Longrightarrow> sthreads s ! i \<noteq> VGone \<Longrightarrow> sv_stopChan s \<noteq> SNil"
  by (auto simp: sv_inv_def)

lemma set_thread_inv:
  assumes "sv_inv s" "i < length (sthreads s)" "sthreads s ! i \<noteq> VGone"
    and "sv_stopChan d = sv_stopChan s" "sstopping d = sstopping s" "sthreads d = sthreads s"
    and "sv_listener d = sv_listener s" "sv_methods d = sv_methods s"
    and "is_acceptor t \<Longrightarrow> is_acceptor (sthreads s ! i)"
  shows "sv_inv (set_thread i t d)"
proof -
  have "sv_stopChan s \<noteq> SNil"
    using assms(1-3) by (rule thread_running)
  then show ?thesis
    using assms length_filter_update [OF assms(2), of is_acceptor t]
    by (auto simp: sv_inv_def set_thread_def split: if_splits)
qed

lemma sv_inv_world [simp]: "sv_inv (s\<lparr>sv_world := w\<rparr>) = sv_inv s"
  by (simp add: sv_inv_def)

lemma names_not_Nil: "methods_inv m \<Longrightarrow> dom (items m) \<noteq> {} \<Longrightarrow> names m \<noteq> []"
  unfolding methods_inv_def by (metis list.set(1))

lemma sv_inv_refused_start:
  "sv_inv s \<Longrightarrow> sv_stopChan s = SNil \<Longrightarrow> sv_listener s = Some l \<Longrightarrow> dom (items (sv_methods s)) \<noteq> {} \<Longrightarrow>
    sv_inv ((sv_defaults (s\<lparr>sv_world := w\<rparr>))\<lparr>sv_stopChan := SOpen\<rparr>)"
  by (auto simp: sv_inv_def sv_defaults_def names_not_Nil)

lemma sv_inv_run:
  "sv_inv s \<Longrightarrow> sv_stopChan s = SNil \<Longrightarrow> sv_listener s = Some l \<Longrightarrow> dom (items (sv_methods s)) \<noteq> {} \<Longrightarrow>
    sv_inv (sv_run ((sv_defaults (s\<lparr>sv_world := w\<rparr>))\<lparr>sv_stopChan := SOpen\<rparr>))"
  by (auto simp: sv_inv_def sv_defaults_def sv_run_def names_not_Nil)

lemma sv_inv_start: "sv_inv s \<Longrightarrow> sv_inv (snd (sv_Start s))"
  unfolding sv_Start_def Let_def
  by (simp split: prod.splits option.splits add: sv_inv_refused_start sv_inv_run)

lemma sv_inv_stop: "sv_inv s \<Longrightarrow> sstopping s = StopIdle \<Longrightarrow> sv_inv (snd (sv_Stop s))"
  by (auto simp: sv_Stop_def sv_inv_def split: prod.splits option.splits)

lemma sv_inv_stopped:
  "sv_inv s \<Longrightarrow> sstopping s = StopWaiting \<Longrightarrow> \<forall>t\<in>set (sthreads s). t = VGone \<Longrightarrow> sv_inv (snd (sv_stopped s))"
  by (auto simp: sv_stopped_def sv_inv_def split: prod.splits)

lemma sv_inv_accepted:
  assumes inv: "sv_inv s" and i: "i < length (sthreads s)" "sthreads s ! i = AAccept (Accepted e)"
  shows "sv_inv (accepted i e s)"
proof -
  have "sv_stopChan s \<noteq> SNil"
    using thread_running [OF inv i(1)] i(2) by simp
  then have "sv_inv (s\<lparr>sv_world := w, sthreads := (sthreads s)[i := AAccept Accepting] @ [VStart]\<rparr>)" for w
    using inv i length_filter_update [OF i(1), of is_acceptor "AAccept Accepting"]
    by (auto simp: sv_inv_def)
  with i show ?thesis
    by (auto simp: accepted_def split: prod.splits intro!: set_thread_inv [OF inv])
qed

lemma client_connected_cases:
  obtains w t where "client_connected i s = set_thread i t (s\<lparr>sv_world := w\<rparr>)" "t = VGone \<or> t = VServe"
proof (cases "sp_doClientConnected (sv_plugins s) (Some i) (sv_world s)")
  case (Pair e w)
  then show ?thesis
    by (cases e) (auto simp: client_connected_def intro: that)
qed

lemma client_disconnected_cases:
  obtains w where "client_disconnected i e s = set_thread i VGone (s\<lparr>sv_world := w\<rparr>)"
  by (cases "sp_doClientDisconnected (sv_plugins s) e (sv_world s)") (auto simp: client_disconnected_def)

lemma vstep_inv:
  assumes inv: "sv_inv s" and step: "vstep s t"
  shows "sv_inv t"
  using step
proof cases
  case v_start
  with inv show ?thesis by (simp add: sv_inv_start)
next
  case v_stop
  with inv show ?thesis by (simp add: sv_inv_stop)
next
  case v_stopped
  with inv show ?thesis by (simp add: sv_inv_stopped)
next
  case (a_accepted i e)
  with inv show ?thesis by (simp add: sv_inv_accepted)
next
  case (v_connected i)
  then show ?thesis
    by (cases rule: client_connected_cases [of i s]) (auto intro!: set_thread_inv [OF inv])
next
  case (v_disconnected i e)
  then show ?thesis
    by (cases rule: client_disconnected_cases [of i e s]) (auto intro!: set_thread_inv [OF inv])
qed (auto intro!: set_thread_inv [OF inv])

interpretation server_life: machine_invariant sv_init vstep sv_inv
  by unfold_locales (fact sv_init_inv, fact vstep_inv)

section \<open>Stop returns\<close>

definition sv_closing :: "('v, 'w) server \<Rightarrow> bool" where
  "sv_closing s \<longleftrightarrow> sv_stopChan s = SClosed \<and> sstopping s = StopWaiting"

definition vends :: "nat \<Rightarrow> ('v, 'w) server \<Rightarrow> bool" where
  "vends i s \<longleftrightarrow> (\<exists>t. vstep\<^sup>*\<^sup>* s t \<and> sv_closing t \<and> sthreads t = (sthreads s)[i := VGone])"

lemma vends_step: "vstep s t \<Longrightarrow> sthreads t = (sthreads s)[i := p] \<Longrightarrow> vends i t \<Longrightarrow> vends i s"
  unfolding vends_def by (metis converse_rtranclp_into_rtranclp list_update_overwrite)

lemma vends_at: "vstep s t \<Longrightarrow> sthreads t = (sthreads s)[i := VGone] \<Longrightarrow> sv_closing t \<Longrightarrow> vends i s"
  unfolding vends_def by blast

lemma set_thread_simps [simp]:
  "sv_closing (set_thread i p s) = sv_closing s" "sthreads (set_thread i p s) = (sthreads s)[i := p]"
  "sv_closing (s\<lparr>sv_world := w\<rparr>) = sv_closing s" "sv_closing (s\<lparr>listening := b\<rparr>) = sv_closing s"
  by (simp_all add: set_thread_def sv_closing_def)

lemma sv_closing_chan: "sv_closing s \<Longrightarrow> sv_stopChan s = SClosed"
  by (simp add: sv_closing_def)

lemma vend_gone: "vends i s" if "i < length (sthreads s)" "sv_closing s" "sthreads s ! i = VGone"
  using that unfolding vends_def by (metis list_update_id rtranclp.rtrancl_refl)

lemma vend_backoff: "i < length (sthreads s) \<Longrightarrow> sv_closing s \<Longrightarrow> sthreads s ! i = ABackoff \<Longrightarrow> vends i s"
  by (rule vends_at [OF vstep.a_backoff_stop [of i s]]) (simp_all add: sv_closing_chan)

lemma vend_serve:
  assumes "i < length (sthreads s)" "sv_closing s" "sthreads s ! i = VServe"
  shows "vends i s"
proof (cases rule: client_disconnected_cases [of i None s])
  case (1 w)
  with vends_at [OF vstep.v_disconnected [OF assms(1,3)], of None i] assms(2) show ?thesis
    by simp
qed

lemma vend_start:
  assumes "i < length (sthreads s)" "sv_closing s" "sthreads s ! i = VStart"
  shows "vends i s"
proof (cases rule: client_connected_cases [of i s])
  case (1 w p)
  have "vends i (client_connected i s)"
    using 1 assms by (auto intro: vend_gone vend_serve)
  with 1 vends_step [OF vstep.v_connected [OF assms(1,3)], of i p] show ?thesis
    by simp
qed

lemma vend_wait: "i < length (sthreads s) \<Longrightarrow> sv_closing s \<Longrightarrow> sthreads s ! i = AWait a \<Longrightarrow> vends i s"
proof (cases a)
  case Accepting
  assume *: "i < length (sthreads s)" "sv_closing s" "sthreads s ! i = AWait a"
  let ?t = "set_thread i (AWait (Accepted (Some EOF))) s"
  have "vends i ?t"
    using * by (intro vends_at [OF vstep.a_stopped [of i ?t "Some EOF"]]) simp_all
  moreover have "vstep s ?t"
    using * Accepting by (intro vstep.a_late_accept) simp_all
  ultimately show ?thesis
    by (intro vends_step [of s ?t]) simp_all
next
  case (Accepted e)
  then show "i < length (sthreads s) \<Longrightarrow> sv_closing s \<Longrightarrow> sthreads s ! i = AWait a \<Longrightarrow> vends i s"
    by (intro vends_at [OF vstep.a_stopped [of i s e]]) simp_all
qed

lemma vend_accept: "i < length (sthreads s) \<Longrightarrow> sv_closing s \<Longrightarrow> sthreads s ! i = AAccept a \<Longrightarrow> vends i s"
  by (rule vends_step [OF vstep.a_stop [of i s a], of i "AWait a"]) (simp_all add: vend_wait sv_closing_chan)

interpretation server_stop: stoppable vstep sthreads "\<lambda>t. t = VGone" sv_closing
proof
  fix s :: "('v, 'w) server" and i
  assume "sv_closing s" "i < length (sthreads s)" "sthreads s ! i \<noteq> VGone"
  then have "vends i s"
    using vend_accept vend_wait vend_backoff vend_start vend_serve
    by (cases "sthreads s ! i") blast+
  then show "\<exists>t p. vstep\<^sup>*\<^sup>* s t \<and> sv_closing t \<and> sthreads t = (sthreads s)[i := p] \<and> p = VGone"
    unfolding vends_def by blast
qed

lemma server_stop_returns:
  assumes "sv_closing s"
  shows "\<exists>t. vstep\<^sup>*\<^sup>* s t \<and> sv_stopChan t = SNil \<and> sstopping t = StopIdle \<and> (\<forall>p\<in>set (sthreads t). p = VGone)"
proof -
  obtain u where u: "vstep\<^sup>*\<^sup>* s u" "sv_closing u" "\<forall>p\<in>set (sthreads u). p = VGone"
    using server_stop.all_end [OF assms] by blast
  then have "vstep u (snd (sv_stopped u))"
    by (intro vstep.v_stopped) (simp_all add: sv_closing_def)
  moreover have "sv_stopChan (snd (sv_stopped u)) = SNil" "sstopping (snd (sv_stopped u)) = StopIdle"
      "sthreads (snd (sv_stopped u)) = sthreads u"
    by (simp_all add: sv_stopped_def split: prod.splits)
  ultimately show ?thesis
    using u by (metis rtranclp.rtrancl_into_rtrancl)
qed

section \<open>Start\<close>

definition sv_startable :: "('v, 'w) server \<Rightarrow> bool" where
  "sv_startable s \<longleftrightarrow> sv_hasCodec s \<and> sv_listener s \<noteq> None \<and> sv_stopChan s = SNil
     \<and> dom (items (sv_methods s)) \<noteq> {}"

lemma sv_Start_startable:
  assumes "sv_startable s" "sp_doBeforeStart (sv_plugins s) (the_listener s, names (sv_methods s)) (sv_world s) = (None, w)"
    and "0 \<le> Concurrency s" "sp_doAfterStart (sv_plugins s) (the_listener s, names (sv_methods s)) w = (e, w')"
  shows "sv_Start s = (res_of_err e, (sv_run ((sv_defaults s)\<lparr>sv_stopChan := SOpen\<rparr>))\<lparr>sv_world := w'\<rparr>)"
proof -
  have pos: "make_chan (Concurrency (sv_defaults (s\<lparr>sv_world := w\<rparr>))) = None"
    using assms(3) by (simp add: make_chan_def sv_defaults_def DefaultConcurrency_def)
  have same: "sv_plugins (sv_run ((sv_defaults (s\<lparr>sv_world := w\<rparr>))\<lparr>sv_stopChan := SOpen\<rparr>)) = sv_plugins s"
      "sv_methods (sv_run ((sv_defaults (s\<lparr>sv_world := w\<rparr>))\<lparr>sv_stopChan := SOpen\<rparr>)) = sv_methods s"
      "sv_world (sv_run ((sv_defaults (s\<lparr>sv_world := w\<rparr>))\<lparr>sv_stopChan := SOpen\<rparr>)) = w"
      "(sv_run ((sv_defaults (s\<lparr>sv_world := w\<rparr>))\<lparr>sv_stopChan := SOpen\<rparr>))\<lparr>sv_world := w'\<rparr>
        = (sv_run ((sv_defaults s)\<lparr>sv_stopChan := SOpen\<rparr>))\<lparr>sv_world := w'\<rparr>"
    by (simp_all add: sv_run_def sv_defaults_def)
  obtain l where l: "sv_listener s = Some l" "the_listener s = l"
    using assms(1) by (auto simp: sv_startable_def the_listener_def)
  have d: "dom (items (sv_methods s)) \<noteq> {}"
    using assms(1) by (simp add: sv_startable_def)
  show ?thesis
    unfolding sv_Start_def l(1) Let_def
    using assms(1,2,4) d pos same l by (simp add: sv_startable_def del: dom_eq_empty_conv)
qed

section \<open>A closed listener\<close>

text \<open>Once the listener is closed no connection is accepted any more, also after another start.\<close>

fun deaf_thread :: "sthread \<Rightarrow> bool" where
  "deaf_thread VStart = False"
| "deaf_thread VServe = False"
| "deaf_thread (AAccept (Accepted None)) = False"
| "deaf_thread (AWait (Accepted None)) = False"
| "deaf_thread _ = True"

definition deaf :: "('v, 'w) server \<Rightarrow> bool" where
  "deaf s \<longleftrightarrow> \<not> listening s \<and> (\<forall>t\<in>set (sthreads s). deaf_thread t)"

lemma set_thread_deaf: "deaf s \<Longrightarrow> deaf_thread p \<Longrightarrow> deaf (set_thread i p s)"
  using set_update_subset_insert [of "sthreads s" i p] by (auto simp: deaf_def set_thread_def)

lemma deaf_simps [simp]: "deaf (s\<lparr>sv_world := w\<rparr>) = deaf s"
  by (simp add: deaf_def)

lemma deaf_nth: "deaf s \<Longrightarrow> i < length (sthreads s) \<Longrightarrow> deaf_thread (sthreads s ! i)"
  by (simp add: deaf_def)

lemma deaf_start: "deaf s \<Longrightarrow> deaf (snd (sv_Start s))"
  unfolding sv_Start_def Let_def
  by (simp split: prod.splits option.splits) (simp add: deaf_def sv_run_def sv_defaults_def)

lemma deaf_stop: "deaf s \<Longrightarrow> deaf (snd (sv_Stop s))"
  by (auto simp: sv_Stop_def deaf_def split: prod.splits option.splits)

lemma deaf_stopped: "deaf s \<Longrightarrow> deaf (snd (sv_stopped s))"
  by (auto simp: sv_stopped_def deaf_def split: prod.splits)

lemma deaf_step:
  assumes deaf: "deaf s" and step: "vstep s t"
  shows "deaf t"
  using step
proof cases
  case v_start
  with deaf show ?thesis by (simp add: deaf_start)
next
  case v_stop
  with deaf show ?thesis by (simp add: deaf_stop)
next
  case v_stopped
  with deaf show ?thesis by (simp add: deaf_stopped)
next
  case (a_accept i e)
  then have "deaf_thread (AAccept (Accepted e))"
    using deaf by (cases e) (auto simp: deaf_def)
  with a_accept deaf show ?thesis by (simp add: set_thread_deaf)
next
  case (a_late_accept i e)
  then have "deaf_thread (AWait (Accepted e))"
    using deaf by (cases e) (auto simp: deaf_def)
  with a_late_accept deaf show ?thesis by (simp add: set_thread_deaf)
next
  case (a_stop i a)
  then have "deaf_thread (AAccept a)"
    using deaf_nth [OF deaf] by metis
  then have "deaf_thread (AWait a)"
    by (cases a; cases "case a of Accepted e \<Rightarrow> e | _ \<Rightarrow> None") auto
  with a_stop deaf show ?thesis
    using set_thread_deaf [of "s\<lparr>listening := False\<rparr>" "AWait a" i] by (simp add: deaf_def)
next
  case (a_accepted i e)
  then have "e \<noteq> None"
    using deaf_nth [OF deaf, of i] by (cases e) auto
  with a_accepted deaf show ?thesis
    by (auto simp: accepted_def set_thread_deaf split: prod.splits)
next
  case (v_connected i)
  then show ?thesis
    using deaf_nth [OF deaf, of i] by simp
next
  case (v_disconnected i e)
  then show ?thesis
    using deaf_nth [OF deaf, of i] by simp
qed (use deaf in \<open>simp_all add: set_thread_deaf\<close>)

lemma stays_deaf: "vstep\<^sup>*\<^sup>* s t \<Longrightarrow> deaf s \<Longrightarrow> deaf t"
  by (induction rule: rtranclp_induct) (auto intro: deaf_step)

section \<open>A run\<close>

definition server0 :: "(byte list, unit) server" where
  "server0 = \<lparr>Concurrency = 0, sv_RequestBufSize = 0, PendingResponses = 0, sv_hasCodec = True,
     sv_listener = Some (TCPAddr 80 ''127.0.0.1''), sv_methods = echo_methods, sv_plugins = no_server_plugins,
     sv_stopChan = SNil, workerChain = None, sthreads = [], sstopping = StopIdle, sv_world = (), listening = True\<rparr>"

lemma server0_hooks [simp]:
  "sp_doBeforeStart no_server_plugins a w = (None, w)" "sp_doAfterStart no_server_plugins a w = (None, w)"
  "sp_doBeforeStop no_server_plugins a w = (None, w)" "sp_doAfterStop no_server_plugins a w = (None, w)"
  "sp_doAcceptConnection no_server_plugins b w = (None, w)"
  by (simp_all add: sBeforeStart.fire_none sAfterStart.fire_none sBeforeStop.fire_none sAfterStop.fire_none
      sAcceptConnection.fire_none)

lemma echo_methods_dom: "dom (items echo_methods) = {''echo''}"
  by (simp add: echo_methods_def echo_handler_def sv_Handler_def sm_add_def sm_register_def no_methods_def)

lemma echo_methods_inv: "methods_inv echo_methods"
  using methods_inv_add_methods [OF methods_inv_empty, of "Methods echo_handler" echo_handler "fst (sv_Handler False echo_handler no_methods)"]
  by (simp add: echo_methods_def sv_Handler_def)

definition server_running :: "(byte list, unit) server" where
  "server_running = server0\<lparr>Concurrency := 32768, sv_RequestBufSize := 1024, PendingResponses := 32768,
     sv_stopChan := SOpen, workerChain := Some 32768, sthreads := [AAccept Accepting]\<rparr>"

definition server_closing :: "(byte list, unit) server" where
  "server_closing = server_running\<lparr>sv_stopChan := SClosed, sstopping := StopWaiting\<rparr>"

lemma server_start0: "sv_Start server0 = (Ok (), server_running)"
  using sv_Start_startable [of server0 "()" None "()"]
  by (simp add: sv_startable_def server0_def server_running_def the_listener_def sv_run_def sv_defaults_def
      DefaultConcurrency_def DefaultPendingResponses_def sv_DefaultRequestBufSize_def echo_methods_dom del: dom_eq_empty_conv)

lemma server_running_reaches: "reaches sv_init vstep server_running"
proof (rule reaches_step [OF reaches_init])
  show "sv_init server0"
    by (simp add: sv_init_def server0_def echo_methods_inv)
  show "vstep server0 server_running"
    using vstep.v_start [of server0] server_start0 by (simp add: server0_def)
qed

lemma server_closing_reaches: "reaches sv_init vstep server_closing"
proof (rule reaches_step [OF server_running_reaches])
  have "sv_Stop server_running = (Blocked, server_closing)"
    by (simp add: sv_Stop_def server_closing_def server_running_def server0_def)
  then show "vstep server_running server_closing"
    using vstep.v_stop [of server_running] by (simp add: server_running_def server0_def)
qed

section \<open>Properties\<close>

text \<open>Starting a server that is configured, has a method and is not started: when the hooks
  before the start accept it, it gets the defaults for the fields that are 0, an open stop
  channel, worker slots for its concurrency and one goroutine that accepts; the outcome is that
  of the hooks after the start, whose error leaves the server running.\<close>

lemma server_start:
  assumes "sv_startable s" "sp_doBeforeStart (sv_plugins s) (the_listener s, names (sv_methods s)) (sv_world s) = (None, w)"
    and "0 \<le> Concurrency s" "sp_doAfterStart (sv_plugins s) (the_listener s, names (sv_methods s)) w = (e, w')"
  shows "fst (sv_Start s) = res_of_err e \<and> sv_stopChan (snd (sv_Start s)) = SOpen
    \<and> sthreads (snd (sv_Start s)) = [AAccept Accepting]
    \<and> workerChain (snd (sv_Start s)) = Some (if Concurrency s = 0 then 32768 else Concurrency s)
    \<and> sv_world (snd (sv_Start s)) = w'"
  unfolding sv_Start_startable [OF assms]
  by (simp add: sv_run_def sv_defaults_def DefaultConcurrency_def)

lemma server_start_witness:
  "fst (sv_Start server0) = Ok () \<and> workerChain (snd (sv_Start server0)) = Some 32768"
  using server_start [of server0 "()" None "()"]
  by (simp add: sv_startable_def server0_def echo_methods_dom del: dom_eq_empty_conv)



text \<open>\<^verbatim>\<open>Stop\<close> returns: from every reachable state in which it waits, the goroutine that accepts
  and those of the connections can end, and the server is then as if it had not been started.\<close>

lemma server_stop_ends:
  assumes "reaches sv_init vstep s" "sstopping s = StopWaiting"
  shows "\<exists>t. vstep\<^sup>*\<^sup>* s t \<and> sv_stopChan t = SNil \<and> sstopping t = StopIdle \<and> (\<forall>p\<in>set (sthreads t). p = VGone)"
proof -
  have "sv_closing s"
    using server_life.reaches_inv [OF assms(1)] assms(2) by (simp add: sv_inv_def sv_closing_def)
  then show ?thesis
    by (rule server_stop_returns)
qed

lemma server_stop_ends_witness:
  "\<exists>t. vstep\<^sup>*\<^sup>* server_closing t \<and> sv_stopChan t = SNil \<and> sstopping t = StopIdle \<and> (\<forall>p\<in>set (sthreads t). p = VGone)"
  by (rule server_stop_ends [OF server_closing_reaches]) (simp add: server_closing_def)

text \<open>C40: A server whose listener was closed by a stop can be started again, but never gets another
  connection: the start does not make a new listener, and every accept is an error.\<close>

theorem restarted_server_is_deaf:
  assumes "reaches sv_init vstep s" "sv_stopChan s = SNil" "\<not> listening s" "vstep\<^sup>*\<^sup>* s t"
  shows "VStart \<notin> set (sthreads t) \<and> VServe \<notin> set (sthreads t)"
proof -
  have "deaf s"
    using server_life.reaches_inv [OF assms(1)] assms(2,3) by (auto simp: sv_inv_def deaf_def)
  with assms(4) have "deaf t"
    by (rule stays_deaf)
  then show ?thesis
    by (auto simp: deaf_def)
qed

text \<open>A server that is stopped while it waits after a failed accept keeps its listener open.\<close>

lemma stop_in_backoff_keeps_listener:
  "\<exists>s. reaches sv_init (vstep :: (byte list, unit) server \<Rightarrow> (byte list, unit) server \<Rightarrow> bool) s
    \<and> sv_stopChan s = SNil \<and> sthreads s = [VGone] \<and> listening s"
proof -
  let ?s1 = "set_thread 0 (AAccept (Accepted (Some EOF))) server_closing"
  let ?s2 = "set_thread 0 ABackoff ?s1"
  let ?s3 = "set_thread 0 VGone ?s2"
  have one: "sthreads server_closing = [AAccept Accepting]" "sv_stopChan server_closing = SClosed"
      "sstopping server_closing = StopWaiting" "sv_plugins server_closing = no_server_plugins" "listening server_closing"
    by (simp_all add: server_closing_def server_running_def server0_def)
  have "vstep server_closing ?s1"
    using one by (intro vstep.a_accept) simp_all
  moreover have "accepted 0 (Some EOF) ?s1 = ?s2"
    using one by (simp add: accepted_def set_thread_def)
  then have "vstep ?s1 ?s2"
    using vstep.a_accepted [of 0 ?s1 "Some EOF"] one by simp
  moreover have "vstep ?s2 ?s3"
    using one by (intro vstep.a_backoff_stop) (simp_all add: set_thread_def)
  moreover have "vstep ?s3 (snd (sv_stopped ?s3))"
    using one by (intro vstep.v_stopped) (simp_all add: set_thread_def)
  ultimately have "reaches sv_init vstep (snd (sv_stopped ?s3))"
    using server_closing_reaches by (meson reaches_step)
  then show ?thesis
    using one by (intro exI [of _ "snd (sv_stopped ?s3)"]) (simp add: sv_stopped_def set_thread_def)
qed

lemma restarted_server_is_deaf_witness:
  "\<exists>s :: (byte list, unit) server. reaches sv_init vstep s \<and> sv_stopChan s = SNil \<and> VServe \<notin> set (sthreads (snd (sv_Start s)))"
proof -
  let ?s1 = "set_thread 0 (AWait Accepting) (server_closing\<lparr>listening := False\<rparr>)"
  let ?s2 = "set_thread 0 (AWait (Accepted (Some EOF))) ?s1"
  let ?s3 = "set_thread 0 VGone ?s2"
  let ?s4 = "snd (sv_stopped ?s3)"
  have one: "sthreads server_closing = [AAccept Accepting]" "sv_stopChan server_closing = SClosed"
      "sstopping server_closing = StopWaiting" "sv_plugins server_closing = no_server_plugins"
    by (simp_all add: server_closing_def server_running_def server0_def)
  have "vstep server_closing ?s1"
    using one by (intro vstep.a_stop) simp_all
  moreover have "vstep ?s1 ?s2"
    using one by (intro vstep.a_late_accept) (simp_all add: set_thread_def)
  moreover have "vstep ?s2 ?s3"
    using one by (intro vstep.a_stopped [of 0 _ "Some EOF"]) (simp_all add: set_thread_def)
  moreover have "vstep ?s3 ?s4"
    using one by (intro vstep.v_stopped) (simp_all add: set_thread_def)
  ultimately have r: "reaches sv_init vstep ?s4"
    using server_closing_reaches by (meson reaches_step)
  have s4: "sv_stopChan ?s4 = SNil" "\<not> listening ?s4" "sstopping ?s4 = StopIdle"
    using one by (simp_all add: sv_stopped_def set_thread_def)
  have "vstep\<^sup>*\<^sup>* ?s4 (snd (sv_Start ?s4))"
    using vstep.v_start [OF s4(3)] by blast
  with restarted_server_is_deaf [OF r s4(1,2)] r s4(1) show ?thesis
    by blast
qed

end
