(* ===== verification/Server_Whole.thy ===== *)
theory Server_Whole
  imports Server_Life Server_Conn_Live
begin

text \<open>
  One run of a server, from a start to the end of \<^verbatim>\<open>Stop\<close> and beyond: the lifecycle of
  \<open>Server_Life\<close> joined with a connection machine of \<open>Server_Conn\<close> for every accepted connection.
  The connections share the worker slots and the server's stop channel; a panic ends the process
  and with it every step. Handlers outlive their connection and the server.
\<close>

section \<open>State\<close>

text \<open>\<open>sv_conns\<close> has the connection of the goroutine at each position of \<open>sthreads\<close>, from the
  moment it is served.\<close>

record ('v, 'w) wserver =
  sv_codec :: "'v codec"
  sv_life :: "('v, 'w) server"
  sv_conns :: "nat \<rightharpoonup> sconn_state"
  sv_slots :: nat
  sv_down :: bool

definition slots_of :: "sconn_state \<Rightarrow> nat" where
  "slots_of c = length (filter holds_slot (tasks c))"

text \<open>A connection sees the slots all use and the stop channel.\<close>

definition conn_view :: "('v, 'w) wserver \<Rightarrow> sconn_state \<Rightarrow> sconn_state" where
  "conn_view s c = c\<lparr>workers := sv_slots s, others := sv_slots s - slots_of c, serverStop := isStopped (sv_life s)\<rparr>"

definition server_env :: "('v, 'w) wserver \<Rightarrow> 'v sconn_env" where
  "server_env s = \<lparr>se_codec = sv_codec s, se_methods = sv_methods (sv_life s),
     se_concurrency = nat (case workerChain (sv_life s) of None \<Rightarrow> 0 | Some n \<Rightarrow> n),
     se_pendingResponses = nat (PendingResponses (sv_life s))\<rparr>"

definition new_sconn :: "reader \<Rightarrow> writer \<Rightarrow> sconn_state" where
  "new_sconn rd wr = \<lparr>tasks = [], workers = 0, others = 0, responses = [], sw = SWIdle, sr = SRIdle, sh = SHWait,
     sincoming = rd, soutgoing = wr, told = [], sconnStop = False, serverStop = False, crashed = False, got = [], sent = []\<rparr>"

text \<open>Serving a connection makes its channels, which panics for a negative capacity.\<close>

definition serve_conn :: "nat \<Rightarrow> reader \<Rightarrow> writer \<Rightarrow> ('v, 'w) wserver \<Rightarrow> ('v, 'w) wserver" where
  "serve_conn i rd wr s =
     (let l = client_connected i (sv_life s) in
      if sthreads l ! i \<noteq> VServe then s\<lparr>sv_life := l\<rparr>
      else (case make_chan (PendingResponses l) of
              Some p \<Rightarrow> s\<lparr>sv_life := l, sv_down := True\<rparr>
            | None \<Rightarrow> s\<lparr>sv_life := l, sv_conns := (sv_conns s)(i \<mapsto> new_sconn rd wr)\<rparr>))"

text \<open>The goroutine that accepts.\<close>

inductive accept_step :: "('v, 'w) server \<Rightarrow> ('v, 'w) server \<Rightarrow> bool" where
  "vstep l l' \<Longrightarrow> i < length (sthreads l) \<Longrightarrow> is_acceptor (sthreads l ! i) \<Longrightarrow> sthreads l' ! i \<noteq> sthreads l ! i \<Longrightarrow>
    accept_step l l'"

inductive gstep :: "('v, 'w) wserver \<Rightarrow> ('v, 'w) wserver \<Rightarrow> bool" where
  g_stop: "\<not> sv_down s \<Longrightarrow> sstopping (sv_life s) = StopIdle \<Longrightarrow> gstep s (s\<lparr>sv_life := snd (sv_Stop (sv_life s))\<rparr>)"
| g_stopped: "\<not> sv_down s \<Longrightarrow> sstopping (sv_life s) = StopWaiting \<Longrightarrow> \<forall>p\<in>set (sthreads (sv_life s)). p = VGone \<Longrightarrow>
    gstep s (s\<lparr>sv_life := snd (sv_stopped (sv_life s))\<rparr>)"
| g_accept: "\<not> sv_down s \<Longrightarrow> accept_step (sv_life s) l \<Longrightarrow> gstep s (s\<lparr>sv_life := l\<rparr>)"
| g_serve: "\<not> sv_down s \<Longrightarrow> i < length (sthreads (sv_life s)) \<Longrightarrow> sthreads (sv_life s) ! i = VStart \<Longrightarrow>
    gstep s (serve_conn i rd wr s)"
| g_conn: "\<not> sv_down s \<Longrightarrow> sv_conns s i = Some c \<Longrightarrow> own (server_env s) (conn_view s c) c' \<Longrightarrow>
    gstep s (s\<lparr>sv_conns := (sv_conns s)(i \<mapsto> c'), sv_slots := workers c', sv_down := crashed c'\<rparr>)"
| g_end: "\<not> sv_down s \<Longrightarrow> i < length (sthreads (sv_life s)) \<Longrightarrow> sthreads (sv_life s) ! i = VServe \<Longrightarrow>
    sv_conns s i = Some c \<Longrightarrow> sh c = SHDone e \<Longrightarrow>
    gstep s (s\<lparr>sv_life := client_disconnected i e (sv_life s)\<rparr>)"

text \<open>A server whose start went past its plugins' hooks; the error of a hook after it leaves it running.\<close>

definition gstart :: "('v, 'w) wserver \<Rightarrow> bool" where
  "gstart s \<longleftrightarrow> (\<exists>l. sv_init l \<and> sv_life s = snd (sv_Start l)) \<and> sthreads (sv_life s) \<noteq> []
     \<and> sv_conns s = Map.empty \<and> sv_slots s = 0 \<and> \<not> sv_down s"

section \<open>The environment does not change\<close>

definition same_config :: "('v, 'w) server \<Rightarrow> ('v, 'w) server \<Rightarrow> bool" where
  "same_config l l' \<longleftrightarrow> sv_methods l' = sv_methods l \<and> workerChain l' = workerChain l \<and> PendingResponses l' = PendingResponses l"

lemma same_config_trans: "same_config a b \<Longrightarrow> same_config b c \<Longrightarrow> same_config a c"
  by (simp add: same_config_def)

lemma same_config_ops [simp]:
  "same_config l l" "same_config l (snd (sv_Stop l))" "same_config l (snd (sv_stopped l))"
  "same_config l (set_thread i t l)" "same_config l (set_thread i t (l\<lparr>listening := b\<rparr>))"
  "same_config l (client_connected i l)" "same_config l (client_disconnected i e l)" "same_config l (accepted i e l)"
  by (simp_all add: same_config_def sv_Stop_def sv_stopped_def set_thread_def client_connected_def client_disconnected_def
      accepted_def split: prod.splits option.splits)

text \<open>What a step of the accepting goroutine does to the rest.\<close>

lemma accept_step_frame:
  assumes inv: "sv_inv l" and step: "accept_step l l'"
  shows "sv_inv l' \<and> same_config l l' \<and> sv_stopChan l' = sv_stopChan l \<and> length (sthreads l) \<le> length (sthreads l')
    \<and> (\<forall>i<length (sthreads l). \<not> is_acceptor (sthreads l ! i) \<longrightarrow> sthreads l' ! i = sthreads l ! i)
    \<and> (\<forall>i<length (sthreads l'). sthreads l' ! i = VServe \<longrightarrow> i < length (sthreads l) \<and> sthreads l ! i = VServe)"
proof -
  obtain i where step: "vstep l l'" and i: "i < length (sthreads l)" "is_acceptor (sthreads l ! i)" "sthreads l' ! i \<noteq> sthreads l ! i"
    using step by (auto elim: accept_step.cases)
  have inv': "sv_inv l'"
    using inv step by (rule vstep_inv)
  have "sv_stopChan l \<noteq> SNil"
    using thread_running [OF inv i(1)] i(2) by (cases "sthreads l ! i") simp_all
  from step show ?thesis
  proof cases
    case v_start
    with i(3) \<open>sv_stopChan l \<noteq> SNil\<close> show ?thesis
      by (auto simp: sv_Start_def Let_def split: prod.splits option.splits)
  next
    case v_stop
    with i(3) show ?thesis
      by (auto simp: sv_Stop_def split: prod.splits option.splits if_splits)
  next
    case v_stopped
    with i show ?thesis
      by (auto simp: sv_stopped_def split: prod.splits)
  next
    case (a_accepted j e)
    then show ?thesis
      using inv' by (auto simp: accepted_def same_config_def set_thread_def nth_append nth_list_update split: prod.splits if_splits)
  next
    case (v_connected j)
    then have "j \<noteq> i"
      using i(2) by auto
    with v_connected i(3) show ?thesis
      by (cases rule: client_connected_cases [of j l]) simp
  next
    case (v_disconnected j e)
    then have "j \<noteq> i"
      using i(2) by auto
    with v_disconnected i(3) show ?thesis
      by (cases rule: client_disconnected_cases [of j e l]) simp
  qed (use inv' in \<open>auto simp: same_config_def set_thread_def nth_list_update split: if_splits\<close>)
qed

section \<open>The invariant\<close>

definition total_slots :: "(nat \<rightharpoonup> sconn_state) \<Rightarrow> nat" where
  "total_slots m = (\<Sum>i\<in>dom m. slots_of (the (m i)))"

lemma total_slots_new: "finite (dom m) \<Longrightarrow> m i = None \<Longrightarrow> total_slots (m(i \<mapsto> c)) = total_slots m + slots_of c"
proof -
  assume "finite (dom m)" "m i = None"
  moreover have "(\<Sum>j\<in>dom m. slots_of (the ((m(i \<mapsto> c)) j))) = total_slots m"
    unfolding total_slots_def using \<open>m i = None\<close> by (intro sum.cong) auto
  ultimately show ?thesis
    by (simp add: total_slots_def domIff)
qed

lemma total_slots_split: "finite (dom m) \<Longrightarrow> m i = Some c \<Longrightarrow> total_slots m = total_slots (m(i := None)) + slots_of c"
proof -
  assume "finite (dom m)" "m i = Some c"
  then have "total_slots ((m(i := None))(i \<mapsto> c)) = total_slots (m(i := None)) + slots_of c"
    by (intro total_slots_new) simp_all
  moreover have "(m(i := None))(i \<mapsto> c) = m"
    using \<open>m i = Some c\<close> by (auto simp: fun_eq_iff)
  ultimately show ?thesis
    by metis
qed

lemma total_slots_update: "finite (dom m) \<Longrightarrow> m i = Some c \<Longrightarrow> total_slots (m(i \<mapsto> c')) + slots_of c = total_slots m + slots_of c'"
  using total_slots_split [of m i c] total_slots_split [of "m(i \<mapsto> c')" i c'] by simp

lemma slots_of_two: "finite (dom m) \<Longrightarrow> m i = Some c \<Longrightarrow> m j = Some d \<Longrightarrow> i \<noteq> j \<Longrightarrow> slots_of c + slots_of d \<le> total_slots m"
  using total_slots_split [of m i c] total_slots_split [of "m(i := None)" j d] by simp

lemma slots_of_le: "finite (dom m) \<Longrightarrow> m i = Some c \<Longrightarrow> slots_of c \<le> total_slots m"
  using total_slots_split [of m i c] by simp

definition conn_ok :: "('v, 'w) wserver \<Rightarrow> sconn_state \<Rightarrow> bool" where
  "conn_ok s c \<longleftrightarrow> reaches (sconn_init (server_env s)) (sstep (server_env s)) (conn_view s c) \<and> (\<not> sv_down s \<longrightarrow> \<not> crashed c)"

definition g_inv :: "('v, 'w) wserver \<Rightarrow> bool" where
  "g_inv s \<longleftrightarrow> sv_inv (sv_life s)
     \<and> (\<forall>i c. sv_conns s i = Some c \<longrightarrow> i < length (sthreads (sv_life s))
           \<and> (sthreads (sv_life s) ! i = VServe \<or> sthreads (sv_life s) ! i = VGone) \<and> conn_ok s c)
     \<and> (\<forall>i<length (sthreads (sv_life s)). sthreads (sv_life s) ! i = VServe \<longrightarrow> sv_down s \<or> sv_conns s i \<noteq> None)
     \<and> finite (dom (sv_conns s)) \<and> sv_slots s = total_slots (sv_conns s) \<and> sv_slots s \<le> se_concurrency (server_env s)"

lemma server_env_same: "same_config (sv_life s) l \<Longrightarrow> server_env (s\<lparr>sv_life := l\<rparr>) = server_env s"
  by (simp add: server_env_def same_config_def)

lemma conn_view_life:
  "conn_view (s\<lparr>sv_life := l\<rparr>) c = (conn_view s c)\<lparr>serverStop := isStopped l\<rparr>"
  "(conn_view s c)\<lparr>serverStop := isStopped (sv_life s)\<rparr> = conn_view s c"
  by (simp_all add: conn_view_def)

lemma conn_ok_life:
  assumes "conn_ok s c" "same_config (sv_life s) l" "isStopped (sv_life s) \<Longrightarrow> isStopped l"
  shows "conn_ok (s\<lparr>sv_life := l\<rparr>) c"
proof -
  have reach: "reaches (sconn_init (server_env s)) (sstep (server_env s)) (conn_view s c)"
    using assms(1) by (simp add: conn_ok_def)
  have "reaches (sconn_init (server_env s)) (sstep (server_env s)) ((conn_view s c)\<lparr>serverStop := isStopped l\<rparr>)"
  proof (cases "isStopped l = isStopped (sv_life s)")
    case True
    with reach show ?thesis
      by (simp only: conn_view_life(2))
  next
    case False
    with assms(3) have "isStopped l = True"
      by blast
    then show ?thesis
      using reaches_step [OF reach sstep.n_stop] by simp
  qed
  with assms(1) show ?thesis
    by (simp add: conn_ok_def server_env_same [OF assms(2)] conn_view_life(1))
qed

lemma g_inv_conn:
  assumes "g_inv s" "sv_conns s i = Some c"
  shows "i < length (sthreads (sv_life s))" "sthreads (sv_life s) ! i = VServe \<or> sthreads (sv_life s) ! i = VGone" "conn_ok s c"
  using assms by (simp_all add: g_inv_def)

lemma g_invI:
  assumes "sv_inv (sv_life s)"
    and "\<And>i c. sv_conns s i = Some c \<Longrightarrow> i < length (sthreads (sv_life s))
           \<and> (sthreads (sv_life s) ! i = VServe \<or> sthreads (sv_life s) ! i = VGone) \<and> conn_ok s c"
    and "\<And>i. i < length (sthreads (sv_life s)) \<Longrightarrow> sthreads (sv_life s) ! i = VServe \<Longrightarrow> \<not> sv_down s \<Longrightarrow> sv_conns s i \<noteq> None"
    and "finite (dom (sv_conns s))" "sv_slots s = total_slots (sv_conns s)" "sv_slots s \<le> se_concurrency (server_env s)"
  shows "g_inv s"
  using assms by (auto simp: g_inv_def)

lemma g_inv_parts:
  "g_inv s \<Longrightarrow> sv_inv (sv_life s)"
  "g_inv s \<Longrightarrow> i < length (sthreads (sv_life s)) \<Longrightarrow> sthreads (sv_life s) ! i = VServe \<Longrightarrow> \<not> sv_down s \<Longrightarrow> sv_conns s i \<noteq> None"
  "g_inv s \<Longrightarrow> finite (dom (sv_conns s))" "g_inv s \<Longrightarrow> sv_slots s = total_slots (sv_conns s)"
  "g_inv s \<Longrightarrow> sv_slots s \<le> se_concurrency (server_env s)"
  by (auto simp: g_inv_def)

lemma g_inv_life:
  assumes inv: "g_inv s" and l: "sv_inv l" "same_config (sv_life s) l" "isStopped (sv_life s) \<Longrightarrow> isStopped l"
    and old: "\<And>i. i < length (sthreads (sv_life s)) \<Longrightarrow> sthreads (sv_life s) ! i = VServe \<or> sthreads (sv_life s) ! i = VGone \<Longrightarrow>
      i < length (sthreads l) \<and> (sthreads l ! i = VServe \<or> sthreads l ! i = VGone)"
    and new: "\<And>i. i < length (sthreads l) \<Longrightarrow> sthreads l ! i = VServe \<Longrightarrow>
      i < length (sthreads (sv_life s)) \<and> sthreads (sv_life s) ! i = VServe"
  shows "g_inv (s\<lparr>sv_life := l\<rparr>)"
proof (rule g_invI)
  show "sv_inv (sv_life (s\<lparr>sv_life := l\<rparr>))"
    using l(1) by simp
  show "sv_slots (s\<lparr>sv_life := l\<rparr>) \<le> se_concurrency (server_env (s\<lparr>sv_life := l\<rparr>))"
    unfolding server_env_same [OF l(2)] using g_inv_parts(5) [OF inv] by simp
next
  fix i c
  assume "sv_conns (s\<lparr>sv_life := l\<rparr>) i = Some c"
  then have "sv_conns s i = Some c"
    by simp
  then show "i < length (sthreads (sv_life (s\<lparr>sv_life := l\<rparr>))) \<and> (sthreads (sv_life (s\<lparr>sv_life := l\<rparr>)) ! i = VServe
      \<or> sthreads (sv_life (s\<lparr>sv_life := l\<rparr>)) ! i = VGone) \<and> conn_ok (s\<lparr>sv_life := l\<rparr>) c"
    using old g_inv_conn [OF inv] conn_ok_life [OF _ l(2,3)] by simp
qed (use new g_inv_parts [OF inv] in simp_all)

section \<open>It is kept\<close>

lemma own_workers: "own env s t \<Longrightarrow> workers t = workers s \<or> workers t = workers s + 1 \<or> workers t + 1 = workers s"
  unfolding own_def
  by (elim conjE, cases rule: sstep.cases)
    (auto simp: read_request_def write_response_def run_task_def split: prod.splits option.splits handled.splits)

lemma conn_view_slots:
  assumes "own env (conn_view s c) c'" "reaches (sconn_init env) (sstep env) (conn_view s c)" "slots_of c \<le> sv_slots s"
  shows "workers c' + slots_of c = sv_slots s + slots_of c'" "workers c' \<le> se_concurrency env"
    "others c' = workers c' - slots_of c'" "reaches (sconn_init env) (sstep env) c'"
proof -
  have step: "sstep env (conn_view s c) c'" "others c' = sv_slots s - slots_of c"
    using assms(1) by (simp_all add: own_def conn_view_def)
  show "reaches (sconn_init env) (sstep env) c'"
    using reaches_step [OF assms(2) step(1)] .
  then have "inv_slots env c'"
    using server_conn.reaches_inv by (auto simp: sconn_inv_def)
  then show "workers c' + slots_of c = sv_slots s + slots_of c'" "workers c' \<le> se_concurrency env"
      "others c' = workers c' - slots_of c'"
    using step(2) assms(3) by (simp_all add: inv_slots_def slots_of_def)
qed

text \<open>The other connections see one slot taken or given back.\<close>

lemma conn_ok_slots:
  assumes ok: "conn_ok s d" and n: "n = sv_slots s \<or> n = sv_slots s + 1 \<or> n + 1 = sv_slots s"
    and le: "n \<le> se_concurrency (server_env s)" "slots_of d \<le> sv_slots s" "slots_of d \<le> n" and up: "sv_down s \<or> \<not> b \<longrightarrow> \<not> crashed d"
  shows "conn_ok (s\<lparr>sv_conns := m, sv_slots := n, sv_down := b\<rparr>) d"
proof -
  let ?env = "server_env s" and ?v = "conn_view s d"
  have reach: "reaches (sconn_init ?env) (sstep ?env) ?v"
    using ok by (simp add: conn_ok_def)
  have view: "conn_view (s\<lparr>sv_conns := m, sv_slots := n, sv_down := b\<rparr>) d = ?v\<lparr>workers := n, others := n - slots_of d\<rparr>"
    by (simp add: conn_view_def)
  have "reaches (sconn_init ?env) (sstep ?env) (?v\<lparr>workers := n, others := n - slots_of d\<rparr>)"
    using n
  proof (elim disjE)
    assume "n = sv_slots s"
    then have "?v\<lparr>workers := n, others := n - slots_of d\<rparr> = ?v"
      by (simp add: conn_view_def)
    with reach show ?thesis
      by metis
  next
    assume n: "n = sv_slots s + 1"
    have "sstep ?env ?v (?v\<lparr>workers := workers ?v + 1, others := others ?v + 1\<rparr>)"
      using le(1) n by (intro sstep.o_take) (simp add: conn_view_def)
    moreover have "workers ?v + 1 = n" "others ?v + 1 = n - slots_of d"
      using n le(2) by (simp_all add: conn_view_def)
    ultimately show ?thesis
      using reaches_step [OF reach] by metis
  next
    assume n: "n + 1 = sv_slots s"
    then have "0 < others ?v"
      using le(3) by (simp add: conn_view_def)
    then have "sstep ?env ?v (?v\<lparr>workers := workers ?v - 1, others := others ?v - 1\<rparr>)"
      by (rule sstep.o_release)
    moreover have "workers ?v - 1 = n" "others ?v - 1 = n - slots_of d"
      using n by (simp_all add: conn_view_def)
    ultimately show ?thesis
      using reaches_step [OF reach] by metis
  qed
  moreover have "server_env (s\<lparr>sv_conns := m, sv_slots := n, sv_down := b\<rparr>) = ?env"
    by (simp add: server_env_def)
  ultimately show ?thesis
    using up by (simp add: conn_ok_def view)
qed

lemma g_inv_own:
  assumes inv: "g_inv s" and up: "\<not> sv_down s" and c: "sv_conns s i = Some c" and step: "own (server_env s) (conn_view s c) c'"
  shows "g_inv (s\<lparr>sv_conns := (sv_conns s)(i \<mapsto> c'), sv_slots := workers c', sv_down := crashed c'\<rparr>)" (is "g_inv ?t")
proof -
  let ?env = "server_env s" and ?m = "sv_conns s"
  note parts = g_inv_parts [OF inv] and ok = g_inv_conn [OF inv]
  have le: "slots_of c \<le> sv_slots s"
    using slots_of_le [of ?m i c] parts(3,4) c by simp
  have reach: "reaches (sconn_init ?env) (sstep ?env) (conn_view s c)"
    using ok(3) [OF c] by (simp add: conn_ok_def)
  note c' = conn_view_slots [OF step reach le]
  have w: "workers c' = sv_slots s \<or> workers c' = sv_slots s + 1 \<or> workers c' + 1 = sv_slots s"
    using own_workers [OF step] by (simp add: conn_view_def)
  have env: "server_env ?t = ?env"
    by (simp add: server_env_def)
  have total: "workers c' = total_slots (?m(i \<mapsto> c'))"
    using total_slots_update [of ?m i c c'] parts(3,4) c c'(1) by simp
  have "conn_view ?t c' = c'"
    using c'(3) step by (simp add: conn_view_def own_def)
  then have mine: "conn_ok ?t c'"
    unfolding conn_ok_def env using c'(4) by simp
  have other: "conn_ok ?t d" if d: "?m j = Some d" "j \<noteq> i" for j d
  proof (rule conn_ok_slots [OF ok(3) [OF d(1)] w c'(2)])
    show "slots_of d \<le> sv_slots s"
      using slots_of_le [of ?m j d] parts(3,4) d by simp
    show "slots_of d \<le> workers c'"
      using slots_of_le [of "?m(i \<mapsto> c')" j d] parts(3) d total by simp
    show "sv_down s \<or> \<not> crashed c' \<longrightarrow> \<not> crashed d"
      using ok(3) [OF d(1)] up by (simp add: conn_ok_def)
  qed
  show ?thesis
  proof (rule g_invI)
    fix j d
    assume "sv_conns ?t j = Some d"
    then show "j < length (sthreads (sv_life ?t)) \<and> (sthreads (sv_life ?t) ! j = VServe \<or> sthreads (sv_life ?t) ! j = VGone) \<and> conn_ok ?t d"
      using ok(1,2) [OF c] ok(1,2) [of j d] mine other [of j d] by (cases "j = i") simp_all
  next
    show "sv_slots ?t \<le> se_concurrency (server_env ?t)"
      unfolding env using c'(2) by simp
    show "sv_slots ?t = total_slots (sv_conns ?t)"
      using total by simp
  next
    fix j
    assume "j < length (sthreads (sv_life ?t))" "sthreads (sv_life ?t) ! j = VServe"
    then show "sv_conns ?t j \<noteq> None"
      using parts(2) [of j] up by simp
  qed (use parts in simp_all)
qed

lemma sthreads_Stop [simp]:
  "sthreads (snd (sv_Stop l)) = sthreads l" "sthreads (snd (sv_stopped l)) = sthreads l"
  by (simp_all add: sv_Stop_def sv_stopped_def split: prod.splits option.splits)

lemma isStopped_ops:
  "sv_stopChan l \<noteq> SOpen \<Longrightarrow> isStopped (snd (sv_Stop l))" "isStopped (snd (sv_stopped l))"
  "sv_stopChan l' = sv_stopChan l \<Longrightarrow> isStopped l' = isStopped l"
  by (cases "sv_stopChan l") (auto simp: isStopped_def sv_Stop_def sv_stopped_def split: prod.splits option.splits)

lemma g_inv_stop: "g_inv s \<Longrightarrow> sstopping (sv_life s) = StopIdle \<Longrightarrow> g_inv (s\<lparr>sv_life := snd (sv_Stop (sv_life s))\<rparr>)"
  by (rule g_inv_life) (auto simp: sv_inv_stop g_inv_parts(1) isStopped_ops(1) isStopped_def [of "sv_life s"])

lemma g_inv_stopped:
  "g_inv s \<Longrightarrow> sstopping (sv_life s) = StopWaiting \<Longrightarrow> \<forall>p\<in>set (sthreads (sv_life s)). p = VGone \<Longrightarrow>
    g_inv (s\<lparr>sv_life := snd (sv_stopped (sv_life s))\<rparr>)"
  by (rule g_inv_life) (auto simp: sv_inv_stopped g_inv_parts(1) isStopped_ops(2))

lemmas accept_step_facts =
  accept_step_frame [THEN conjunct1]
  accept_step_frame [THEN conjunct2, THEN conjunct1]
  accept_step_frame [THEN conjunct2, THEN conjunct2, THEN conjunct1]
  accept_step_frame [THEN conjunct2, THEN conjunct2, THEN conjunct2, THEN conjunct1]
  accept_step_frame [THEN conjunct2, THEN conjunct2, THEN conjunct2, THEN conjunct2, THEN conjunct1, rule_format]
  accept_step_frame [THEN conjunct2, THEN conjunct2, THEN conjunct2, THEN conjunct2, THEN conjunct2, rule_format]

lemma g_inv_accept:
  assumes "g_inv s" "accept_step (sv_life s) l"
  shows "g_inv (s\<lparr>sv_life := l\<rparr>)"
proof -
  note frame = accept_step_facts [OF g_inv_parts(1) [OF assms(1)] assms(2)]
  have new: "i < length (sthreads (sv_life s)) \<and> sthreads (sv_life s) ! i = VServe"
    if "i < length (sthreads l)" "sthreads l ! i = VServe" for i
    using frame(6) that .
  have old: "i < length (sthreads l) \<and> (sthreads l ! i = VServe \<or> sthreads l ! i = VGone)"
    if i: "i < length (sthreads (sv_life s))" "sthreads (sv_life s) ! i = VServe \<or> sthreads (sv_life s) ! i = VGone" for i
  proof -
    have "\<not> is_acceptor (sthreads (sv_life s) ! i)"
      using i(2) by auto
    with i(1) frame(4) frame(5) [of i] have "sthreads l ! i = sthreads (sv_life s) ! i" "i < length (sthreads l)"
      by simp_all
    with i(2) show ?thesis
      by simp
  qed
  show ?thesis
    by (rule g_inv_life [OF assms(1) frame(1,2) _ old new]) (simp add: isStopped_ops(3) [OF frame(3)])
qed

lemma conn_ok_frame [simp]: "conn_ok (s\<lparr>sv_conns := m\<rparr>) d = conn_ok s d"
  by (simp add: conn_ok_def server_env_def conn_view_def)

lemma conn_ok_down: "conn_ok s d \<Longrightarrow> conn_ok (s\<lparr>sv_down := True\<rparr>) d"
  by (simp add: conn_ok_def server_env_def conn_view_def)

lemma g_inv_end:
  assumes inv: "g_inv s" and i: "i < length (sthreads (sv_life s))" "sthreads (sv_life s) ! i = VServe"
  shows "g_inv (s\<lparr>sv_life := client_disconnected i e (sv_life s)\<rparr>)"
proof (cases rule: client_disconnected_cases [of i e "sv_life s"])
  case (1 w)
  let ?l = "client_disconnected i e (sv_life s)"
  have "sv_inv ?l"
    using vstep_inv [OF g_inv_parts(1) [OF inv] vstep.v_disconnected [OF i]] .
  moreover have "isStopped ?l = isStopped (sv_life s)"
    by (rule isStopped_ops(3)) (simp add: 1 set_thread_def)
  moreover have "sthreads ?l = (sthreads (sv_life s))[i := VGone]"
    by (simp add: 1)
  ultimately show ?thesis
    using i by (intro g_inv_life [OF inv]) (auto simp: nth_list_update split: if_splits)
qed

lemma new_conn_ok:
  assumes "sv_slots s \<le> se_concurrency (server_env s)"
  shows "conn_ok s (new_sconn rd wr)"
  using assms by (auto simp: conn_ok_def conn_view_def new_sconn_def slots_of_def sconn_init_def intro: reaches_init)

lemma g_inv_serve:
  assumes inv: "g_inv s" and up: "\<not> sv_down s" and i: "i < length (sthreads (sv_life s))" "sthreads (sv_life s) ! i = VStart"
  shows "g_inv (serve_conn i rd wr s)"
proof (cases rule: client_connected_cases [of i "sv_life s"])
  case (1 w p)
  let ?l = "client_connected i (sv_life s)" and ?c = "new_sconn rd wr"
  have l: "sv_inv ?l"
    using vstep_inv [OF g_inv_parts(1) [OF inv] vstep.v_connected [OF i]] .
  have st: "isStopped ?l = isStopped (sv_life s)"
    by (rule isStopped_ops(3)) (simp add: 1 set_thread_def)
  have th: "sthreads ?l = (sthreads (sv_life s))[i := p]"
    by (simp add: 1)
  note parts = g_inv_parts [OF inv] and ok = g_inv_conn [OF inv]
  have none: "sv_conns s i = None"
    using ok(2) [of i] i(2) by (cases "sv_conns s i") auto
  have okl: "conn_ok (s\<lparr>sv_life := ?l\<rparr>) d" if "sv_conns s j = Some d" for j d
    using conn_ok_life [OF ok(3) [OF that], of ?l] st by simp
  have le: "sv_slots s \<le> se_concurrency (server_env (s\<lparr>sv_life := ?l\<rparr>))"
    using parts(5) by (simp add: server_env_same)
  show ?thesis
  proof (cases "p = VServe")
    case False
    with 1(2) have "p = VGone"
      by simp
    then have "g_inv (s\<lparr>sv_life := ?l\<rparr>)"
      using i th st l by (intro g_inv_life [OF inv]) (auto simp: nth_list_update split: if_splits)
    then show ?thesis
      using False i th by (simp add: serve_conn_def Let_def)
  next
    case True
    then have serve: "sthreads ?l ! i = VServe"
      using i th by simp
    have old: "j < length (sthreads ?l) \<and> (sthreads ?l ! j = VServe \<or> sthreads ?l ! j = VGone)" if "sv_conns s j = Some d" for j d
    proof -
      have "j \<noteq> i"
        using that none by auto
      then show ?thesis
        using ok(1,2) [OF that] th by simp
    qed
    show ?thesis
    proof (cases "make_chan (PendingResponses ?l)")
      case (Some x)
      then have eq: "serve_conn i rd wr s = s\<lparr>sv_life := ?l, sv_down := True\<rparr>"
        using serve by (simp add: serve_conn_def Let_def)
      show ?thesis
        unfolding eq
        by (rule g_invI) (use parts(3,4) old conn_ok_down [OF okl] le l in \<open>simp_all add: server_env_def\<close>)
    next
      case None
      then have eq: "serve_conn i rd wr s = s\<lparr>sv_life := ?l, sv_conns := (sv_conns s)(i \<mapsto> ?c)\<rparr>"
        using serve by (simp add: serve_conn_def Let_def)
      show ?thesis
        unfolding eq
      proof (rule g_invI)
        fix j d
        let ?t = "s\<lparr>sv_life := ?l, sv_conns := (sv_conns s)(i \<mapsto> ?c)\<rparr>"
        assume "sv_conns ?t j = Some d"
        moreover have "conn_ok ?t ?c"
          using le by (intro new_conn_ok) (simp add: server_env_def)
        ultimately show "j < length (sthreads (sv_life ?t)) \<and> (sthreads (sv_life ?t) ! j = VServe \<or> sthreads (sv_life ?t) ! j = VGone) \<and> conn_ok ?t d"
          using old [of j d] okl [of j d] serve i(1) th by (cases "j = i") simp_all
      next
        fix j
        let ?t = "s\<lparr>sv_life := ?l, sv_conns := (sv_conns s)(i \<mapsto> ?c)\<rparr>"
        assume "j < length (sthreads (sv_life ?t))" "sthreads (sv_life ?t) ! j = VServe"
        then show "sv_conns ?t j \<noteq> None"
          using parts(2) [of j] up th by (cases "j = i") simp_all
      next
        let ?t = "s\<lparr>sv_life := ?l, sv_conns := (sv_conns s)(i \<mapsto> ?c)\<rparr>"
        show "sv_slots ?t = total_slots (sv_conns ?t)"
          using parts(3,4) none by (simp add: total_slots_new) (simp add: slots_of_def new_sconn_def)
        show "sv_slots ?t \<le> se_concurrency (server_env ?t)"
          using le by (simp add: server_env_def)
      qed (use parts(3) l in simp_all)
    qed
  qed
qed

lemma gstart_inv:
  assumes "gstart s"
  shows "g_inv s"
proof -
  obtain l where l: "sv_init l" "sv_life s = snd (sv_Start l)"
    using assms by (auto simp: gstart_def)
  then have "sv_inv (sv_life s)"
    by (simp add: sv_init_inv sv_inv_start)
  moreover have "sthreads (snd (sv_Start l)) = [] \<or> sthreads (snd (sv_Start l)) = [AAccept Accepting]"
    using l(1) by (auto simp: sv_init_def sv_Start_def sv_run_def sv_defaults_def Let_def split: prod.splits option.splits)
  then have "VServe \<notin> set (sthreads (sv_life s))"
    using l(2) by auto
  then have "sthreads (sv_life s) ! i \<noteq> VServe" if "i < length (sthreads (sv_life s))" for i
    using that by (metis nth_mem)
  ultimately show ?thesis
    using assms by (intro g_invI) (simp_all add: gstart_def total_slots_def)
qed

lemma gstep_inv:
  assumes inv: "g_inv s" and step: "gstep s t"
  shows "g_inv t"
  using step
proof cases
  case g_stop
  with inv show ?thesis by (simp add: g_inv_stop)
next
  case g_stopped
  with inv show ?thesis by (simp add: g_inv_stopped)
next
  case (g_accept l)
  with inv show ?thesis by (simp add: g_inv_accept)
next
  case (g_serve i rd wr)
  with inv show ?thesis by (simp add: g_inv_serve)
next
  case (g_conn i c c')
  with inv show ?thesis by (simp add: g_inv_own)
next
  case (g_end i c e)
  with inv show ?thesis by (simp add: g_inv_end)
qed

interpretation server_whole: machine_invariant gstart gstep g_inv
  by unfold_locales (fact gstart_inv, fact gstep_inv)

end
