(* ===== verification/Server_Whole_Props.thy ===== *)
theory Server_Whole_Props
  imports Server_Whole
begin

text \<open>
  The properties of one run of a server with all its connections: every connection is a run of the
  connection machine, the connections share the slots, \<^verbatim>\<open>Stop\<close> returns, and how a client that goes
  away can take the slots with it.
\<close>

section \<open>Running one connection\<close>

lemma own_up: "own env s t \<Longrightarrow> \<not> crashed t \<Longrightarrow> \<not> crashed s"
  unfolding own_def by (elim conjE, cases rule: sstep.cases) auto

definition at_conn :: "nat \<Rightarrow> ('v, 'w) wserver \<Rightarrow> sconn_state \<Rightarrow> ('v, 'w) wserver \<Rightarrow> bool" where
  "at_conn i s c t \<longleftrightarrow> sv_life t = sv_life s \<and> sv_codec t = sv_codec s \<and> \<not> sv_down t
     \<and> (\<forall>j. j \<noteq> i \<longrightarrow> sv_conns t j = sv_conns s j) \<and> (\<exists>d. sv_conns t i = Some d \<and> conn_view t d = c)"

lemma at_conn_env: "at_conn i s c t \<Longrightarrow> server_env t = server_env s"
  by (simp add: at_conn_def server_env_def)

lemma at_conn_step:
  assumes inv: "g_inv t" and at: "at_conn i s c t" and step: "own (server_env s) c c'" and up: "\<not> crashed c'"
  shows "\<exists>u. gstep t u \<and> at_conn i s c' u"
proof -
  obtain d where d: "sv_conns t i = Some d" "conn_view t d = c" and ndown: "\<not> sv_down t"
    using at by (auto simp: at_conn_def)
  let ?u = "t\<lparr>sv_conns := (sv_conns t)(i \<mapsto> c'), sv_slots := workers c', sv_down := crashed c'\<rparr>"
  have own: "own (server_env t) (conn_view t d) c'"
    using step d(2) at_conn_env [OF at] by simp
  have "slots_of d \<le> sv_slots t"
    using slots_of_le [of "sv_conns t" i d] g_inv_parts(3,4) [OF inv] d(1) by simp
  moreover have "reaches (sconn_init (server_env t)) (sstep (server_env t)) (conn_view t d)"
    using g_inv_conn(3) [OF inv d(1)] by (simp add: conn_ok_def)
  ultimately have "others c' = workers c' - slots_of c'"
    using conn_view_slots [OF own] by blast
  then have "conn_view ?u c' = c'"
    using own by (simp add: conn_view_def own_def)
  then have "at_conn i s c' ?u"
    using at up by (simp add: at_conn_def)
  with gstep.g_conn [OF ndown d(1) own] show ?thesis
    by blast
qed

lemma at_conn_run:
  assumes inv: "g_inv s" and c: "sv_conns s i = Some c" and up: "\<not> sv_down s"
    and run: "(own (server_env s))\<^sup>*\<^sup>* (conn_view s c) c'" and up': "\<not> crashed c'"
  shows "\<exists>t. gstep\<^sup>*\<^sup>* s t \<and> at_conn i s c' t"
  using run up'
proof (induction rule: rtranclp_induct)
  case base
  show ?case
    using c up by (intro exI [of _ s]) (simp add: at_conn_def)
next
  case (step d e)
  then obtain t where t: "gstep\<^sup>*\<^sup>* s t" "at_conn i s d t"
    using own_up by blast
  have "g_inv t"
    using server_whole.steps_inv [OF t(1) inv] .
  with at_conn_step [OF _ t(2) step.hyps(2) step.prems] t(1) show ?case
    by (meson rtranclp.rtrancl_into_rtrancl)
qed

section \<open>Stop returns\<close>










lemma PendingResponses_set_thread [simp]: "PendingResponses (set_thread i p l) = PendingResponses l"
  by (simp add: set_thread_def)





section \<open>Slots that are never given back\<close>

text \<open>Every slot is held by a handler that waits to send on a full channel nobody reads.\<close>

definition conn_stuck :: "nat \<Rightarrow> sconn_state \<Rightarrow> bool" where
  "conn_stuck n c \<longleftrightarrow> (\<forall>k\<in>set (tasks c). holds_slot k \<longrightarrow> (\<exists>r. k = TSend r) \<and> sw c = SWGone \<and> length (responses c) = n)"

definition starved :: "('v, 'w) wserver \<Rightarrow> bool" where
  "starved s \<longleftrightarrow> sv_slots s = se_concurrency (server_env s)
     \<and> (\<forall>i c. sv_conns s i = Some c \<longrightarrow> conn_stuck (se_pendingResponses (server_env s)) c)"

lemma conn_stuck_nth: "conn_stuck n c \<Longrightarrow> j < length (tasks c) \<Longrightarrow> holds_slot (tasks c ! j) \<Longrightarrow>
    (\<exists>r. tasks c ! j = TSend r) \<and> sw c = SWGone \<and> length (responses c) = n"
  by (auto simp: conn_stuck_def)

lemma conn_stuck_own:
  assumes stuck: "conn_stuck (se_pendingResponses env) c" and full: "workers c = se_concurrency env" and step: "own env c d"
  shows "workers d = workers c \<and> conn_stuck (se_pendingResponses env) d \<and> (\<exists>ts. tasks d = tasks c @ ts)"
proof -
  have "sstep env c d" "others d = others c"
    using step by (simp_all add: own_def)
  then show ?thesis
  proof cases
    case (t_run i r)
    with conn_stuck_nth [OF stuck, of i] show ?thesis by simp
  next
    case (t_send i r)
    with conn_stuck_nth [OF stuck, of i] show ?thesis by simp
  next
    case (t_release i)
    with conn_stuck_nth [OF stuck, of i] show ?thesis by simp
  qed (use stuck full in \<open>auto simp: conn_stuck_def read_request_def write_response_def split: prod.splits option.splits\<close>)
qed

lemma starved_not_running: "starved s \<Longrightarrow> sv_conns s i = Some d \<Longrightarrow> TRun r \<notin> set (tasks d)"
  unfolding starved_def conn_stuck_def by (metis holds_slot.simps(1) task.distinct(9))

lemma starved_life: "starved s \<Longrightarrow> same_config (sv_life s) l \<Longrightarrow> starved (s\<lparr>sv_life := l\<rparr>)"
  by (simp add: starved_def server_env_same)

text \<open>The tasks there are stay as they are, new ones wait behind them.\<close>

definition tasks_stay :: "('v, 'w) wserver \<Rightarrow> ('v, 'w) wserver \<Rightarrow> bool" where
  "tasks_stay s t \<longleftrightarrow> sv_slots t = sv_slots s
     \<and> (\<forall>i c. sv_conns s i = Some c \<longrightarrow> (\<exists>d ts. sv_conns t i = Some d \<and> tasks d = tasks c @ ts))"

lemma starved_step:
  assumes inv: "g_inv s" and starved: "starved s" and step: "gstep s t"
  shows "starved t \<and> tasks_stay s t"
  using step
proof cases
  case g_stop
  with starved show ?thesis by (simp add: starved_life tasks_stay_def)
next
  case g_stopped
  with starved show ?thesis by (simp add: starved_life tasks_stay_def)
next
  case (g_accept l)
  with starved accept_step_facts(2) [OF g_inv_parts(1) [OF inv]] show ?thesis
    by (simp add: starved_life tasks_stay_def)
next
  case (g_end i c e)
  with starved show ?thesis by (simp add: starved_life tasks_stay_def)
next
  case (g_serve i rd wr)
  have "starved (s\<lparr>sv_life := client_connected i (sv_life s)\<rparr>)"
    using starved by (simp add: starved_life)
  moreover have "sv_conns s i = None"
    using g_inv_conn(2) [OF inv, of i] g_serve(4) by (cases "sv_conns s i") auto
  moreover have "conn_stuck n (new_sconn rd wr)" for n
    by (simp add: conn_stuck_def new_sconn_def)
  ultimately show ?thesis
    unfolding g_serve(1) serve_conn_def Let_def
    by (auto simp: starved_def tasks_stay_def server_env_def split: option.splits)
next
  case (g_conn i c c')
  have stuck: "conn_stuck (se_pendingResponses (server_env s)) (conn_view s c)"
    using starved g_conn(3) by (simp add: starved_def conn_stuck_def conn_view_def)
  have full: "workers (conn_view s c) = se_concurrency (server_env s)" "tasks (conn_view s c) = tasks c"
    using starved by (simp_all add: starved_def conn_view_def)
  note own = conn_stuck_own [OF stuck full(1) g_conn(4), unfolded full]
  have "server_env t = server_env s"
    unfolding g_conn(1) by (simp add: server_env_def)
  then show ?thesis
    using own starved unfolding g_conn(1) by (auto simp: starved_def tasks_stay_def g_conn(3))
qed

lemma tasks_stay_trans: "tasks_stay s t \<Longrightarrow> tasks_stay t u \<Longrightarrow> tasks_stay s u"
  unfolding tasks_stay_def by (metis append.assoc)

lemma starved_run: "gstep\<^sup>*\<^sup>* s t \<Longrightarrow> g_inv s \<Longrightarrow> starved s \<Longrightarrow> starved t \<and> tasks_stay s t"
proof (induction rule: rtranclp_induct)
  case base
  then show ?case by (simp add: tasks_stay_def)
next
  case (step t u)
  then show ?case
    using starved_step [of t u] server_whole.steps_inv tasks_stay_trans by blast
qed

section \<open>A run\<close>

text \<open>A server with one worker and a channel for one response. It accepts a connection.\<close>

definition small0 :: "(byte list, unit) server" where
  "small0 = server0\<lparr>Concurrency := 1, PendingResponses := 1\<rparr>"

definition small_running :: "(byte list, unit) server" where
  "small_running = small0\<lparr>sv_RequestBufSize := 1024, sv_stopChan := SOpen, workerChain := Some 1, sthreads := [AAccept Accepting]\<rparr>"

definition whole0 :: "(byte list, unit) wserver" where
  "whole0 = \<lparr>sv_codec = id_codec, sv_life = small_running, sv_conns = Map.empty, sv_slots = 0, sv_down = False\<rparr>"

lemma small_start: "sv_Start small0 = (Ok (), small_running)"
  using sv_Start_startable [of small0 "()" None "()"]
  by (simp add: sv_startable_def small0_def server0_def small_running_def the_listener_def sv_run_def sv_defaults_def
      sv_DefaultRequestBufSize_def echo_methods_dom del: dom_eq_empty_conv)

lemma whole0_start: "gstart whole0"
proof -
  have "sv_init small0"
    by (simp add: sv_init_def small0_def server0_def echo_methods_inv)
  then show ?thesis
    using small_start unfolding gstart_def
    by (intro conjI exI [of _ small0]) (simp_all add: whole0_def small_running_def)
qed

definition whole1 :: "(byte list, unit) wserver" where
  "whole1 = whole0\<lparr>sv_life := small_running\<lparr>sthreads := [AAccept Accepting, VServe]\<rparr>,
     sv_conns := [1 \<mapsto> new_sconn (buffer_reader []) \<lparr>wr_out = [], wr_room = None, wr_err = EOF\<rparr>]\<rparr>"

lemma small_running_simps [simp]:
  "sthreads small_running = [AAccept Accepting]" "sv_plugins small_running = no_server_plugins" "listening small_running"
  "sv_stopChan small_running = SOpen" "sstopping small_running = StopIdle"
  by (simp_all add: small_running_def small0_def server0_def)

lemma whole1_reaches: "reaches gstart gstep whole1"
proof -
  let ?a = "set_thread 0 (AAccept (Accepted None)) small_running"
  let ?b = "small_running\<lparr>sthreads := [AAccept Accepting, VStart]\<rparr>"
  let ?w = "\<lparr>wr_out = [], wr_room = None, wr_err = EOF\<rparr>"
  have a: "accept_step small_running ?a"
    by (intro accept_step.intros [where i = 0] vstep.a_accept) (simp_all add: set_thread_def)
  have "accepted 0 None ?a = ?b"
    by (simp add: accepted_def set_thread_def small_running_def small0_def server0_def)
  then have b: "accept_step ?a ?b"
    using vstep.a_accepted [of 0 ?a None] by (intro accept_step.intros [where i = 0]) (simp_all add: set_thread_def)
  have wb: "reaches gstart gstep (whole0\<lparr>sv_life := ?b\<rparr>)"
  proof (rule reaches_step [OF reaches_step [OF reaches_init [where init = gstart, OF whole0_start]]])
    show "gstep whole0 (whole0\<lparr>sv_life := ?a\<rparr>)"
      using a by (intro gstep.g_accept) (simp_all add: whole0_def)
    show "gstep (whole0\<lparr>sv_life := ?a\<rparr>) (whole0\<lparr>sv_life := ?b\<rparr>)"
      using gstep.g_accept [of "whole0\<lparr>sv_life := ?a\<rparr>" ?b] b by (simp add: whole0_def)
  qed
  have "serve_conn 1 (buffer_reader []) ?w (whole0\<lparr>sv_life := ?b\<rparr>) = whole1"
    by (simp add: serve_conn_def whole1_def whole0_def client_connected_def set_thread_def Let_def make_chan_def
        sClientConnected.fire_none small_running_def small0_def server0_def)
  then show ?thesis
    using reaches_step [OF wb] gstep.g_serve [of "whole0\<lparr>sv_life := ?b\<rparr>" 1 "buffer_reader []" ?w]
    by (simp add: whole0_def)
qed

text \<open>Its client sends two requests and goes away before it has read a response.\<close>

lemma own_leaves:
  assumes "\<not> crashed s" "sr s = SRIdle" "\<not> sconnStop s" "sw s = SWIdle" "sh s = SHWait"
  shows "\<exists>t. (own env)\<^sup>*\<^sup>* s t \<and> tasks t = tasks s \<and> responses t = responses s \<and> workers t = workers s \<and> sw t = SWGone \<and> \<not> crashed t"
proof -
  let ?s1 = "s\<lparr>sr := SRReading\<rparr>"
  let ?s2 = "?s1\<lparr>sincoming := buffer_reader []\<rparr>"
  let ?s3 = "read_request ?s2"
  let ?s4 = "?s3\<lparr>sr := SRGone, sconnStop := True, sh := SHWaitWriter None\<rparr>"
  let ?s5 = "?s4\<lparr>sw := SWDone None\<rparr>"
  let ?s6 = "?s5\<lparr>sw := SWGone, sh := SHDone None\<rparr>"
  have s3: "?s3 = ?s2\<lparr>sr := SRDone None\<rparr>"
    by (simp add: read_request_def sr_readFrom_def read_u64_def read_full_def buffer_reader_def read_error_def)
  have "own env s ?s1"
    using sstep.r_check [OF assms(1,2), of env] assms(3) by (intro ownI) simp_all
  moreover have "own env ?s1 ?s2"
    by (intro ownI sstep.n_network) simp_all
  moreover have "own env ?s2 ?s3"
    using assms(1) by (intro ownI sstep.r_read) simp_all
  moreover have "own env ?s3 ?s4"
    using assms unfolding s3 by (intro ownI sstep.h_reader) simp_all
  moreover have "own env ?s4 ?s5"
    using assms unfolding s3 by (intro ownI sstep.w_stop) simp_all
  moreover have "own env ?s5 ?s6"
    using assms unfolding s3 by (intro ownI sstep.h_last_writer) simp_all
  ultimately have "(own env)\<^sup>*\<^sup>* s ?s6"
    by (meson converse_rtranclp_into_rtranclp r_into_rtranclp)
  then show ?thesis
    using assms(1) by (intro exI [of _ ?s6]) (simp add: s3)
qed

lemma own_leaks:
  assumes env: "se_concurrency env = 1" "se_pendingResponses env = 1" and "workers s = 0" "tasks s = []" "responses s = []" "\<not> crashed s"
    "sr s = SRIdle" "\<not> sconnStop s" "sw s = SWIdle" "sh s = SHWait"
  shows "\<exists>t r. (own env)\<^sup>*\<^sup>* s t \<and> tasks t = [TDone, TSend r] \<and> length (responses t) = 1 \<and> workers t = 1 \<and> sw t = SWGone \<and> \<not> crashed t"
proof -
  obtain s1 r1 where s1: "(own env)\<^sup>*\<^sup>* s s1" "tasks s1 = [TStart r1]" "sr_id r1 = 1" "responses s1 = []" "workers s1 = 0"
      "sr s1 = SRIdle" "sw s1 = SWIdle" "sh s1 = SHWait" "\<not> crashed s1" "\<not> sconnStop s1"
    using own_request [of s env 1] assms by auto
  obtain s2 r2 where s2: "(own env)\<^sup>*\<^sup>* s1 s2" "tasks s2 = [TStart r1, TStart r2]" "sr_id r2 = 2" "responses s2 = []" "workers s2 = 0"
      "sr s2 = SRIdle" "sw s2 = SWIdle" "sh s2 = SHWait" "\<not> crashed s2" "\<not> sconnStop s2"
    using own_request [of s1 env 2] s1 by auto
  obtain s3 q1 where s3: "(own env)\<^sup>*\<^sup>* s2 s3" "tasks s3 = [TSend q1, TStart r2]" "responses s3 = []" "workers s3 = 1"
      "sr s3 = SRIdle" "sw s3 = SWIdle" "sh s3 = SHWait" "\<not> crashed s3" "\<not> sconnStop s3"
    using own_response [of s2 0 r1 env] s1(3) s2 env by auto
  let ?s4 = "s3\<lparr>responses := [q1], tasks := [TRelease, TStart r2]\<rparr>"
  let ?s5 = "?s4\<lparr>workers := 0, tasks := [TDone, TStart r2]\<rparr>"
  have "own env s3 ?s4"
    using sstep.t_send [of s3 0 q1 env] s3 env by (intro ownI) simp_all
  moreover have "own env ?s4 ?s5"
    using sstep.t_release [of ?s4 0 env] s3 by (intro ownI) simp_all
  moreover obtain s6 q2 where s6: "(own env)\<^sup>*\<^sup>* ?s5 s6" "tasks s6 = [TDone, TSend q2]" "responses s6 = [q1]" "workers s6 = 1"
      "sr s6 = SRIdle" "sw s6 = SWIdle" "sh s6 = SHWait" "\<not> crashed s6" "\<not> sconnStop s6"
    using own_response [of ?s5 1 r2 env] s2(3) s3 env by auto
  moreover obtain t where t: "(own env)\<^sup>*\<^sup>* s6 t" "tasks t = tasks s6" "responses t = responses s6" "workers t = workers s6"
      "sw t = SWGone" "\<not> crashed t"
    using own_leaves [OF s6(8,5,9,6,7)] by blast
  moreover have "(own env)\<^sup>*\<^sup>* s s3"
    using s1(1) s2(1) s3(1) by (meson rtranclp_trans)
  ultimately have "(own env)\<^sup>*\<^sup>* s t"
    by (meson rtranclp.rtrancl_into_rtrancl rtranclp_trans)
  with t s6 show ?thesis
    by auto
qed

lemma starved_reachable: "\<exists>s :: (byte list, unit) wserver. reaches gstart gstep s \<and> starved s \<and> \<not> sv_down s
    \<and> sv_stopChan (sv_life s) = SOpen \<and> AAccept Accepting \<in> set (sthreads (sv_life s))"
proof -
  let ?c = "new_sconn (buffer_reader []) \<lparr>wr_out = [], wr_room = None, wr_err = EOF\<rparr>"
  have c: "sv_conns whole1 1 = Some ?c" and up: "\<not> sv_down whole1"
    by (simp_all add: whole1_def whole0_def)
  have env: "se_concurrency (server_env whole1) = 1" "se_pendingResponses (server_env whole1) = 1"
    by (simp_all add: server_env_def whole1_def small_running_def small0_def)
  obtain d r where d: "(own (server_env whole1))\<^sup>*\<^sup>* (conn_view whole1 ?c) d" "tasks d = [TDone, TSend r]" "length (responses d) = 1"
      "workers d = 1" "sw d = SWGone" "\<not> crashed d"
    using own_leaks [OF env, of "conn_view whole1 ?c"] by (auto simp: conn_view_def new_sconn_def whole1_def whole0_def)
  obtain t where t: "gstep\<^sup>*\<^sup>* whole1 t" "at_conn 1 whole1 d t"
    using at_conn_run [OF server_whole.reaches_inv [OF whole1_reaches] c up d(1,6)] by blast
  obtain c' where c': "sv_conns t 1 = Some c'" "conn_view t c' = d"
    using t(2) by (auto simp: at_conn_def)
  have "tasks (conn_view t c') = tasks c'" "responses (conn_view t c') = responses c'" "sw (conn_view t c') = sw c'"
      "workers (conn_view t c') = sv_slots t"
    by (simp_all add: conn_view_def)
  note view = this [unfolded c'(2)]
  have only: "sv_conns t i = Some e \<Longrightarrow> e = c'" for i e
    using t(2) c'(1) by (cases "i = 1") (simp_all add: at_conn_def whole1_def)
  have "conn_stuck 1 c'"
    using d(2,3,5) view(1-3) by (simp add: conn_stuck_def)
  then have "starved t"
    unfolding starved_def at_conn_env [OF t(2)] env using only d(4) view(4) by auto
  moreover have "reaches gstart gstep t"
    using t(1) whole1_reaches by (rule reaches_steps)
  ultimately show ?thesis
    using t(2) by (intro exI [of _ t]) (simp add: at_conn_def whole1_def)
qed

section \<open>Properties\<close>

text \<open>C10: Every connection of a running server behaves as if it were alone with a few others: what it
  sees, its own goroutines, the slots all connections use and the server's stop, is in every
  reachable state of the server a reachable state of the connection machine. What holds of all
  runs of a connection therefore holds of each connection of a server, beside any others.\<close>

theorem server_conns_are_runs:
  assumes "reaches gstart gstep s" "sv_conns s i = Some c"
  shows "reaches (sconn_init (server_env s)) (sstep (server_env s)) (conn_view s c)"
  using g_inv_conn(3) [OF server_whole.reaches_inv [OF assms(1)] assms(2)] by (simp add: conn_ok_def)

lemma server_conns_are_runs_witness:
  "reaches (sconn_init (server_env whole1)) (sstep (server_env whole1)) (conn_view whole1 (the (sv_conns whole1 1)))"
  by (rule server_conns_are_runs [OF whole1_reaches, of 1]) (simp add: whole1_def)

text \<open>C15: The server never runs more requests than its concurrency, over all its connections and also
  after it was stopped: the worker slots in use are exactly those of the handlers between their
  start and their end.\<close>

theorem server_shares_slots:
  assumes "reaches gstart gstep s"
  shows "sv_slots s = (\<Sum>i\<in>dom (sv_conns s). length (filter holds_slot (tasks (the (sv_conns s i)))))
    \<and> int (sv_slots s) \<le> max 0 (case workerChain (sv_life s) of None \<Rightarrow> 0 | Some n \<Rightarrow> n)"
proof
  have inv: "g_inv s"
    using server_whole.reaches_inv [OF assms] .
  show "sv_slots s = (\<Sum>i\<in>dom (sv_conns s). length (filter holds_slot (tasks (the (sv_conns s i)))))"
    using g_inv_parts(4) [OF inv] by (simp add: total_slots_def slots_of_def)
  show "int (sv_slots s) \<le> max 0 (case workerChain (sv_life s) of None \<Rightarrow> 0 | Some n \<Rightarrow> n)"
    using g_inv_parts(5) [OF inv] by (simp add: server_env_def)
qed

lemma server_shares_slots_witness:
  "\<exists>s :: (byte list, unit) wserver. starved s \<and> \<not> sv_down s
    \<and> sv_slots s = (\<Sum>i\<in>dom (sv_conns s). length (filter holds_slot (tasks (the (sv_conns s i)))))"
  using starved_reachable server_shares_slots by blast





text \<open>C35: Clients that go away can stop the server from working: once every worker slot is held by a
  handler that waits to send to a connection whose writer has ended, no request of any
  connection is ever run again, although the server accepts connections and reads requests.
  (The witness reaches such a state with a single client that sends two requests and leaves.)\<close>

theorem starved_server:
  assumes "reaches gstart gstep s" "starved s" "gstep\<^sup>*\<^sup>* s t"
  shows "sv_slots t = se_concurrency (server_env t)
    \<and> (\<forall>i d r. sv_conns t i = Some d \<longrightarrow> TRun r \<notin> set (tasks d))
    \<and> (\<forall>i c. sv_conns s i = Some c \<longrightarrow> (\<exists>d ts. sv_conns t i = Some d \<and> tasks d = tasks c @ ts))"
proof -
  have run: "starved t" "tasks_stay s t"
    using starved_run [OF assms(3) server_whole.reaches_inv [OF assms(1)] assms(2)] by simp_all
  then show ?thesis
    using starved_not_running [OF run(1)] by (simp add: tasks_stay_def starved_def)
qed

lemma starved_server_witness:
  "\<exists>s :: (byte list, unit) wserver. reaches gstart gstep s \<and> sv_stopChan (sv_life s) = SOpen \<and> \<not> sv_down s
    \<and> AAccept Accepting \<in> set (sthreads (sv_life s))
    \<and> (\<forall>t. gstep\<^sup>*\<^sup>* s t \<longrightarrow> (\<forall>i d r. sv_conns t i = Some d \<longrightarrow> TRun r \<notin> set (tasks d)))"
  using starved_reachable starved_server by metis

end
