(* ===== verification/Transport.thy ===== *)
theory Transport
  imports Client_Life Server_Life
begin

text \<open>
  \<^verbatim>\<open>transport.go\<close>: the constructors of a client and a server over TCP. The dialer is the client's
  \<open>Dial\<close>; resolving an address and listening on it are parameters. Whatever the constructor does
  not set has its zero value.
\<close>

definition NewTCPClient :: "string \<Rightarrow> bool \<Rightarrow> 'w \<Rightarrow> 'w client" where
  "NewTCPClient addr cd w =
     \<lparr>Addr = addr, has_Dial = True, has_Codec = cd, Connections = 0, PendingRequests = 0, RequestBufSize = 0,
      cl_plugins = no_client_plugins, cl_stopChan = SNil, requestsChan = None, dialers = [],
      stopping = StopIdle, cl_world = w, opened = 0, closed = 0\<rparr>"

definition NewTCPServer ::
    "(string \<Rightarrow> go_error + 'a) \<Rightarrow> ('a \<Rightarrow> go_error + listener) \<Rightarrow> string \<Rightarrow> bool \<Rightarrow> 'w \<Rightarrow> go_error + ('v, 'w) server" where
  "NewTCPServer ResolveTCPAddr ListenTCP addr cd w =
     (case ResolveTCPAddr addr of
        Inl e \<Rightarrow> Inl e
      | Inr tcpAddr \<Rightarrow>
          (case ListenTCP tcpAddr of
             Inl e \<Rightarrow> Inl e
           | Inr l \<Rightarrow> Inr \<lparr>Concurrency = 0, sv_RequestBufSize = 0, PendingResponses = 0, sv_hasCodec = cd,
               sv_listener = Some l, sv_methods = no_methods, sv_plugins = no_server_plugins, sv_stopChan = SNil,
               workerChain = None, sthreads = [], sstopping = StopIdle, sv_world = w, listening = True\<rparr>))"

section \<open>Properties\<close>

lemma tcp_client_starts:
  assumes "addr \<noteq> []"
  shows "\<exists>c. cl_Start (NewTCPClient addr True w) = (Ok (), c) \<and> cl_stopChan c = SOpen
    \<and> dialers c = [LDial Dialing] \<and> requestsChan c = Some 32768"
proof -
  have "cl_Start (NewTCPClient addr True w) = (res_of_err None,
      (cl_run ((cl_defaults (NewTCPClient addr True w))\<lparr>cl_stopChan := SOpen\<rparr>))\<lparr>cl_world := w\<rparr>)"
    by (rule cl_Start_startable) (simp_all add: cl_startable_def NewTCPClient_def assms)
  then show ?thesis
    by (simp add: NewTCPClient_def cl_run_def cl_defaults_def DefaultConnections_def DefaultPendingRequests_def)
qed

lemma tcp_server_starts:
  assumes "NewTCPServer ResolveTCPAddr ListenTCP addr True w = Inr s"
  shows "sv_Start s = (Err (ErrorString ''server should have at least one handler''), s)
    \<and> (dom (items m) \<noteq> {} \<longrightarrow>
        (\<exists>t. sv_Start (s\<lparr>sv_methods := m\<rparr>) = (Ok (), t) \<and> sv_stopChan t = SOpen
          \<and> sthreads t = [AAccept Accepting] \<and> workerChain t = Some 32768 \<and> PendingResponses t = 32768))"
proof -
  obtain l where s: "s = \<lparr>Concurrency = 0, sv_RequestBufSize = 0, PendingResponses = 0, sv_hasCodec = True,
      sv_listener = Some l, sv_methods = no_methods, sv_plugins = no_server_plugins, sv_stopChan = SNil,
      workerChain = None, sthreads = [], sstopping = StopIdle, sv_world = w, listening = True\<rparr>"
    using assms by (auto simp: NewTCPServer_def split: sum.splits)
  have "sv_Start (s\<lparr>sv_methods := m\<rparr>) = (res_of_err None,
      (sv_run ((sv_defaults (s\<lparr>sv_methods := m\<rparr>))\<lparr>sv_stopChan := SOpen\<rparr>))\<lparr>sv_world := w\<rparr>)" if "dom (items m) \<noteq> {}"
    by (rule sv_Start_startable) (use that in \<open>simp_all add: sv_startable_def s del: dom_eq_empty_conv\<close>)
  then show ?thesis
    by (simp add: s sv_run_def sv_defaults_def DefaultConcurrency_def DefaultPendingResponses_def
        sv_Start_def no_methods_def)
qed

text \<open>A client made for an address starts with one goroutine that dials and room for 32768
  requests; a server made on a listener does not start without a handler, and with one it starts
  with one goroutine that accepts, 32768 workers and room for 32768 responses per connection.\<close>

lemma tcp_constructors_start:
  assumes "addr \<noteq> []" "NewTCPServer ResolveTCPAddr ListenTCP addr True w = Inr s" "dom (items m) \<noteq> {}"
  shows "(\<exists>c. cl_Start (NewTCPClient addr True w) = (Ok (), c) \<and> cl_stopChan c = SOpen
        \<and> dialers c = [LDial Dialing] \<and> requestsChan c = Some 32768)
    \<and> sv_Start s = (Err (ErrorString ''server should have at least one handler''), s)
    \<and> (\<exists>t. sv_Start (s\<lparr>sv_methods := m\<rparr>) = (Ok (), t) \<and> sv_stopChan t = SOpen
          \<and> sthreads t = [AAccept Accepting] \<and> workerChain t = Some 32768 \<and> PendingResponses t = 32768)"
  using tcp_server_starts [OF assms(2), of m] assms(3)
  by (intro conjI tcp_client_starts assms(1)) (elim conjE, assumption, elim conjE impE, assumption+)

lemma tcp_constructors_start_witness:
  "\<exists>c. cl_Start (NewTCPClient ''host:80'' True ()) = (Ok (), c) \<and> cl_stopChan c = SOpen
    \<and> dialers c = [LDial Dialing] \<and> requestsChan c = Some 32768"
proof -
  let ?r = "NewTCPServer Inr (\<lambda>a. Inr (TCPAddr 80 a)) ''host:80'' True () :: go_error + (byte list, unit) server"
  obtain s where s: "?r = Inr s"
    by (simp add: NewTCPServer_def)
  have "dom (items echo_methods) \<noteq> {}"
    by (simp add: echo_methods_dom del: dom_eq_empty_conv)
  from tcp_constructors_start [OF _ s this] show ?thesis
    by (rule conjunct1) simp
qed

end
