(* ===== verification/Consistent_Hash.thy ===== *)
theory Consistent_Hash
  imports Prelude
begin

text \<open>
  \<^verbatim>\<open>consistenthash/consistenthash.go\<close>: the ring of virtual nodes. \<^verbatim>\<open>fasthash/fnv1a\<close> is not
  under \<^verbatim>\<open>src/\<close>: its string hash is the parameter \<open>hs\<close> and its integer hash the parameter
  \<open>hu\<close>; no theorem needs a law about them. \<^verbatim>\<open>sort.Slice\<close> on the integer keys is \<open>sort\<close> (equal
  keys are identical, so every correct sort gives the same list) and \<^verbatim>\<open>sort.Search\<close> is the
  binary search of Go's standard library, \<open>search_loop\<close>. The ring the code keeps is related to an abstract
  one, the set of occupied positions and the node that owns each.
\<close>

section \<open>State\<close>

record chash =
  replicas :: int
  keys :: "u64 list"
  hashMap :: "u64 \<rightharpoonup> string"

section \<open>Operations\<close>

definition IsEmpty :: "chash \<Rightarrow> bool" where
  "IsEmpty m \<longleftrightarrow> length (keys m) = 0"

text \<open>The body of the inner loop of \<^verbatim>\<open>add\<close>, the inner loop, \<^verbatim>\<open>add\<close> itself.\<close>

definition add_replica :: "(string \<Rightarrow> u64) \<Rightarrow> string \<Rightarrow> chash \<Rightarrow> int \<Rightarrow> chash" where
  "add_replica hs key m i =
     (let h = hs (itoa i @ key)
      in m\<lparr>keys := keys m @ [h], hashMap := (hashMap m)(h \<mapsto> key)\<rparr>)"

definition add_key :: "(string \<Rightarrow> u64) \<Rightarrow> chash \<Rightarrow> string \<Rightarrow> chash" where
  "add_key hs m key = foldl (add_replica hs key) m (List.map int [0..<nat (replicas m)])"

definition add :: "(string \<Rightarrow> u64) \<Rightarrow> chash \<Rightarrow> string list \<Rightarrow> chash" where
  "add hs m ks = (let m' = foldl (add_key hs) m ks in m'\<lparr>keys := sort (keys m')\<rparr>)"

definition New :: "(string \<Rightarrow> u64) \<Rightarrow> int \<Rightarrow> string list \<Rightarrow> chash" where
  "New hs r ks = add hs \<lparr>replicas = r, keys = [], hashMap = Map.empty\<rparr> ks"

text \<open>\<^verbatim>\<open>sort.Search(n, f)\<close> with its two indices.\<close>

function search_loop :: "(nat \<Rightarrow> bool) \<Rightarrow> nat \<Rightarrow> nat \<Rightarrow> nat" where
  "search_loop f i j =
     (if i < j
      then let h = (i + j) div 2 in if \<not> f h then search_loop f (h + 1) j else search_loop f i h
      else i)"
  by pat_completeness auto
termination
  by (relation "measure (\<lambda>(f, i, j). j - i)") auto

declare search_loop.simps [simp del]

text \<open>The read of a missing map key gives the empty string, an index out of range panics.\<close>

definition search :: "chash \<Rightarrow> u64 \<Rightarrow> string res" where
  "search m h =
     (let idx0 = search_loop (\<lambda>i. h \<le> keys m ! i) 0 (length (keys m));
          idx = (if idx0 = length (keys m) then 0 else idx0)
      in if idx < length (keys m)
         then Ok (case hashMap m (keys m ! idx) of None \<Rightarrow> '''' | Some s \<Rightarrow> s)
         else Panic ''index out of range'')"

definition Get :: "(string \<Rightarrow> u64) \<Rightarrow> chash \<Rightarrow> string \<Rightarrow> string res" where
  "Get hs m key = (if IsEmpty m then Ok '''' else search m (hs key))"

definition GetUint64 :: "(u64 \<Rightarrow> u64) \<Rightarrow> chash \<Rightarrow> u64 \<Rightarrow> string res" where
  "GetUint64 hu m key = (if IsEmpty m then Ok '''' else search m (hu key))"

section \<open>Binary search\<close>

text \<open>
  For a predicate that never turns false again the loop returns the least index that
  satisfies it, or the upper bound.
\<close>

lemma search_loop_least:
  assumes mono: "\<And>a b. a \<le> b \<Longrightarrow> b < j \<Longrightarrow> f a \<Longrightarrow> f b" and "i \<le> j"
  shows "i \<le> search_loop f i j \<and> search_loop f i j \<le> j
    \<and> (\<forall>k. i \<le> k \<longrightarrow> k < search_loop f i j \<longrightarrow> \<not> f k)
    \<and> (search_loop f i j < j \<longrightarrow> f (search_loop f i j))"
  using assms
proof (induction f i j rule: search_loop.induct)
  case (1 f i j)
  show ?case
  proof (cases "i < j")
    case False
    then have "search_loop f i j = i"
      by (simp add: search_loop.simps [of f i j])
    with False "1.prems"(2) show ?thesis
      by simp
  next
    case True
    define h where "h = (i + j) div 2"
    from True have h: "i \<le> h" "h < j"
      by (auto simp: h_def)
    show ?thesis
    proof (cases "f h")
      case False
      have eq: "search_loop f i j = search_loop f (h + 1) j"
        using True False by (simp add: search_loop.simps [of f i j] h_def)
      have below: "f k \<Longrightarrow> h + 1 \<le> k" for k
        using False h "1.prems"(1) [of k h] by fastforce
      have "h + 1 \<le> search_loop f (h + 1) j \<and> search_loop f (h + 1) j \<le> j
          \<and> (\<forall>k. h + 1 \<le> k \<longrightarrow> k < search_loop f (h + 1) j \<longrightarrow> \<not> f k)
          \<and> (search_loop f (h + 1) j < j \<longrightarrow> f (search_loop f (h + 1) j))"
        using "1.IH"(1) [OF True h_def False "1.prems"(1)] h by simp
      then show ?thesis
        unfolding eq using h below by (meson le_trans less_imp_le not_le le_add1)
    next
      case f: True
      have eq: "search_loop f i j = search_loop f i h"
        using True f by (simp add: search_loop.simps [of f i j] h_def)
      have "i \<le> search_loop f i h \<and> search_loop f i h \<le> h
          \<and> (\<forall>k. i \<le> k \<longrightarrow> k < search_loop f i h \<longrightarrow> \<not> f k)
          \<and> (search_loop f i h < h \<longrightarrow> f (search_loop f i h))"
        using "1.IH"(2) [OF True h_def _ "1.prems"(1)] f h by simp
      moreover have "search_loop f i h < j"
        using calculation h by simp
      moreover have "f (search_loop f i h)"
        using calculation f by (cases "search_loop f i h = h") auto
      ultimately show ?thesis
        unfolding eq by simp
    qed
  qed
qed

section \<open>The abstract ring\<close>

text \<open>
  The first occupied position at or after \<open>h\<close>, going round; the node that owns a position:
  the last of the list that has a replica there.
\<close>

definition successor :: "u64 set \<Rightarrow> u64 \<Rightarrow> u64" where
  "successor S h = (if \<exists>k\<in>S. h \<le> k then Min {k \<in> S. h \<le> k} else Min S)"

definition positions :: "(string \<Rightarrow> u64) \<Rightarrow> int \<Rightarrow> string \<Rightarrow> u64 set" where
  "positions hs r key = (\<lambda>i. hs (itoa (int i) @ key)) ` {..<nat r}"

definition owner :: "(string \<Rightarrow> u64) \<Rightarrow> int \<Rightarrow> string list \<Rightarrow> u64 \<Rightarrow> string option" where
  "owner hs r ks p = find (\<lambda>key. p \<in> positions hs r key) (rev ks)"

definition ring_lookup :: "(string \<Rightarrow> u64) \<Rightarrow> int \<Rightarrow> string list \<Rightarrow> u64 \<Rightarrow> string" where
  "ring_lookup hs r ks h =
     (let S = \<Union> (positions hs r ` set ks)
      in if S = {} then '''' else the (owner hs r ks (successor S h)))"

lemma finite_positions [simp]: "finite (positions hs r key)"
  by (simp add: positions_def)

lemma successor_in: "finite S \<Longrightarrow> S \<noteq> {} \<Longrightarrow> successor S h \<in> S"
  using Min_in [of "{k \<in> S. h \<le> k}"] by (auto simp: successor_def)

lemma successor_subset:
  assumes "finite T" and "S \<subseteq> T" and "successor T h \<in> S"
  shows "successor S h = successor T h"
proof (cases "\<exists>k\<in>T. h \<le> k")
  case True
  then have T: "successor T h = Min {k \<in> T. h \<le> k}"
    by (simp add: successor_def)
  have "Min {k \<in> T. h \<le> k} \<in> {k \<in> T. h \<le> k}"
    using True assms(1) by (intro Min_in) auto
  with T assms(3) have mem: "successor T h \<in> {k \<in> S. h \<le> k}"
    by simp
  have "Min {k \<in> S. h \<le> k} = successor T h"
    using mem assms T by (intro Min_eqI) (auto simp: finite_subset intro: Min_le)
  with mem show ?thesis
    by (auto simp: successor_def)
next
  case False
  with assms show ?thesis
    by (auto simp: successor_def finite_subset intro!: Min_eqI Min_le)
qed

section \<open>The ring the code builds\<close>

lemma foldl_add_replica:
  "foldl (add_replica hs key) m is = m\<lparr>keys := keys m @ List.map (\<lambda>i. hs (itoa i @ key)) is,
     hashMap := (\<lambda>h. if h \<in> (\<lambda>i. hs (itoa i @ key)) ` set is then Some key else hashMap m h)\<rparr>"
  by (induction "is" arbitrary: m) (auto simp: add_replica_def Let_def fun_eq_iff intro!: chash.equality)

lemma add_key_eq:
  "add_key hs m key = m\<lparr>keys := keys m @ List.map (\<lambda>i. hs (itoa (int i) @ key)) [0..<nat (replicas m)],
     hashMap := (\<lambda>h. if h \<in> positions hs (replicas m) key then Some key else hashMap m h)\<rparr>"
  by (auto simp: add_key_def foldl_add_replica positions_def o_def atLeast0LessThan image_image
      intro!: chash.equality)

lemma add_key_replicas [simp]: "replicas (add_key hs m key) = replicas m"
  by (simp add: add_key_eq)

lemma foldl_add_key_replicas [simp]: "replicas (foldl (add_key hs) m ks) = replicas m"
  by (induction ks arbitrary: m) simp_all

lemma foldl_add_key_keys:
  "set (keys (foldl (add_key hs) m ks)) = set (keys m) \<union> \<Union> (positions hs (replicas m) ` set ks)"
  by (induction ks arbitrary: m) (auto simp: add_key_eq positions_def)

lemma hashMap_add_key:
  "hashMap (add_key hs m key) h =
     (if h \<in> positions hs (replicas m) key then Some key else hashMap m h)"
  by (simp add: add_key_eq)

lemma foldl_add_key_hashMap:
  "hashMap (foldl (add_key hs) m ks) h =
     (case owner hs (replicas m) ks h of None \<Rightarrow> hashMap m h | Some k \<Rightarrow> Some k)"
  by (induction ks rule: rev_induct) (auto simp: owner_def hashMap_add_key)

lemma New_keys: "set (keys (New hs r ks)) = \<Union> (positions hs r ` set ks)"
  and New_sorted: "sorted (keys (New hs r ks))"
  by (simp_all add: New_def add_def Let_def foldl_add_key_keys)

lemma New_hashMap: "hashMap (New hs r ks) h = owner hs r ks h"
  by (simp add: New_def add_def Let_def foldl_add_key_hashMap split: option.splits)

lemma New_isEmpty: "IsEmpty (New hs r ks) \<longleftrightarrow> \<Union> (positions hs r ` set ks) = {}"
  by (metis IsEmpty_def New_keys length_0_conv set_empty)

lemma positions_empty_iff: "positions hs r key = {} \<longleftrightarrow> r \<le> 0"
  by (auto simp: positions_def lessThan_empty_iff)

lemma sorted_search:
  assumes "sorted ks" and i: "i = search_loop (\<lambda>i. h \<le> ks ! i) 0 (length ks)"
  shows "i \<le> length ks" and "\<And>k. k < i \<Longrightarrow> \<not> h \<le> ks ! k" and "i < length ks \<Longrightarrow> h \<le> ks ! i"
proof -
  have "a \<le> b \<Longrightarrow> b < length ks \<Longrightarrow> h \<le> ks ! a \<Longrightarrow> h \<le> ks ! b" for a b
    using assms(1) by (meson order.trans sorted_nth_mono)
  then have "0 \<le> i \<and> i \<le> length ks \<and> (\<forall>k. 0 \<le> k \<longrightarrow> k < i \<longrightarrow> \<not> h \<le> ks ! k)
      \<and> (i < length ks \<longrightarrow> h \<le> ks ! i)"
    unfolding i by (intro search_loop_least) simp_all
  then show "i \<le> length ks" and "\<And>k. k < i \<Longrightarrow> \<not> h \<le> ks ! k" and "i < length ks \<Longrightarrow> h \<le> ks ! i"
    by simp_all
qed

text \<open>On a sorted list of positions the index found is that of the successor.\<close>

lemma search_index_successor:
  assumes srt: "sorted ks" and ne: "ks \<noteq> []"
    and i: "i = search_loop (\<lambda>i. h \<le> ks ! i) 0 (length ks)"
  shows "ks ! (if i = length ks then 0 else i) = successor (set ks) h"
proof -
  note least = sorted_search [OF srt i]
  show ?thesis
  proof (cases "i = length ks")
    case True
    then have "\<not> (\<exists>k\<in>set ks. h \<le> k)"
      using least(2) by (auto simp: in_set_conv_nth)
    moreover have "Min (set ks) = ks ! 0"
      using srt ne by (intro Min_eqI) (auto simp: in_set_conv_nth sorted_iff_nth_mono)
    ultimately show ?thesis
      using True by (simp add: successor_def)
  next
    case False
    with least have i: "i < length ks" "h \<le> ks ! i"
      by simp_all
    have "Min {k \<in> set ks. h \<le> k} = ks ! i"
    proof (rule Min_eqI)
      fix y
      assume "y \<in> {k \<in> set ks. h \<le> k}"
      then obtain j where "j < length ks" "y = ks ! j" "h \<le> ks ! j"
        by (auto simp: in_set_conv_nth)
      moreover from this have "i \<le> j"
        using least(2) [of j] by (cases "j < i") simp_all
      ultimately show "ks ! i \<le> y"
        using srt by (simp add: sorted_iff_nth_mono)
    qed (use i in auto)
    with i False show ?thesis
      by (auto simp: successor_def)
  qed
qed

lemma owner_total:
  "p \<in> \<Union> (positions hs r ` set ks) \<Longrightarrow>
    \<exists>k. owner hs r ks p = Some k \<and> k \<in> set ks \<and> p \<in> positions hs r k"
  by (cases "owner hs r ks p")
    (auto simp: owner_def find_None_iff find_Some_iff in_set_conv_nth [symmetric] rev_nth)

lemma ring_lookup_owner:
  "\<Union> (positions hs r ` set ks) \<noteq> {} \<Longrightarrow>
    ring_lookup hs r ks h = the (owner hs r ks (successor (\<Union> (positions hs r ` set ks)) h))"
  unfolding ring_lookup_def Let_def by (rule if_not_P)

lemma search_New:
  "\<not> IsEmpty (New hs r ks) \<Longrightarrow> search (New hs r ks) h = Ok (ring_lookup hs r ks h)"
proof -
  assume ne: "\<not> IsEmpty (New hs r ks)"
  let ?m = "New hs r ks" and ?S = "\<Union> (positions hs r ` set ks)"
  define i where "i = search_loop (\<lambda>i. h \<le> keys ?m ! i) 0 (length (keys ?m))"
  have kne: "keys ?m \<noteq> []"
    using ne by (simp add: IsEmpty_def)
  have nth: "keys ?m ! (if i = length (keys ?m) then 0 else i) = successor ?S h"
    using search_index_successor [OF New_sorted kne i_def] by (simp add: New_keys)
  have "i \<le> length (keys ?m)"
    using New_sorted i_def by (rule sorted_search(1))
  moreover have S: "?S \<noteq> {}"
    using ne New_isEmpty by blast
  then have "successor ?S h \<in> ?S"
    by (intro successor_in) auto
  then obtain k where k: "owner hs r ks (successor ?S h) = Some k"
    using owner_total by blast
  then have "ring_lookup hs r ks h = k"
    using ring_lookup_owner [OF S, of h] by simp
  ultimately show ?thesis
    using nth kne k by (auto simp: search_def Let_def New_hashMap i_def [symmetric])
qed

lemma GetUint64_New: "GetUint64 hu (New hs r ks) q = Ok (ring_lookup hs r ks (hu q))"
  by (cases "IsEmpty (New hs r ks)")
    (simp_all add: GetUint64_def search_New, simp add: New_isEmpty ring_lookup_def)

lemma Get_New: "Get hs (New hs r ks) q = Ok (ring_lookup hs r ks (hs q))"
  by (cases "IsEmpty (New hs r ks)")
    (simp_all add: Get_def search_New, simp add: New_isEmpty ring_lookup_def)

section \<open>Where the keys go when the nodes change\<close>

lemma find_remove:
  "find P (xs @ k # ys) = Some x \<Longrightarrow> x \<noteq> k \<Longrightarrow> find P (xs @ ys) = Some x"
  by (induction xs) (auto split: if_splits)

lemma owner_remove:
  "owner hs r (as @ k # bs) p = Some x \<Longrightarrow> x \<noteq> k \<Longrightarrow> owner hs r (as @ bs) p = Some x"
  using find_remove [of "\<lambda>key. p \<in> positions hs r key" "rev bs" k "rev as" x]
  by (simp add: owner_def)

lemma ring_lookup_insert:
  "ring_lookup hs r (as @ k # bs) h = ring_lookup hs r (as @ bs) h
   \<or> ring_lookup hs r (as @ k # bs) h = k"
proof (cases "r \<le> 0")
  case True
  then have "\<Union> (positions hs r ` K) = {}" for K
    using positions_empty_iff [of hs r] by blast
  then show ?thesis
    unfolding ring_lookup_def Let_def by (simp only: simp_thms if_True)
next
  case False
  let ?T = "\<Union> (positions hs r ` set (as @ k # bs))" and ?S = "\<Union> (positions hs r ` set (as @ bs))"
  let ?p = "successor ?T h"
  from False have T: "?T \<noteq> {}"
    using positions_empty_iff [of hs r k] by auto
  then have "?p \<in> ?T"
    by (intro successor_in) auto
  then obtain x where x: "owner hs r (as @ k # bs) ?p = Some x"
      and mem: "x \<in> set (as @ k # bs)" "?p \<in> positions hs r x"
    using owner_total by blast
  show ?thesis
  proof (cases "x = k")
    case True
    with x T show ?thesis
      by (simp add: ring_lookup_def Let_def)
  next
    case False
    with mem have S: "?p \<in> ?S"
      by auto
    then have "successor ?S h = ?p"
      by (intro successor_subset) auto
    moreover have "owner hs r (as @ bs) ?p = Some x"
      using owner_remove [OF x False] .
    moreover have "?S \<noteq> {}"
      using S by (metis empty_iff)
    ultimately have "ring_lookup hs r (as @ bs) h = x"
      using ring_lookup_owner [of hs r "as @ bs" h] by simp
    moreover have "ring_lookup hs r (as @ k # bs) h = x"
      using x ring_lookup_owner [OF T, of h] by simp
    ultimately show ?thesis
      by simp
  qed
qed

section \<open>The interface the pools of clients rely on\<close>

locale node_ring =
  fixes build :: "string list \<Rightarrow> 'm"
    and is_empty :: "'m \<Rightarrow> bool"
    and lookup :: "'m \<Rightarrow> 'q \<Rightarrow> string res"
  assumes empty_build: "is_empty (build ns) \<longleftrightarrow> ns = []"
    and lookup_build: "ns \<noteq> [] \<Longrightarrow> \<exists>n\<in>set ns. lookup (build ns) q = Ok n"

locale consistent_ring = node_ring +
  assumes insert_node: "lookup (build (as @ k # bs)) q = lookup (build (as @ bs)) q
      \<or> lookup (build (as @ k # bs)) q = Ok k"
begin

text \<open>Any number of nodes added anywhere: a query keeps its node or moves to an added one.\<close>

lemma grow_ring:
  "lookup (build (as @ ns)) q = lookup (build (as @ filter P ns)) q
   \<or> (\<exists>n\<in>set ns. \<not> P n \<and> lookup (build (as @ ns)) q = Ok n)"
proof (induction ns arbitrary: as)
  case (Cons n ns)
  show ?case
  proof (cases "P n")
    case True
    with Cons.IH [of "as @ [n]"] show ?thesis
      by auto
  next
    case False
    with Cons.IH [of as] insert_node [of as n ns q] show ?thesis
      by auto
  qed
qed simp

text \<open>Replacing the nodes: a query whose old node survives keeps it or moves to a new node.\<close>

lemma replace_ring:
  assumes "filter (\<lambda>n. n \<in> set new) old = filter (\<lambda>n. n \<in> set old) new"
    and "lookup (build old) q = Ok x" and "x \<in> set new"
  shows "lookup (build new) q = Ok x \<or> (\<exists>n\<in>set new. n \<notin> set old \<and> lookup (build new) q = Ok n)"
proof -
  have "lookup (build old) q = lookup (build (filter (\<lambda>n. n \<in> set new) old)) q"
    using grow_ring [of "[]" old q "\<lambda>n. n \<in> set new"] assms(2,3) by auto
  then show ?thesis
    using grow_ring [of "[]" new q "\<lambda>n. n \<in> set old"] assms(1,2) by auto
qed

end

text \<open>The hash map of the code, with the number of replicas the pools use.\<close>

lemma ring_lookup_member: "0 < r \<Longrightarrow> ns \<noteq> [] \<Longrightarrow> ring_lookup hs r ns h \<in> set ns"
proof -
  assume "0 < r" "ns \<noteq> []"
  then have S: "\<Union> (positions hs r ` set ns) \<noteq> {}"
    by (auto simp: positions_empty_iff simp del: UN_iff)
  then have "successor (\<Union> (positions hs r ` set ns)) h \<in> \<Union> (positions hs r ` set ns)"
    by (intro successor_in) auto
  with S show ?thesis
    using owner_total [of "successor (\<Union> (positions hs r ` set ns)) h" hs r ns]
    by (auto simp: ring_lookup_def Let_def)
qed

interpretation fnv_ring: consistent_ring "New hs 200" IsEmpty "GetUint64 hu"
proof
  fix ns :: "string list" and q :: u64
  show "IsEmpty (New hs 200 ns) \<longleftrightarrow> ns = []"
    by (cases ns) (auto simp: New_isEmpty positions_empty_iff)
  show "ns \<noteq> [] \<Longrightarrow> \<exists>n\<in>set ns. GetUint64 hu (New hs 200 ns) q = Ok n"
    by (simp add: GetUint64_New ring_lookup_member)
next
  fix as bs :: "string list" and k :: string and q :: u64
  show "GetUint64 hu (New hs 200 (as @ k # bs)) q = GetUint64 hu (New hs 200 (as @ bs)) q
      \<or> GetUint64 hu (New hs 200 (as @ k # bs)) q = Ok k"
    using ring_lookup_insert [of hs 200 as k bs "hu q"] by (simp add: GetUint64_New)
qed

section \<open>Properties\<close>

text \<open>C21: The lookup of the code, a binary search in the sorted array of positions followed by a
  read of the map, is the lookup on the abstract ring: the node that owns the first occupied
  position at or after the hash, going round, and the empty string for a ring without nodes.
  In particular it never panics, whatever the number of replicas.\<close>

theorem lookup_refines_ring:
  "Get hs (New hs r ks) key = Ok (ring_lookup hs r ks (hs key))
   \<and> GetUint64 hu (New hs r ks) q = Ok (ring_lookup hs r ks (hu q))"
  by (simp add: Get_New GetUint64_New)

text \<open>On a predicate that stays true once it is true, the binary search returns what a scan
  from the left would: the number of indices before the first that satisfies it.\<close>

lemma binary_search_is_scan:
  assumes "\<forall>a b. a \<le> b \<longrightarrow> b < n \<longrightarrow> f a \<longrightarrow> f b"
  shows "search_loop f 0 n = length (takeWhile (\<lambda>i. \<not> f i) [0..<n])"
proof -
  let ?k = "search_loop f 0 n"
  have k: "?k \<le> n" "\<And>i. i < ?k \<Longrightarrow> \<not> f i" "?k < n \<Longrightarrow> f ?k"
    using search_loop_least [of n f 0] assms by auto
  have "[0..<n] = [0..<?k] @ [?k..<n]"
    using k(1) by (metis le0 le_add_diff_inverse upt_add_eq_append)
  moreover have "takeWhile (\<lambda>i. \<not> f i) [?k..<n] = []"
    using k by (cases "?k < n") (simp_all add: upt_conv_Cons)
  moreover have "takeWhile (\<lambda>i. \<not> f i) ([0..<?k] @ [?k..<n]) = [0..<?k] @ takeWhile (\<lambda>i. \<not> f i) [?k..<n]"
    by (rule takeWhile_append2) (use k(2) in auto)
  ultimately show ?thesis
    by simp
qed

lemma binary_search_is_scan_witness:
  "search_loop (\<lambda>i. 3 \<le> i) 0 7 = length (takeWhile (\<lambda>i. \<not> 3 \<le> i) [0..<7])"
  by (rule binary_search_is_scan) simp

text \<open>C22: Consistency when the set of services changes: of two pools whose common services are
  in the same order, a query answered by a service that survives keeps it or moves to a service
  that was added; it never moves between surviving services.\<close>

theorem ring_replacement:
  assumes "filter (\<lambda>n. n \<in> set new) old = filter (\<lambda>n. n \<in> set old) new"
    and "GetUint64 hu (New hs 200 old) q = Ok x" "x \<in> set new"
  shows "GetUint64 hu (New hs 200 new) q = Ok x
    \<or> (\<exists>n\<in>set new. n \<notin> set old \<and> GetUint64 hu (New hs 200 new) q = Ok n)"
  using assms by (rule fnv_ring.replace_ring)

lemma ring_replacement_witness:
  "GetUint64 id (New (\<lambda>s. word_of_nat (length s)) 200 [''a'']) 9 = Ok ''a''
   \<or> (\<exists>n\<in>set [''a'']. n \<notin> set [''a'', ''b''] \<and> GetUint64 id (New (\<lambda>s. word_of_nat (length s)) 200 [''a'']) 9 = Ok n)"
proof -
  let ?l = "\<lambda>ns. GetUint64 id (New (\<lambda>s. word_of_nat (length s)) 200 ns) 9"
  have one: "?l [''a''] = Ok ''a''"
    using fnv_ring.lookup_build [of "[''a'']" id _ 9] by simp
  show ?thesis
  proof (cases "?l [''a'', ''b''] = Ok ''a''")
    case True
    then show ?thesis
      by (intro ring_replacement) simp_all
  next
    case False
    have "?l [''a''] = Ok ''a'' \<or> (\<exists>n\<in>set [''a'']. n \<notin> set [''a''] \<and> ?l [''a''] = Ok n)"
      by (rule ring_replacement [where old = "[''a'']"]) (use one in simp_all)
    then show ?thesis
      by simp
  qed
qed

text \<open>One service added anywhere in the list: every query keeps its answer or gets the new
  service, for any number of replicas.\<close>

lemma ring_insertion:
  "GetUint64 hu (New hs r (as @ k # bs)) q = GetUint64 hu (New hs r (as @ bs)) q
   \<or> GetUint64 hu (New hs r (as @ k # bs)) q = Ok k"
  using ring_lookup_insert [of hs r as k bs "hu q"] by (simp add: GetUint64_New)

end
