(* ===== verification/Tagged.thy ===== *)
theory Tagged
  imports Consistent_Hash
begin

text \<open>
  \<^verbatim>\<open>tagged.go\<close> and the types of \<^verbatim>\<open>registry/registry.go\<close>: the clients of the services that
  carry one tag, chosen at random, by consistent hashing or in turn. A \<^verbatim>\<open>*Client\<close> is a
  reference, \<open>None\<close> for \<^verbatim>\<open>nil\<close>. \<^verbatim>\<open>rand.Intn\<close> is the parameter \<open>rnd\<close>; its documented result
  is below its argument.
\<close>

section \<open>State\<close>

record service =
  svc_Id :: string
  svc_Name :: string
  svc_Tags :: "string list"
  svc_Port :: int
  svc_Address :: string

type_synonym client_ref = "nat option"

record tagged =
  tag :: string
  index :: i64
  services :: "service list"
  clients :: "client_ref list"
  hash :: "chash option"
  idc :: "string \<rightharpoonup> client_ref"

section \<open>Operations\<close>

definition tagged_replicas :: int where
  "tagged_replicas = 200"

definition newTagged ::
    "(string \<Rightarrow> u64) \<Rightarrow> string \<Rightarrow> service list \<Rightarrow> client_ref list \<Rightarrow> bool \<Rightarrow> tagged res" where
  "newTagged hs tg ss cs chash =
     (let t = \<lparr>tag = tg, index = 0, services = ss, clients = cs, hash = None, idc = Map.empty\<rparr> in
      if \<not> chash then Ok t
      else if length cs < length ss then Panic ''index out of range''
      else Ok (t\<lparr>idc := foldl (\<lambda>m (s, c). m(svc_Id s \<mapsto> c)) Map.empty (zip ss cs),
                 hash := Some (New hs tagged_replicas (List.map svc_Id ss))\<rparr>))"

definition client_at :: "tagged \<Rightarrow> i64 \<Rightarrow> client_ref res" where
  "client_at t i =
     (if length (clients t) = 0 then Err ErrNotFounded
      else let j = go_rem (sint i) (int (length (clients t))) in
           if j < 0 then Panic ''index out of range'' else Ok (clients t ! nat j))"

definition Random :: "(nat \<Rightarrow> nat) \<Rightarrow> tagged \<Rightarrow> client_ref res" where
  "Random rnd t =
     (let n = length (clients t) in
      if n \<le> 0 then Err ErrNotFounded
      else if n = 1 then client_at t 0
      else client_at t (word_of_nat (rnd n)))"

definition HasCHash :: "tagged \<Rightarrow> bool" where
  "HasCHash t \<longleftrightarrow> hash t \<noteq> None"

definition Hashed :: "(u64 \<Rightarrow> u64) \<Rightarrow> tagged \<Rightarrow> i64 \<Rightarrow> client_ref res" where
  "Hashed hu t key =
     (case hash t of
        None \<Rightarrow> Err ErrNotFounded
      | Some m \<Rightarrow>
          if IsEmpty m then Err ErrNotFounded
          else (case GetUint64 hu m key of
                  Ok i \<Rightarrow> Ok (case idc t i of None \<Rightarrow> None | Some c \<Rightarrow> c)
                | Err e \<Rightarrow> Err e
                | Panic p \<Rightarrow> Panic p
                | Blocked \<Rightarrow> Blocked))"

text \<open>The counter is incremented first, atomically; the 64-bit addition wraps.\<close>

definition RoundRobin :: "tagged \<Rightarrow> client_ref res \<times> tagged" where
  "RoundRobin t =
     (let index' = index t + 1 in (client_at t index', t\<lparr>index := index'\<rparr>))"

definition All :: "tagged \<Rightarrow> client_ref list" where
  "All t = clients t"

definition Tag :: "tagged \<Rightarrow> string" where
  "Tag t = tag t"

definition Services :: "tagged \<Rightarrow> service list" where
  "Services t = services t"

text \<open>A sequence of round-robin calls.\<close>

fun round_robins :: "nat \<Rightarrow> tagged \<Rightarrow> client_ref res list \<times> tagged" where
  "round_robins 0 t = ([], t)"
| "round_robins (Suc n) t =
     (let (r, t1) = RoundRobin t; (rs, t2) = round_robins n t1 in (r # rs, t2))"

section \<open>Round robin\<close>

lemma client_at_nonneg:
  "clients t \<noteq> [] \<Longrightarrow> 0 \<le> sint i \<Longrightarrow>
    client_at t i = Ok (clients t ! (nat (sint i) mod length (clients t)))"
  by (simp add: client_at_def go_rem_nonneg nat_mod_distrib Let_def not_less)

lemma sint_add_1:
  "sint (i :: i64) + 1 < 2 ^ 63 \<Longrightarrow> sint (i + 1) = sint i + 1"
proof -
  assume *: "sint i + 1 < 2 ^ 63"
  have "- (2 ^ 63) \<le> sint i"
    using sint_ge [of i] by simp
  with * have "signed_take_bit 63 (sint i + 1) = sint i + 1"
    by (intro signed_take_bit_int_eq_self) simp_all
  moreover have "sint (i + 1) = signed_take_bit 63 (sint i + 1)"
    using sint_word_ariths(1) [of i 1] by simp
  ultimately show ?thesis
    by simp
qed

lemma round_robins_nth:
  assumes "clients t \<noteq> []" and "0 \<le> sint (index t)" and "sint (index t) + int n < 2 ^ 63"
  shows "fst (round_robins n t) =
    List.map (\<lambda>j. Ok (clients t ! ((nat (sint (index t)) + 1 + j) mod length (clients t)))) [0..<n]"
  using assms
proof (induction n arbitrary: t)
  case (Suc n)
  from Suc.prems have next': "sint (index t + 1) = sint (index t) + 1"
    by (intro sint_add_1) simp
  let ?t1 = "t\<lparr>index := index t + 1\<rparr>"
  have "fst (round_robins n ?t1) =
    List.map (\<lambda>j. Ok (clients t ! ((nat (sint (index t)) + 1 + Suc j) mod length (clients t)))) [0..<n]"
    using Suc.IH [of ?t1] Suc.prems next' by (simp add: nat_add_distrib)
  moreover have "fst (RoundRobin t) = Ok (clients t ! ((nat (sint (index t)) + 1) mod length (clients t)))"
    using Suc.prems next' by (simp add: RoundRobin_def Let_def client_at_nonneg nat_add_distrib)
  ultimately show ?case
    by (simp add: RoundRobin_def Let_def case_prod_beta map_upt_Suc del: upt_Suc)
qed simp

text \<open>One full round is a rotation of the list of clients.\<close>

lemma round_robins_rotate:
  assumes "clients t \<noteq> []" and "0 \<le> sint (index t)"
    and "sint (index t) + int (length (clients t)) < 2 ^ 63"
  shows "fst (round_robins (length (clients t)) t) =
    List.map Ok (rotate (nat (sint (index t)) + 1) (clients t))"
proof (rule nth_equalityI)
  fix j
  assume "j < length (fst (round_robins (length (clients t)) t))"
  then have "j < length (clients t)"
    using round_robins_nth [OF assms] by simp
  then show "fst (round_robins (length (clients t)) t) ! j =
      List.map Ok (rotate (nat (sint (index t)) + 1) (clients t)) ! j"
    using round_robins_nth [OF assms]
    by (simp add: nth_rotate [of _ _ "Suc _"] ac_simps del: rotate_Suc)
qed (use round_robins_nth [OF assms] in simp)

text \<open>After \<open>2 ^ 63 - 1\<close> calls the counter turns negative and so does the remainder.\<close>

lemma round_robin_overflow:
  assumes "clients t \<noteq> []" and "index t = 2 ^ 63 - 1"
  shows "fst (RoundRobin t) =
    (if int (length (clients t)) dvd 2 ^ 63 then Ok (clients t ! 0) else Panic ''index out of range'')"
proof -
  have min: "sint (index t + 1) = - (2 ^ 63)"
    by (simp add: assms(2))
  have "go_rem (- (2 ^ 63)) (int (length (clients t))) = - (2 ^ 63 mod int (length (clients t)))"
    using assms(1) by (subst go_rem_neg) simp_all
  moreover have "0 \<le> (2 ^ 63 :: int) mod int (length (clients t))"
    using assms(1) by simp
  ultimately show ?thesis
    using assms(1)
    by (auto simp: RoundRobin_def Let_def client_at_def min dvd_eq_mod_eq_0 not_less
        intro: order.antisym)
qed

section \<open>Consistent hashing\<close>

lemma foldl_upd_rev_map_of:
  "foldl (\<lambda>m (s, c). m(f s \<mapsto> c)) m xs = m ++ map_of (rev (List.map (\<lambda>(s, c). (f s, c)) xs))"
  by (induction xs arbitrary: m) (auto simp: case_prod_beta)

lemma map_of_rev_zip_in:
  assumes "length ns = length cs" and "n \<in> set ns"
  shows "\<exists>i<length ns. ns ! i = n \<and> map_of (rev (zip ns cs)) n = Some (cs ! i)"
proof -
  from assms have "n \<in> fst ` set (rev (zip ns cs))"
    by (metis map_fst_zip list.set_map set_rev)
  then obtain c where c: "map_of (rev (zip ns cs)) n = Some c"
    by (metis domD dom_map_of_conv_image_fst)
  then have "(n, c) \<in> set (zip ns cs)"
    by (metis map_of_SomeD set_rev)
  with c assms(1) show ?thesis
    by (auto simp: in_set_zip)
qed

context node_ring
begin

text \<open>The table from node names to clients has a client for whatever the ring answers.\<close>

lemma pool_lookup:
  assumes "length ns = length cs" and "ns \<noteq> []"
  shows "\<exists>i<length ns. lookup (build ns) q = Ok (ns ! i)
    \<and> map_of (rev (zip ns cs)) (ns ! i) = Some (cs ! i)"
  using lookup_build [OF assms(2), of q] map_of_rev_zip_in [OF assms(1)] by metis

end

lemma newTagged_Ok:
  "length ss = length cs \<Longrightarrow> newTagged hs tg ss cs chash =
    Ok \<lparr>tag = tg, index = 0, services = ss, clients = cs,
        hash = (if chash then Some (New hs 200 (List.map svc_Id ss)) else None),
        idc = (if chash then map_of (rev (zip (List.map svc_Id ss) cs)) else Map.empty)\<rparr>"
proof -
  have "List.map (\<lambda>(s, c). (svc_Id s, c)) (zip ss cs) = zip (List.map svc_Id ss) cs"
    by (induction ss cs rule: list_induct2') auto
  then show "length ss = length cs \<Longrightarrow> ?thesis"
    by (simp add: newTagged_def Let_def tagged_replicas_def foldl_upd_rev_map_of)
qed

lemma Hashed_newTagged:
  assumes "newTagged hs tg ss cs True = Ok t" and "length ss = length cs"
  shows "Hashed hu t key =
    (if ss = [] then Err ErrNotFounded
     else (case GetUint64 hu (New hs 200 (List.map svc_Id ss)) key of
             Ok n \<Rightarrow> Ok (the (map_of (rev (zip (List.map svc_Id ss) cs)) n))
           | Err e \<Rightarrow> Err e | Panic p \<Rightarrow> Panic p | Blocked \<Rightarrow> Blocked))"
proof (cases "ss = []")
  case True
  with assms show ?thesis
    using fnv_ring.empty_build [of hs "[]"] by (auto simp: newTagged_Ok Hashed_def)
next
  case False
  then have "\<not> IsEmpty (New hs 200 (List.map svc_Id ss))"
    using fnv_ring.empty_build [of hs "List.map svc_Id ss"] by simp
  with False show ?thesis
    using fnv_ring.pool_lookup [of "List.map svc_Id ss" cs hu hs key] assms
    by (auto simp: newTagged_Ok Hashed_def)
qed

text \<open>The choice by hash always finds a client of the pool, that of the ring's node.\<close>

lemma Hashed_member:
  assumes "newTagged hs tg ss cs True = Ok t" and "length ss = length cs" and "ss \<noteq> []"
  shows "\<exists>i<length ss. Hashed hu t key = Ok (cs ! i)
    \<and> GetUint64 hu (New hs 200 (List.map svc_Id ss)) key = Ok (svc_Id (ss ! i))"
  using Hashed_newTagged [OF assms(1,2), of hu key] assms(2,3)
    fnv_ring.pool_lookup [of "List.map svc_Id ss" cs hu hs key]
  by auto

lemma Random_member:
  assumes "clients t \<noteq> []" and "\<And>n. 0 < n \<Longrightarrow> rnd n < n" and "length (clients t) < 2 ^ 63"
  shows "\<exists>c\<in>set (clients t). Random rnd t = Ok c"
proof -
  have at: "\<exists>c\<in>set (clients t). client_at t i = Ok c" if "0 \<le> sint i" for i
    using client_at_nonneg [OF assms(1) that] assms(1) by simp
  have "rnd (length (clients t)) < 2 ^ 63"
    using assms(2) [of "length (clients t)"] assms(1,3) by simp
  then have "0 \<le> sint (word_of_nat (rnd (length (clients t))) :: i64)"
    by (simp add: sint_word_of_nat)
  with at [of 0] at [of "word_of_nat (rnd (length (clients t)))"] assms(1) show ?thesis
    by (auto simp: Random_def Let_def)
qed

lemma RoundRobin_member:
  assumes "clients t \<noteq> []" and "0 \<le> sint (index t)" and "sint (index t) + 1 < 2 ^ 63"
  shows "\<exists>c\<in>set (clients t). fst (RoundRobin t) = Ok c"
  using client_at_nonneg [OF assms(1), of "index t + 1"] sint_add_1 [OF assms(3)] assms(1,2)
  by (simp add: RoundRobin_def Let_def)

lemma choices_member:
  assumes "newTagged hs tg ss cs True = Ok t" "length ss = length cs"
    and "\<And>n. 0 < n \<Longrightarrow> rnd n < n" "length cs < 2 ^ 63" "sint i + 1 < 2 ^ 63" "0 \<le> sint i"
  shows "(if ss = []
          then Random rnd t = Err ErrNotFounded \<and> Hashed hu t key = Err ErrNotFounded
             \<and> fst (RoundRobin (t\<lparr>index := i\<rparr>)) = Err ErrNotFounded
          else \<exists>a\<in>set cs. \<exists>b\<in>set cs. \<exists>c\<in>set cs.
             Random rnd t = Ok a \<and> Hashed hu t key = Ok b \<and> fst (RoundRobin (t\<lparr>index := i\<rparr>)) = Ok c)"
proof -
  have t: "clients t = cs"
    using assms(1,2) by (auto simp: newTagged_Ok)
  show ?thesis
  proof (cases "ss = []")
    case True
    with t assms(2) Hashed_newTagged [OF assms(1,2)] show ?thesis
      by (simp add: Random_def RoundRobin_def client_at_def)
  next
    case False
    with t assms(2) have cs: "clients t \<noteq> []" "length (clients t) < 2 ^ 63"
      using assms(4) by auto
    have "\<exists>c\<in>set cs. Random rnd t = Ok c"
      using Random_member [OF cs(1) assms(3) cs(2)] t by simp
    moreover have "\<exists>c\<in>set cs. Hashed hu t key = Ok c"
      using Hashed_member [OF assms(1,2) False, of hu key] assms(2) by auto
    moreover have "\<exists>c\<in>set cs. fst (RoundRobin (t\<lparr>index := i\<rparr>)) = Ok c"
      using RoundRobin_member [of "t\<lparr>index := i\<rparr>"] cs t assms(5,6) by simp
    ultimately show ?thesis
      using False by auto
  qed
qed

section \<open>The interface the selector relies on\<close>

text \<open>
  A pool remembers the services and the clients it was made of, position by position, and
  whether it was made for hashing. The client kept for a service of the pool is found by
  its position.
\<close>

locale client_pool =
  fixes make :: "string \<Rightarrow> service list \<Rightarrow> client_ref list \<Rightarrow> bool \<Rightarrow> 'p res"
    and tag_of :: "'p \<Rightarrow> string"
    and services_of :: "'p \<Rightarrow> service list"
    and clients_of :: "'p \<Rightarrow> client_ref list"
    and hashed :: "'p \<Rightarrow> bool"
  assumes make_pool: "length ss = length cs \<Longrightarrow>
      \<exists>p. make tg ss cs h = Ok p \<and> tag_of p = tg \<and> services_of p = ss \<and> clients_of p = cs
        \<and> (hashed p \<longleftrightarrow> h)"
begin

lemma make_not_Err: "length ss = length cs \<Longrightarrow> make tg ss cs h \<noteq> Err e"
  using make_pool [of ss cs tg h] by auto

lemma make_fields:
  assumes "length ss = length cs" and "make tg ss cs h = Ok p"
  shows "tag_of p = tg" and "services_of p = ss" and "clients_of p = cs" and "hashed p \<longleftrightarrow> h"
  using make_pool [OF assms(1), of tg h] assms(2) by auto

end

interpretation tagged_pool: client_pool "newTagged hs" Tag Services All HasCHash
  by unfold_locales (auto simp: newTagged_Ok Tag_def Services_def All_def HasCHash_def)

section \<open>Properties\<close>

text \<open>The choice by hash of a pool with services never fails and never returns \<^verbatim>\<open>nil\<close> for a
  pool of clients: it is the client at the position of a service the ring answers with.\<close>

lemma hashed_choice:
  assumes "newTagged hs tg ss cs True = Ok t" "length ss = length cs" "ss \<noteq> []"
  shows "\<exists>i<length ss. Hashed hu t key = Ok (cs ! i)
    \<and> GetUint64 hu (New hs 200 (List.map svc_Id ss)) key = Ok (svc_Id (ss ! i))"
  using assms by (rule Hashed_member)

definition service_a :: service where
  "service_a = \<lparr>svc_Id = ''a'', svc_Name = ''n'', svc_Tags = [''t''], svc_Port = 80, svc_Address = ''h''\<rparr>"

definition pool_a :: tagged where
  "pool_a = \<lparr>tag = ''t'', index = 0, services = [service_a], clients = [Some 3],
     hash = Some (New (\<lambda>_. 0) 200 [''a'']), idc = [''a'' \<mapsto> Some 3]\<rparr>"

lemma hashed_choice_witness:
  "\<exists>i<length [service_a]. Hashed id pool_a 5 = Ok ([Some 3] ! i)
    \<and> GetUint64 id (New (\<lambda>_. 0) 200 (List.map svc_Id [service_a])) 5 = Ok (svc_Id ([service_a] ! i))"
  by (rule hashed_choice [where tg = "''t''"])
    (simp_all add: newTagged_def pool_a_def service_a_def tagged_replicas_def)

text \<open>C33: Round robin is fair: as many calls as there are clients return every client once, in
  the order of the list from the one after the counter.\<close>

theorem round_robin_fair:
  assumes "clients t \<noteq> []" "0 \<le> sint (index t)"
    and "sint (index t) + int (length (clients t)) < 2 ^ 63"
  shows "fst (round_robins (length (clients t)) t) =
    List.map Ok (rotate (nat (sint (index t)) + 1) (clients t))"
  using assms by (rule round_robins_rotate)

lemma round_robin_fair_witness:
  "fst (round_robins 1 pool_a) = List.map Ok (rotate (nat (sint (index pool_a)) + 1) (clients pool_a))"
  using round_robin_fair [of pool_a] by (simp add: pool_a_def)

text \<open>The counter is signed and wraps: the call after it reached its maximum takes the
  remainder of a negative number, which is an index out of range unless the number of clients
  divides \<open>2 ^ 63\<close>.\<close>

lemma round_robin_wraps:
  assumes "clients t \<noteq> []" "index t = 2 ^ 63 - 1"
  shows "fst (RoundRobin t) =
    (if int (length (clients t)) dvd 2 ^ 63 then Ok (clients t ! 0) else Panic ''index out of range'')"
  using assms by (rule round_robin_overflow)

lemma round_robin_wraps_witness:
  "fst (RoundRobin (pool_a\<lparr>index := 2 ^ 63 - 1, clients := [Some 1, Some 2, Some 3]\<rparr>)) = Panic ''index out of range''"
  using round_robin_wraps [of "pool_a\<lparr>index := 2 ^ 63 - 1, clients := [Some 1, Some 2, Some 3]\<rparr>"] by simp

text \<open>Every choice returns a client of the pool or reports that there is none: none of the
  three strategies returns anything else, for a counter that has not wrapped.\<close>

lemma choices_from_pool:
  assumes "newTagged hs tg ss cs True = Ok t" "length ss = length cs"
    and "\<And>n. 0 < n \<Longrightarrow> rnd n < n" "length cs < 2 ^ 63" "sint i + 1 < 2 ^ 63" "0 \<le> sint i"
  shows "(if ss = []
          then Random rnd t = Err ErrNotFounded \<and> Hashed hu t key = Err ErrNotFounded
             \<and> fst (RoundRobin (t\<lparr>index := i\<rparr>)) = Err ErrNotFounded
          else \<exists>a\<in>set cs. \<exists>b\<in>set cs. \<exists>c\<in>set cs.
             Random rnd t = Ok a \<and> Hashed hu t key = Ok b \<and> fst (RoundRobin (t\<lparr>index := i\<rparr>)) = Ok c)"
  using assms by (rule choices_member)

lemma choices_from_pool_witness:
  "\<exists>a\<in>set [Some 3]. \<exists>b\<in>set [Some 3]. \<exists>c\<in>set [Some 3].
     Random (\<lambda>n. n - 1) pool_a = Ok a \<and> Hashed id pool_a 8 = Ok b \<and> fst (RoundRobin (pool_a\<lparr>index := 4\<rparr>)) = Ok c"
  using choices_from_pool [of "\<lambda>_. 0" "''t''" "[service_a]" "[Some 3]" pool_a "\<lambda>n. n - 1" 4 id 8]
  by (simp add: newTagged_def pool_a_def service_a_def tagged_replicas_def)

end
