(* ===== verification/Selector.thy ===== *)
theory Selector
  imports Tagged
begin

text \<open>
  \<^verbatim>\<open>selector.go\<close>: the pools of clients per tag, filled from the services a registry reports and
  replaced when they change. The functions that start and stop a client are the application's:
  starting the \<open>n\<close>-th client at an address is the parameter \<open>startc\<close>, and \<open>live\<close> is the set of
  the clients started and not stopped. The registry's answer and the order in which Go ranges
  over a map are arguments. Operations are atomic here; \<open>Selector_Conc\<close> cuts them at their locks.
\<close>

section \<open>State\<close>

record 'w selector =
  discovered :: "service list"
  pools :: "string \<rightharpoonup> tagged"
  next_client :: nat
  live :: "nat set"
  onDiscovered :: "(service list \<Rightarrow> 'w \<Rightarrow> 'w) list"
  sel_world :: 'w
  sel_log :: "go_error list"
  sel_stopped :: bool

type_synonym start_fn = "string \<Rightarrow> nat \<Rightarrow> go_error option"

section \<open>One client\<close>

definition JoinHostPort :: "string \<Rightarrow> string \<Rightarrow> string" where
  "JoinHostPort host port =
     (if CHR '':'' \<in> set host then ''['' @ host @ '']:'' @ port else host @ '':'' @ port)"

definition sel_connect ::
    "start_fn \<Rightarrow> service \<Rightarrow> 'w selector \<Rightarrow> (go_error + client_ref) \<times> 'w selector" where
  "sel_connect startc s sel =
     (let addr = JoinHostPort (svc_Address s) (itoa (svc_Port s)); n = next_client sel in
      case startc addr n of
        Some e \<Rightarrow> (Inl e, sel\<lparr>next_client := n + 1\<rparr>)
      | None \<Rightarrow> (Inr (Some n), sel\<lparr>next_client := n + 1, live := insert n (live sel)\<rparr>))"

definition sel_stop :: "client_ref \<Rightarrow> 'w selector \<Rightarrow> 'w selector" where
  "sel_stop cl sel = (case cl of None \<Rightarrow> sel | Some n \<Rightarrow> sel\<lparr>live := live sel - {n}\<rparr>)"

section \<open>Services\<close>

text \<open>A service that carries a tag twice is listed twice.\<close>

definition getServices :: "string \<Rightarrow> service list \<Rightarrow> service list" where
  "getServices tg ss = concat (List.map (\<lambda>s. List.map (\<lambda>_. s) (filter (\<lambda>v. v = tg) (svc_Tags s))) ss)"

fun sameServices :: "service list \<Rightarrow> service list \<Rightarrow> bool" where
  "sameServices [] [] = True"
| "sameServices (a # as) (b # bs) = (svc_Id a = svc_Id b \<and> sameServices as bs)"
| "sameServices _ _ = False"

section \<open>A new pool\<close>

text \<open>The first of the old services with the same id, and its client.\<close>

fun reuse :: "service list \<Rightarrow> client_ref list \<Rightarrow> service \<Rightarrow> client_ref res" where
  "reuse [] cs s = Ok None"
| "reuse (p # ps) cs s =
     (if svc_Id p = svc_Id s
      then (case cs of [] \<Rightarrow> Panic ''index out of range'' | c # _ \<Rightarrow> Ok c)
      else reuse ps (tl cs) s)"

text \<open>The clients of the services, those created for them, and the first error.\<close>

fun sel_clients ::
    "start_fn \<Rightarrow> service list \<Rightarrow> client_ref list \<Rightarrow> service list \<Rightarrow> 'w selector
      \<Rightarrow> client_ref list res \<times> client_ref list \<times> 'w selector" where
  "sel_clients startc os ocs [] sel = (Ok [], [], sel)"
| "sel_clients startc os ocs (s # ss) sel =
     (case reuse os ocs s of
        Ok (Some c) \<Rightarrow>
          (case sel_clients startc os ocs ss sel of
             (Ok cs, cr, sel') \<Rightarrow> (Ok (Some c # cs), cr, sel')
           | r \<Rightarrow> r)
      | Ok None \<Rightarrow>
          (case sel_connect startc s sel of
             (Inl e, sel1) \<Rightarrow>
               (Err (ErrorString (''failed to open client to '' @ svc_Id s @ '':'' @ error_text e)), [], sel1)
           | (Inr c, sel1) \<Rightarrow>
               (case sel_clients startc os ocs ss sel1 of
                  (Ok cs, cr, sel2) \<Rightarrow> (Ok (c # cs), c # cr, sel2)
                | (r, cr, sel2) \<Rightarrow> (r, c # cr, sel2)))
      | Err e \<Rightarrow> (Err e, [], sel)
      | Panic p \<Rightarrow> (Panic p, [], sel)
      | Blocked \<Rightarrow> (Blocked, [], sel))"

definition sel_newTagged ::
    "(string \<Rightarrow> u64) \<Rightarrow> start_fn \<Rightarrow> string \<Rightarrow> tagged option \<Rightarrow> service list \<Rightarrow> bool \<Rightarrow> 'w selector
      \<Rightarrow> tagged res \<times> 'w selector" where
  "sel_newTagged hs startc tg old ss chash sel =
     (let os = (case old of None \<Rightarrow> [] | Some t \<Rightarrow> Services t);
          ocs = (case old of None \<Rightarrow> [] | Some t \<Rightarrow> All t) in
      case sel_clients startc os ocs ss sel of
        (Ok cs, cr, sel1) \<Rightarrow> (newTagged hs tg ss cs chash, sel1)
      | (Err e, cr, sel1) \<Rightarrow> (Err e, foldl (\<lambda>s c. sel_stop c s) sel1 cr)
      | (Panic p, cr, sel1) \<Rightarrow> (Panic p, sel1)
      | (Blocked, cr, sel1) \<Rightarrow> (Blocked, sel1))"

text \<open>The clients of the services that are gone.\<close>

fun drop_clients ::
    "service list \<Rightarrow> client_ref list \<Rightarrow> service list \<Rightarrow> 'w selector \<Rightarrow> unit res \<times> 'w selector" where
  "drop_clients [] cs ss sel = (Ok (), sel)"
| "drop_clients (p # ps) cs ss sel =
     (if list_ex (\<lambda>s. svc_Id p = svc_Id s) ss then drop_clients ps (tl cs) ss sel
      else (case cs of
              [] \<Rightarrow> (Panic ''index out of range'', sel)
            | c # cs' \<Rightarrow> drop_clients ps cs' ss (sel_stop c sel)))"

definition replaceTagged ::
    "(string \<Rightarrow> u64) \<Rightarrow> start_fn \<Rightarrow> string \<Rightarrow> tagged option \<Rightarrow> service list \<Rightarrow> bool \<Rightarrow> 'w selector
      \<Rightarrow> tagged res \<times> 'w selector" where
  "replaceTagged hs startc tg old ss chash sel =
     (case sel_newTagged hs startc tg old ss chash sel of
        (Ok p, sel1) \<Rightarrow>
          (let sel2 = sel1\<lparr>pools := (pools sel1)(tg \<mapsto> p)\<rparr> in
           case old of
             None \<Rightarrow> (Ok p, sel2)
           | Some t \<Rightarrow>
               (case drop_clients (Services t) (All t) ss sel2 of
                  (Ok _, sel3) \<Rightarrow> (Ok p, sel3)
                | (Err e, sel3) \<Rightarrow> (Err e, sel3)
                | (Panic x, sel3) \<Rightarrow> (Panic x, sel3)
                | (Blocked, sel3) \<Rightarrow> (Blocked, sel3)))
      | r \<Rightarrow> r)"

section \<open>Choosing a client\<close>

definition fill ::
    "(string \<Rightarrow> u64) \<Rightarrow> start_fn \<Rightarrow> string \<Rightarrow> bool \<Rightarrow> 'w selector \<Rightarrow> tagged res \<times> 'w selector" where
  "fill hs startc tg chash sel =
     (case pools sel tg of
        Some p \<Rightarrow>
          if \<not> chash \<or> HasCHash p then (Ok p, sel)
          else replaceTagged hs startc tg (Some p) (getServices tg (discovered sel)) chash sel
      | None \<Rightarrow> replaceTagged hs startc tg None (getServices tg (discovered sel)) chash sel)"

fun after_fill :: "(tagged \<Rightarrow> 'a res \<times> 'w selector) \<Rightarrow> tagged res \<times> 'w selector \<Rightarrow> 'a res \<times> 'w selector" where
  "after_fill f (Ok p, sel) = f p"
| "after_fill f (Err e, sel) = (Err e, sel)"
| "after_fill f (Panic x, sel) = (Panic x, sel)"
| "after_fill f (Blocked, sel) = (Blocked, sel)"

definition sel_Random ::
    "(string \<Rightarrow> u64) \<Rightarrow> start_fn \<Rightarrow> (nat \<Rightarrow> nat) \<Rightarrow> string \<Rightarrow> 'w selector \<Rightarrow> client_ref res \<times> 'w selector" where
  "sel_Random hs startc rnd tg sel =
     (let r = fill hs startc tg False sel in after_fill (\<lambda>p. (Random rnd p, snd r)) r)"

definition sel_Hashed ::
    "(string \<Rightarrow> u64) \<Rightarrow> (u64 \<Rightarrow> u64) \<Rightarrow> start_fn \<Rightarrow> string \<Rightarrow> i64 \<Rightarrow> 'w selector \<Rightarrow> client_ref res \<times> 'w selector" where
  "sel_Hashed hs hu startc tg key sel =
     (let r = fill hs startc tg True sel in after_fill (\<lambda>p. (Hashed hu p key, snd r)) r)"

text \<open>The pool's counter is changed in place.\<close>

definition sel_RoundRobin ::
    "(string \<Rightarrow> u64) \<Rightarrow> start_fn \<Rightarrow> string \<Rightarrow> 'w selector \<Rightarrow> client_ref res \<times> 'w selector" where
  "sel_RoundRobin hs startc tg sel =
     (let r = fill hs startc tg False sel in
      after_fill (\<lambda>p. (case RoundRobin p of (c, p') \<Rightarrow> (c, (snd r)\<lparr>pools := (pools (snd r))(tg \<mapsto> p')\<rparr>))) r)"

definition sel_All ::
    "(string \<Rightarrow> u64) \<Rightarrow> start_fn \<Rightarrow> string \<Rightarrow> 'w selector \<Rightarrow> client_ref list res \<times> 'w selector" where
  "sel_All hs startc tg sel =
     (let r = fill hs startc tg False sel in after_fill (\<lambda>p. (Ok (All p), snd r)) r)"

section \<open>Pulling the registry\<close>

text \<open>The pools found in the map, in the order \<open>ord\<close> of its keys.\<close>

fun refresh ::
    "(string \<Rightarrow> u64) \<Rightarrow> start_fn \<Rightarrow> tagged list \<Rightarrow> service list \<Rightarrow> 'w selector \<Rightarrow> unit res \<times> 'w selector" where
  "refresh hs startc [] disc sel = (Ok (), sel)"
| "refresh hs startc (p # ps) disc sel =
     (let ss = getServices (Tag p) disc in
      if sameServices (Services p) ss then refresh hs startc ps disc sel
      else (case replaceTagged hs startc (Tag p) (Some p) ss (HasCHash p) sel of
              (Ok _, sel1) \<Rightarrow> refresh hs startc ps disc sel1
            | (Err e, sel1) \<Rightarrow> refresh hs startc ps disc (sel1\<lparr>sel_log := sel_log sel1 @ [e]\<rparr>)
            | (Panic x, sel1) \<Rightarrow> (Panic x, sel1)
            | (Blocked, sel1) \<Rightarrow> (Blocked, sel1)))"

definition pull ::
    "(string \<Rightarrow> u64) \<Rightarrow> start_fn \<Rightarrow> string list \<Rightarrow> (go_error + service list) \<Rightarrow> 'w selector \<Rightarrow> unit res \<times> 'w selector" where
  "pull hs startc ord reg sel =
     (case reg of
        Inl e \<Rightarrow> (Err e, sel)
      | Inr ss \<Rightarrow>
          (let disc = sort_key svc_Id ss in
           if sameServices (discovered sel) disc then (Ok (), sel)
           else (let sel1 = sel\<lparr>discovered := disc,
                       sel_world := foldl (\<lambda>w f. f disc w) (sel_world sel) (onDiscovered sel)\<rparr> in
                 refresh hs startc (List.map_filter (pools sel1) ord) disc sel1)))"

section \<open>The selector\<close>

definition new_selector :: "'w \<Rightarrow> 'w selector" where
  "new_selector w = \<lparr>discovered = [], pools = Map.empty, next_client = 0, live = {}, onDiscovered = [],
     sel_world = w, sel_log = [], sel_stopped = False\<rparr>"

definition NewSelector ::
    "(string \<Rightarrow> u64) \<Rightarrow> start_fn \<Rightarrow> (go_error + service list) \<Rightarrow> 'w \<Rightarrow> 'w selector res" where
  "NewSelector hs startc reg w =
     (case pull hs startc [] reg (new_selector w) of
        (Ok _, sel) \<Rightarrow> Ok sel
      | (Err e, sel) \<Rightarrow> Err e
      | (Panic x, sel) \<Rightarrow> Panic x
      | (Blocked, sel) \<Rightarrow> Blocked)"

definition OnDiscovered :: "(service list \<Rightarrow> 'w \<Rightarrow> 'w) \<Rightarrow> 'w selector \<Rightarrow> 'w selector" where
  "OnDiscovered f sel =
     sel\<lparr>sel_world := f (discovered sel) (sel_world sel), onDiscovered := onDiscovered sel @ [f]\<rparr>"

text \<open>A tick of the timer: an error of the registry is logged.\<close>

definition tick ::
    "(string \<Rightarrow> u64) \<Rightarrow> start_fn \<Rightarrow> string list \<Rightarrow> (go_error + service list) \<Rightarrow> 'w selector \<Rightarrow> unit res \<times> 'w selector" where
  "tick hs startc ord reg sel =
     (case pull hs startc ord reg sel of
        (Err e, sel') \<Rightarrow> (Ok (), sel'\<lparr>sel_log := sel_log sel' @ [e]\<rparr>)
      | r \<Rightarrow> r)"

definition sel_Stop :: "string list \<Rightarrow> 'w selector \<Rightarrow> unit res \<times> 'w selector" where
  "sel_Stop ord sel =
     (if sel_stopped sel then (Panic ''close of closed channel'', sel)
      else (Ok (),
        (foldl (\<lambda>s c. sel_stop c s) sel (concat (List.map All (List.map_filter (pools sel) ord))))
          \<lparr>pools := Map.empty, sel_stopped := True\<rparr>))"

end
