(* ===== verification/Selector_Inv.thy ===== *)
theory Selector_Inv
  imports Selector
begin

text \<open>
  The selector's accounting of clients: the clients that run are exactly those of its pools, no
  client belongs to two services or two pools, and every operation keeps it so, the failed ones
  included. Registry answers are taken to have distinct ids and no repeated tags; what happens
  to a repeated tag is a theorem of its own.
\<close>

section \<open>Reused clients\<close>

definition ids :: "service list \<Rightarrow> string list" where
  "ids ss = List.map svc_Id ss"

text \<open>The client kept for an id, by position.\<close>

definition client_of :: "service list \<Rightarrow> client_ref list \<Rightarrow> string \<Rightarrow> client_ref option" where
  "client_of os ocs i = map_of (zip (ids os) ocs) i"

lemma reuse_eq:
  "length os = length ocs \<Longrightarrow> reuse os ocs s = Ok (case client_of os ocs (svc_Id s) of None \<Rightarrow> None | Some c \<Rightarrow> c)"
  by (induction os ocs rule: list_induct2) (auto simp: client_of_def ids_def)

lemma client_of_in: "client_of os ocs i = Some c \<Longrightarrow> c \<in> set ocs"
  unfolding client_of_def by (meson in_set_zipE map_of_SomeD)

lemma client_of_inj:
  assumes "distinct ocs" "length os = length ocs" "client_of os ocs i = Some c" "client_of os ocs j = Some c"
  shows "i = j"
proof -
  have "(i, c) \<in> set (zip (ids os) ocs)" "(j, c) \<in> set (zip (ids os) ocs)"
    using assms(3,4) by (auto simp: client_of_def dest: map_of_SomeD)
  then obtain k l where "k < length ocs" "ids os ! k = i" "ocs ! k = c" "l < length ocs" "ids os ! l = j" "ocs ! l = c"
    using assms(2) by (auto simp: in_set_zip ids_def)
  with assms(1) show ?thesis
    by (metis nth_eq_iff_index_eq)
qed

text \<open>The clients taken over for the services \<open>ss\<close>.\<close>

definition reused :: "service list \<Rightarrow> client_ref list \<Rightarrow> service list \<Rightarrow> client_ref set" where
  "reused os ocs ss = {c. \<exists>s\<in>set ss. client_of os ocs (svc_Id s) = Some c}"

lemma reused_subset: "reused os ocs ss \<subseteq> set ocs"
  by (auto simp: reused_def dest: client_of_in)

section \<open>Creating clients\<close>

definition fresh_refs :: "nat \<Rightarrow> nat \<Rightarrow> client_ref set" where
  "fresh_refs m n = Some ` {m..<n}"

definition same_but_clients :: "'w selector \<Rightarrow> 'w selector \<Rightarrow> bool" where
  "same_but_clients s t \<longleftrightarrow> discovered t = discovered s \<and> pools t = pools s \<and> onDiscovered t = onDiscovered s
     \<and> sel_world t = sel_world s \<and> sel_log t = sel_log s \<and> sel_stopped t = sel_stopped s"

lemma same_but_clients_refl [simp]: "same_but_clients s s"
  by (simp add: same_but_clients_def)

lemma same_but_clients_trans: "same_but_clients s t \<Longrightarrow> same_but_clients t u \<Longrightarrow> same_but_clients s u"
  by (simp add: same_but_clients_def)

text \<open>What \<open>sel_clients\<close> gives: clients taken over or created, the created ones new and running.\<close>

definition clients_spec ::
    "service list \<Rightarrow> client_ref list \<Rightarrow> service list \<Rightarrow> 'w selector
      \<Rightarrow> client_ref list res \<Rightarrow> client_ref list \<Rightarrow> 'w selector \<Rightarrow> bool" where
  "clients_spec os ocs ss sel r cr sel' \<longleftrightarrow>
     same_but_clients sel sel' \<and> next_client sel \<le> next_client sel'
     \<and> set cr \<subseteq> fresh_refs (next_client sel) (next_client sel') \<and> distinct cr
     \<and> Some ` live sel' = Some ` live sel \<union> set cr
     \<and> (case r of
          Ok cs \<Rightarrow> length cs = length ss \<and> set cs = reused os ocs ss \<union> set cr
            \<and> (\<forall>i<length ss. \<forall>c. client_of os ocs (svc_Id (ss ! i)) = Some c \<longrightarrow> cs ! i = c)
            \<and> (distinct (ids ss) \<longrightarrow> distinct cs)
        | Err e \<Rightarrow> True | _ \<Rightarrow> False)"

lemma sel_clients_spec:
  assumes old: "length os = length ocs" "None \<notin> set ocs" "distinct ocs"
  shows "set ocs \<subseteq> Some ` {..<next_client sel} \<Longrightarrow> sel_clients startc os ocs ss sel = (r, cr, sel') \<Longrightarrow>
    clients_spec os ocs ss sel r cr sel'"
proof (induction ss arbitrary: sel r cr sel')
  case Nil
  then show ?case
    by (auto simp: clients_spec_def reused_def ids_def)
next
  case (Cons s ss)
  show ?case
  proof (cases "client_of os ocs (svc_Id s)")
    case (Some c)
    then obtain n where c: "c = Some n"
      using client_of_in [OF Some] old(2) by (cases c) auto
    have re: "reuse os ocs s = Ok (Some n)"
      using Some c by (simp add: reuse_eq [OF old(1)])
    obtain r1 cr1 sel1 where rec: "sel_clients startc os ocs ss sel = (r1, cr1, sel1)"
      by (cases "sel_clients startc os ocs ss sel")
    have spec: "clients_spec os ocs ss sel r1 cr1 sel1"
      using Cons.IH [OF Cons.prems(1) rec] .
    show ?thesis
    proof (cases r1)
      case (Ok cs)
      have eq: "r = Ok (Some n # cs)" "cr = cr1" "sel' = sel1"
        using Cons.prems(2) re rec Ok by auto
      have cs: "set cs = reused os ocs ss \<union> set cr1"
        using spec Ok by (simp add: clients_spec_def)
      have "Some n \<notin> set cs" if "distinct (ids (s # ss))"
      proof -
        have "Some n \<notin> set cr1"
      proof
        assume "Some n \<in> set cr1"
        moreover have "set cr1 \<subseteq> fresh_refs (next_client sel) (next_client sel1)"
          using spec by (simp add: clients_spec_def)
        moreover have "n < next_client sel"
          using Cons.prems(1) client_of_in [OF Some] c by auto
        ultimately show False
          by (auto simp: fresh_refs_def)
      qed
      moreover have "Some n \<notin> reused os ocs ss"
          using that Some c client_of_inj [OF old(3,1)] by (fastforce simp: reused_def ids_def)
        ultimately show ?thesis
          using cs by simp
      qed
      moreover have "reused os ocs (s # ss) = insert (Some n) (reused os ocs ss)"
        using Some c by (auto simp: reused_def)
      ultimately show ?thesis
        using spec Ok Some c unfolding eq
        by (auto simp: clients_spec_def ids_def nth_Cons split: nat.splits)
    qed (use Cons.prems(2) re rec spec in \<open>auto simp: clients_spec_def\<close>)
  next
    case None
    have re: "reuse os ocs s = Ok None"
      using None by (simp add: reuse_eq [OF old(1)])
    show ?thesis
    proof (cases "sel_connect startc s sel")
      case (Pair x sel1)
      have sel1: "same_but_clients sel sel1" "next_client sel1 = next_client sel + 1"
        using Pair by (auto simp: sel_connect_def Let_def same_but_clients_def split: option.splits)
      show ?thesis
      proof (cases x)
        case (Inl e)
        then have "live sel1 = live sel"
          using Pair by (auto simp: sel_connect_def Let_def split: option.splits)
        then show ?thesis
          using Cons.prems(2) re Pair Inl sel1 by (auto simp: clients_spec_def)
      next
        case (Inr c)
        then have c: "c = Some (next_client sel)" and live: "live sel1 = insert (next_client sel) (live sel)"
          using Pair by (auto simp: sel_connect_def Let_def split: option.splits)
        obtain r1 cr1 sel2 where rec: "sel_clients startc os ocs ss sel1 = (r1, cr1, sel2)"
          by (cases "sel_clients startc os ocs ss sel1")
        have "set ocs \<subseteq> Some ` {..<next_client sel1}"
          using Cons.prems(1) sel1(2) by auto
        then have spec: "clients_spec os ocs ss sel1 r1 cr1 sel2"
          using rec by (rule Cons.IH)
        have fresh: "c \<notin> set cr1" "c \<notin> set ocs"
          using spec c sel1(2) Cons.prems(1) by (auto simp: clients_spec_def fresh_refs_def)
        have common: "cr = c # cr1" "sel' = sel2"
          using Cons.prems(2) re Pair Inr rec by (auto split: res.splits)
        have base: "same_but_clients sel sel2 \<and> next_client sel \<le> next_client sel2
            \<and> set (c # cr1) \<subseteq> fresh_refs (next_client sel) (next_client sel2) \<and> distinct (c # cr1)
            \<and> Some ` live sel2 = Some ` live sel \<union> set (c # cr1)"
          using spec sel1 c live fresh(1)
          by (auto simp: clients_spec_def fresh_refs_def elim: same_but_clients_trans)
        show ?thesis
        proof (cases r1)
          case (Ok cs)
          have eq: "r = Ok (c # cs)"
            using Cons.prems(2) re Pair Inr rec Ok by auto
          have "c \<notin> set cs"
            using spec Ok fresh reused_subset [of os ocs ss] by (auto simp: clients_spec_def)
          moreover have "reused os ocs (s # ss) = reused os ocs ss"
            using None by (auto simp: reused_def)
          ultimately show ?thesis
            using spec Ok None base unfolding common eq clients_spec_def
            by (auto simp: ids_def nth_Cons split: nat.splits)
        next
          case (Err e)
          then show ?thesis
            using Cons.prems(2) re Pair Inr rec base common by (auto simp: clients_spec_def)
        qed (use spec in \<open>auto simp: clients_spec_def\<close>)
      qed
    qed
  qed
qed

section \<open>Stopping clients\<close>

lemma stop_all: "foldl (\<lambda>s c. sel_stop c s) sel cs = sel\<lparr>live := live sel - {n. Some n \<in> set cs}\<rparr>"
proof (induction cs arbitrary: sel)
  case (Cons c cs)
  then show ?case
    by (cases c) (auto simp: sel_stop_def set_diff_eq)
qed simp

definition dropped :: "service list \<Rightarrow> client_ref list \<Rightarrow> service list \<Rightarrow> nat set" where
  "dropped os ocs ss = {n. \<exists>p. (p, Some n) \<in> set (zip os ocs) \<and> svc_Id p \<notin> svc_Id ` set ss}"

lemma drop_clients_eq:
  "length os = length ocs \<Longrightarrow> drop_clients os ocs ss sel = (Ok (), sel\<lparr>live := live sel - dropped os ocs ss\<rparr>)"
proof (induction os ocs arbitrary: sel rule: list_induct2)
  case Nil
  then show ?case
    by (simp add: dropped_def)
next
  case (Cons p ps c cs)
  have gone: "list_ex (\<lambda>s. svc_Id p = svc_Id s) ss \<longleftrightarrow> svc_Id p \<in> svc_Id ` set ss"
    by (auto simp: list_ex_iff)
  show ?case
  proof (cases "svc_Id p \<in> svc_Id ` set ss")
    case True
    then have "dropped (p # ps) (c # cs) ss = dropped ps cs ss"
      by (auto simp: dropped_def)
    with True show ?thesis
      by (simp add: gone Cons.IH)
  next
    case False
    then have "live sel - dropped (p # ps) (c # cs) ss = live (sel_stop c sel) - dropped ps cs ss"
      by (cases c) (auto simp: dropped_def sel_stop_def)
    moreover have "(sel_stop c sel)\<lparr>live := l\<rparr> = sel\<lparr>live := l\<rparr>" for l
      by (simp add: sel_stop_def split: option.splits)
    ultimately show ?thesis
      using False by (simp add: gone Cons.IH)
  qed
qed

lemma dropped_reused:
  assumes "length os = length ocs" "distinct (ids os)" "distinct ocs" "None \<notin> set ocs"
  shows "Some ` dropped os ocs ss = set ocs - reused os ocs ss"
proof -
  have zip: "client_of os ocs (svc_Id p) = Some c" if "(p, c) \<in> set (zip os ocs)" for p c
  proof -
    have "(svc_Id p, c) \<in> set (zip (ids os) ocs)"
      using that unfolding ids_def zip_map1 by force
    moreover have "distinct (List.map fst (zip (ids os) ocs))"
      using assms(1,2) by (simp add: ids_def)
    ultimately show ?thesis
      by (simp add: client_of_def)
  qed
  show ?thesis
  proof (intro equalityI subsetI)
    fix c
    assume "c \<in> Some ` dropped os ocs ss"
    then obtain n p where n: "c = Some n" "(p, c) \<in> set (zip os ocs)" "svc_Id p \<notin> svc_Id ` set ss"
      by (auto simp: dropped_def)
    then have "c \<in> set ocs"
      by (meson in_set_zipE)
    moreover have "c \<notin> reused os ocs ss"
    proof
      assume "c \<in> reused os ocs ss"
      then obtain s where "s \<in> set ss" "client_of os ocs (svc_Id s) = Some c"
        by (auto simp: reused_def)
      then show False
        using n(3) client_of_inj [OF assms(3,1) zip [OF n(2)]] by force
    qed
    ultimately show "c \<in> set ocs - reused os ocs ss"
      by simp
  next
    fix c
    assume c: "c \<in> set ocs - reused os ocs ss"
    with assms(1) obtain p where p: "(p, c) \<in> set (zip os ocs)"
      by (metis DiffD1 in_set_impl_in_set_zip2)
    moreover obtain n where "c = Some n"
      using c assms(4) by (cases c) auto
    moreover have "svc_Id p \<notin> svc_Id ` set ss"
    proof
      assume "svc_Id p \<in> svc_Id ` set ss"
      then obtain s where "s \<in> set ss" "svc_Id s = svc_Id p"
        by force
      then have "c \<in> reused os ocs ss"
        using zip [OF p] unfolding reused_def by (metis (mono_tags, lifting) mem_Collect_eq)
      with c show False
        by simp
    qed
    ultimately show "c \<in> Some ` dropped os ocs ss"
      by (auto simp: dropped_def)
  qed
qed

section \<open>The invariant\<close>

definition services_ok :: "service list \<Rightarrow> bool" where
  "services_ok ss \<longleftrightarrow> distinct (ids ss) \<and> (\<forall>s\<in>set ss. distinct (svc_Tags s))"

definition pool_ok :: "(string \<Rightarrow> u64) \<Rightarrow> string \<Rightarrow> tagged \<Rightarrow> bool" where
  "pool_ok hs tg t \<longleftrightarrow> tag t = tg \<and> length (services t) = length (clients t) \<and> distinct (ids (services t))
     \<and> distinct (clients t) \<and> None \<notin> set (clients t)
     \<and> newTagged hs tg (services t) (clients t) (HasCHash t) = Ok (t\<lparr>index := 0\<rparr>)"

definition pool_clients :: "(string \<rightharpoonup> tagged) \<Rightarrow> client_ref set" where
  "pool_clients m = {c. \<exists>tg t. m tg = Some t \<and> c \<in> set (clients t)}"

definition sel_inv :: "(string \<Rightarrow> u64) \<Rightarrow> 'w selector \<Rightarrow> bool" where
  "sel_inv hs sel \<longleftrightarrow>
     (\<forall>tg t. pools sel tg = Some t \<longrightarrow> pool_ok hs tg t)
     \<and> (\<forall>tg tg' t t'. pools sel tg = Some t \<longrightarrow> pools sel tg' = Some t' \<longrightarrow> tg \<noteq> tg' \<longrightarrow>
          set (clients t) \<inter> set (clients t') = {})
     \<and> Some ` live sel = pool_clients (pools sel)
     \<and> live sel \<subseteq> {..<next_client sel}
     \<and> services_ok (discovered sel)"

lemma pool_clients_upd: "pool_clients (m(tg \<mapsto> p)) = set (clients p) \<union> pool_clients (m(tg := None))"
  by (auto simp: pool_clients_def split: if_splits)

lemma pool_clients_split: "m tg = Some t \<Longrightarrow> pool_clients m = set (clients t) \<union> pool_clients (m(tg := None))"
  using pool_clients_upd [of m tg t] by (simp add: fun_upd_idem)

lemma new_selector_inv: "sel_inv hs (new_selector w)"
  by (simp add: sel_inv_def new_selector_def pool_clients_def services_ok_def ids_def)

lemma distinct_getServices: "services_ok ss \<Longrightarrow> distinct (ids (getServices tg ss))"
proof (induction ss)
  case (Cons s ss)
  have tags: "filter (\<lambda>v. v = tg) vs = [] \<or> filter (\<lambda>v. v = tg) vs = [tg]" if "distinct vs" for vs :: "string list"
    using that by (induction vs) (auto simp: filter_empty_conv)
  have "set (ids (getServices tg ss)) \<subseteq> set (ids ss)"
    by (auto simp: ids_def getServices_def)
  with Cons tags [of "svc_Tags s"] show ?case
    by (auto simp: services_ok_def ids_def getServices_def)
qed (simp add: ids_def getServices_def)

section \<open>Replacing a pool\<close>

text \<open>The pool replaced, as its services and clients.\<close>

definition old_services :: "tagged option \<Rightarrow> service list" where
  "old_services old = (case old of None \<Rightarrow> [] | Some t \<Rightarrow> services t)"

definition old_clients :: "tagged option \<Rightarrow> client_ref list" where
  "old_clients old = (case old of None \<Rightarrow> [] | Some t \<Rightarrow> clients t)"

lemma pools_disjoint:
  "sel_inv hs sel \<Longrightarrow> pools sel tg = Some t \<Longrightarrow> pools sel tg' = Some t' \<Longrightarrow> tg \<noteq> tg' \<Longrightarrow>
    set (clients t) \<inter> set (clients t') = {}"
  unfolding sel_inv_def by blast

lemma old_pool:
  assumes "sel_inv hs sel" "old = pools sel tg"
  shows "length (old_services old) = length (old_clients old)" "None \<notin> set (old_clients old)"
    "distinct (old_clients old)" "distinct (ids (old_services old))"
    "set (old_clients old) \<subseteq> Some ` {..<next_client sel}"
    "Some ` live sel = set (old_clients old) \<union> pool_clients ((pools sel)(tg := None))"
    "set (old_clients old) \<inter> pool_clients ((pools sel)(tg := None)) = {}"
proof -
  show live: "Some ` live sel = set (old_clients old) \<union> pool_clients ((pools sel)(tg := None))"
    using assms pool_clients_split [of "pools sel" tg]
    by (cases "pools sel tg") (simp_all add: sel_inv_def old_clients_def fun_upd_idem)
  have "live sel \<subseteq> {..<next_client sel}"
    using assms(1) by (simp add: sel_inv_def)
  then have "Some ` live sel \<subseteq> Some ` {..<next_client sel}"
    by (rule image_mono)
  with live show "set (old_clients old) \<subseteq> Some ` {..<next_client sel}"
    by blast
  show "set (old_clients old) \<inter> pool_clients ((pools sel)(tg := None)) = {}"
  proof (cases "pools sel tg")
    case (Some t)
    with assms show ?thesis
      using pools_disjoint [OF assms(1) Some]
      by (auto simp: old_clients_def pool_clients_def disjoint_iff split: if_splits)
  qed (use assms in \<open>simp add: old_clients_def\<close>)
qed (use assms in \<open>cases "pools sel tg"; force simp: sel_inv_def pool_ok_def old_services_def old_clients_def ids_def\<close>)+

lemma replaceTagged_eq:
  assumes inv: "sel_inv hs sel" and old: "old = pools sel tg"
    and spec: "sel_clients startc (old_services old) (old_clients old) ss sel = (r, cr, sel1)"
  shows "replaceTagged hs startc tg old ss ch sel =
    (case r of
       Ok cs \<Rightarrow>
         (case newTagged hs tg ss cs ch of
            Ok p \<Rightarrow> (Ok p, sel1\<lparr>pools := (pools sel1)(tg \<mapsto> p),
                       live := live sel1 - dropped (old_services old) (old_clients old) ss\<rparr>)
          | x \<Rightarrow> (x, sel1))
     | Err e \<Rightarrow> (Err e, sel1\<lparr>live := live sel1 - {n. Some n \<in> set cr}\<rparr>)
     | Panic p \<Rightarrow> (Panic p, sel1)
     | Blocked \<Rightarrow> (Blocked, sel1))"
proof -
  have args: "(case old of None \<Rightarrow> [] | Some t \<Rightarrow> Services t) = old_services old"
      "(case old of None \<Rightarrow> [] | Some t \<Rightarrow> All t) = old_clients old"
    by (simp_all add: old_services_def old_clients_def Services_def All_def split: option.splits)
  have drop: "dropped (old_services None) (old_clients None) ss = {}"
    by (simp add: old_services_def dropped_def)
  have len: "old = Some t \<Longrightarrow> drop_clients (Services t) (All t) ss s
      = (Ok (), s\<lparr>live := live s - dropped (old_services old) (old_clients old) ss\<rparr>)" for t s
    using drop_clients_eq [OF old_pool(1) [OF inv old]]
    by (simp add: old_services_def old_clients_def Services_def All_def)
  show ?thesis
    unfolding replaceTagged_def sel_newTagged_def Let_def args spec
    by (cases r; cases old) (auto simp: stop_all drop len split: res.splits)
qed

text \<open>
  A replacement keeps the accounting. On success the pool has the services asked for, every
  service that was there keeps its client, and the other pools are as they were; on failure
  no pool changes and no client is left running.
\<close>

definition replaced ::
    "string \<Rightarrow> service list \<Rightarrow> bool \<Rightarrow> 'w selector \<Rightarrow> tagged res \<Rightarrow> 'w selector \<Rightarrow> bool" where
  "replaced tg ss ch sel r sel' \<longleftrightarrow>
     discovered sel' = discovered sel \<and> onDiscovered sel' = onDiscovered sel \<and> sel_world sel' = sel_world sel
     \<and> sel_log sel' = sel_log sel \<and> sel_stopped sel' = sel_stopped sel
     \<and> (case r of
          Ok p \<Rightarrow> pools sel' = (pools sel)(tg \<mapsto> p) \<and> services p = ss \<and> HasCHash p = ch
            \<and> (\<forall>i<length ss. \<forall>t c. pools sel tg = Some t \<longrightarrow>
                  client_of (services t) (clients t) (svc_Id (ss ! i)) = Some c \<longrightarrow> clients p ! i = c)
        | Err e \<Rightarrow> pools sel' = pools sel \<and> live sel' = live sel
        | _ \<Rightarrow> False)"

lemma replaceTagged_ok:
  assumes inv: "sel_inv hs sel" and old: "old = pools sel tg" and ids: "distinct (ids ss)"
    and call: "replaceTagged hs startc tg old ss ch sel = (r, sel')"
  shows "sel_inv hs sel' \<and> replaced tg ss ch sel r sel'"
proof -
  let ?os = "old_services old" and ?oc = "old_clients old" and ?others = "pool_clients ((pools sel)(tg := None))"
  note o = old_pool [OF inv old]
  obtain x cr sel1 where run: "sel_clients startc ?os ?oc ss sel = (x, cr, sel1)"
    by (cases "sel_clients startc ?os ?oc ss sel")
  have spec: "clients_spec ?os ?oc ss sel x cr sel1"
    using sel_clients_spec [OF o(1-3,5) run] .
  note eq = replaceTagged_eq [OF inv old run, of ch, unfolded call]
  have frame: "same_but_clients sel sel1" "next_client sel \<le> next_client sel1"
      "set cr \<subseteq> fresh_refs (next_client sel) (next_client sel1)" "Some ` live sel1 = Some ` live sel \<union> set cr"
    using spec by (simp_all add: clients_spec_def)
  have low: "live sel \<subseteq> {..<next_client sel}"
    using inv by (simp add: sel_inv_def)
  then have below: "Some ` live sel \<subseteq> Some ` {..<next_client sel}"
    by (rule image_mono)
  have fresh: "set cr \<inter> Some ` live sel = {}"
    using frame(3) low by (fastforce simp: fresh_refs_def)
  have below1: "live sel1 \<subseteq> {..<next_client sel1}"
  proof -
    have "Some ` live sel1 \<subseteq> Some ` {..<next_client sel1}"
      using frame(2-4) below by (auto simp: fresh_refs_def)
    then show ?thesis
      by auto
  qed
  show ?thesis
  proof (cases x)
    case (Ok cs)
    have cs: "length ss = length cs" "set cs = reused ?os ?oc ss \<union> set cr" "distinct cs"
        "\<forall>i<length ss. \<forall>c. client_of ?os ?oc (svc_Id (ss ! i)) = Some c \<longrightarrow> cs ! i = c"
      using spec Ok ids by (simp_all add: clients_spec_def)
    obtain p where p: "newTagged hs tg ss cs ch = Ok p" "tag p = tg" "services p = ss" "clients p = cs" "HasCHash p = ch"
        "p\<lparr>index := 0\<rparr> = p"
      using cs(1) by (auto simp: newTagged_Ok HasCHash_def)
    have r: "r = Ok p" and sel': "sel' = sel1\<lparr>pools := (pools sel1)(tg \<mapsto> p), live := live sel1 - dropped ?os ?oc ss\<rparr>"
      using eq Ok p(1) by auto
    have pools: "pools sel' = (pools sel)(tg \<mapsto> p)"
      using sel' frame(1) by (simp add: same_but_clients_def)
    have sub: "reused ?os ?oc ss \<subseteq> set ?oc"
      by (rule reused_subset)
    have "Some ` live sel' = Some ` live sel1 - Some ` dropped ?os ?oc ss"
      using sel' by (simp add: image_set_diff)
    also have "\<dots> = set cs \<union> ?others"
      using frame(4) o(6,7) sub fresh cs(2) dropped_reused [OF o(1,4,3,2), of ss] by auto
    finally have live: "Some ` live sel' = pool_clients (pools sel')"
      unfolding pools pool_clients_upd p(4) by simp
    have none: "None \<notin> set cs"
      using cs(2) sub o(2) frame(3) by (auto simp: fresh_refs_def)
    have disj: "set cs \<inter> ?others = {}"
      using cs(2) sub o(6,7) fresh by blast
    have "pool_ok hs tg p"
      using p cs none ids by (simp add: pool_ok_def)
    then have each: "pool_ok hs tg' t" if "pools sel' tg' = Some t" for tg' t
      using inv that unfolding pools sel_inv_def by (simp split: if_splits)
    have other: "set (clients p) \<inter> set (clients t) = {}" if "pools sel tg' = Some t" "tg' \<noteq> tg" for tg' t
    proof -
      have "set (clients t) \<subseteq> ?others"
        using that by (auto simp: pool_clients_def)
      with disj p(4) show ?thesis
        by blast
    qed
    have apart: "set (clients t) \<inter> set (clients t') = {}"
      if t: "pools sel' tg1 = Some t" "pools sel' tg2 = Some t'" "tg1 \<noteq> tg2" for tg1 tg2 t t'
    proof (cases "tg1 = tg")
      case True
      with t other show ?thesis unfolding pools by simp
    next
      case tg1: False
      show ?thesis
      proof (cases "tg2 = tg")
        case True
        with t tg1 other [of tg1 t] show ?thesis unfolding pools by (simp add: inf_commute)
      next
        case False
        with t tg1 pools_disjoint [OF inv, of tg1 t tg2 t'] show ?thesis unfolding pools by simp
      qed
    qed
    have "live sel' \<subseteq> {..<next_client sel'}" "services_ok (discovered sel')"
      using below1 sel' frame(1) inv by (auto simp: same_but_clients_def sel_inv_def)
    then have "sel_inv hs sel'"
      unfolding sel_inv_def using each apart live by blast
    moreover have "replaced tg ss ch sel r sel'"
      using pools p r sel' frame(1) cs(4) old
      by (auto simp: replaced_def same_but_clients_def old_services_def old_clients_def)
    ultimately show ?thesis
      by simp
  next
    case (Err e)
    then have r: "r = Err e" and sel': "sel' = sel1\<lparr>live := live sel1 - {n. Some n \<in> set cr}\<rparr>"
      using eq by auto
    have "Some ` live sel' = Some ` live sel1 - set cr"
      using sel' frame(3) by (auto simp: fresh_refs_def)
    also have "\<dots> = Some ` live sel"
      using frame(4) fresh by blast
    finally have live: "live sel' = live sel"
      by (simp add: inj_image_eq_iff)
    moreover have "pools sel' = pools sel" "discovered sel' = discovered sel" "next_client sel \<le> next_client sel'"
      using sel' frame by (simp_all add: same_but_clients_def)
    ultimately have "sel_inv hs sel'"
      using inv by (fastforce simp: sel_inv_def)
    then show ?thesis
      using r sel' frame(1) live by (simp add: replaced_def same_but_clients_def)
  qed (use spec in \<open>simp_all add: clients_spec_def\<close>)
qed

section \<open>The operations keep the accounting\<close>

text \<open>Fields that do not matter for it.\<close>

lemma sel_inv_cong:
  "sel_inv hs s \<Longrightarrow> pools t = pools s \<Longrightarrow> live t = live s \<Longrightarrow> next_client t = next_client s \<Longrightarrow> services_ok (discovered t)
    \<Longrightarrow> sel_inv hs t"
  by (simp add: sel_inv_def)

lemma fill_ok:
  assumes inv: "sel_inv hs sel" and call: "fill hs startc tg ch sel = (r, sel')"
  shows "sel_inv hs sel' \<and> discovered sel' = discovered sel
    \<and> (case r of
         Ok p \<Rightarrow> (\<forall>tg'. tg' \<noteq> tg \<longrightarrow> pools sel' tg' = pools sel tg') \<and> pools sel' tg = Some p \<and> (ch \<longrightarrow> HasCHash p)
           \<and> (pools sel tg = Some p \<or> services p = getServices tg (discovered sel))
       | Err e \<Rightarrow> pools sel' = pools sel \<and> live sel' = live sel
       | _ \<Rightarrow> False)"
proof -
  have ids: "distinct (ids (getServices tg (discovered sel)))"
    using inv by (intro distinct_getServices) (simp add: sel_inv_def)
  consider (fast) p where "pools sel tg = Some p" "\<not> ch \<or> HasCHash p" "r = Ok p" "sel' = sel"
    | (slow) "replaceTagged hs startc tg (pools sel tg) (getServices tg (discovered sel)) ch sel = (r, sel')"
  proof (cases "pools sel tg")
    case None
    with call show ?thesis
      by (intro slow) (simp add: fill_def)
  next
    case (Some p)
    with call show ?thesis
      by (cases "\<not> ch \<or> HasCHash p") (simp_all add: fill_def fast slow)
  qed
  then show ?thesis
  proof cases
    case fast
    show ?thesis
      unfolding fast(3,4) using inv fast(1,2) by simp
  next
    case slow
    then have ok: "sel_inv hs sel'" "replaced tg (getServices tg (discovered sel)) ch sel r sel'"
      using replaceTagged_ok [OF inv refl ids] by blast+
    show ?thesis
    proof (cases r)
      case (Ok p)
      with ok(2) have "pools sel' = (pools sel)(tg \<mapsto> p)" "services p = getServices tg (discovered sel)"
          "HasCHash p = ch" "discovered sel' = discovered sel"
        by (simp_all add: replaced_def)
      with ok(1) Ok show ?thesis
        by simp
    qed (use ok in \<open>simp_all add: replaced_def\<close>)
  qed
qed

lemma snd_after_fill: "snd (after_fill (\<lambda>p. (f p, snd r)) r) = snd r"
  by (cases r; cases "fst r") (auto elim: after_fill.elims)

lemma sel_inv_index:
  assumes "sel_inv hs sel" "pools sel tg = Some p"
  shows "sel_inv hs (sel\<lparr>pools := (pools sel)(tg \<mapsto> p\<lparr>index := i\<rparr>)\<rparr>)"
proof -
  have "pool_ok hs tg p"
    using assms by (simp add: sel_inv_def)
  then have ok: "pool_ok hs tg (p\<lparr>index := i\<rparr>)"
    by (simp add: pool_ok_def HasCHash_def)
  have "pool_clients ((pools sel)(tg \<mapsto> p\<lparr>index := i\<rparr>)) = pool_clients (pools sel)"
    using pool_clients_split [of "pools sel" tg p] assms(2) by (simp add: pool_clients_upd)
  moreover have "set (clients t) \<inter> set (clients t') = {}"
    if "((pools sel)(tg \<mapsto> p\<lparr>index := i\<rparr>)) tg1 = Some t" "((pools sel)(tg \<mapsto> p\<lparr>index := i\<rparr>)) tg2 = Some t'" "tg1 \<noteq> tg2"
    for tg1 tg2 t t'
    using that assms(2) pools_disjoint [OF assms(1), of tg1 t tg2 t'] pools_disjoint [OF assms(1), of tg p tg2 t']
      pools_disjoint [OF assms(1), of tg1 t tg p] by (auto split: if_splits)
  moreover have "pool_ok hs tg' t" if "((pools sel)(tg \<mapsto> p\<lparr>index := i\<rparr>)) tg' = Some t" for tg' t
    using that ok assms(1) by (auto simp: sel_inv_def split: if_splits)
  ultimately show ?thesis
    using assms(1) unfolding sel_inv_def by simp
qed

lemma RoundRobin_ok:
  assumes inv: "sel_inv hs sel"
  shows "sel_inv hs (snd (sel_RoundRobin hs startc tg sel))"
proof (cases "fill hs startc tg False sel")
  case (Pair r sel')
  note ok = fill_ok [OF inv Pair]
  show ?thesis
  proof (cases r)
    case (Ok p)
    with ok have "sel_inv hs sel'" "pools sel' tg = Some p"
      by simp_all
    then show ?thesis
      using sel_inv_index [of hs sel' tg p] Pair Ok by (simp add: sel_RoundRobin_def Let_def RoundRobin_def)
  qed (use ok Pair in \<open>simp_all add: sel_RoundRobin_def\<close>)
qed

lemma sameServices_ids: "sameServices a b \<longleftrightarrow> ids a = ids b"
  by (induction a b rule: sameServices.induct) (auto simp: ids_def)

text \<open>The pools of the map, each under its tag.\<close>

definition found_pools :: "'w selector \<Rightarrow> tagged list \<Rightarrow> bool" where
  "found_pools sel ps \<longleftrightarrow> distinct (List.map Tag ps) \<and> (\<forall>p\<in>set ps. pools sel (Tag p) = Some p)"

lemma found_pools_next:
  "found_pools sel (p # ps) \<Longrightarrow> pools sel' = (pools sel)(Tag p \<mapsto> q) \<or> pools sel' = pools sel \<Longrightarrow> found_pools sel' ps"
  unfolding found_pools_def by (auto simp: image_iff)

lemma refresh_ok:
  "sel_inv hs sel \<Longrightarrow> services_ok disc \<Longrightarrow> found_pools sel ps \<Longrightarrow> refresh hs startc ps disc sel = (r, sel') \<Longrightarrow>
    sel_inv hs sel' \<and> r = Ok () \<and> discovered sel' = discovered sel \<and> dom (pools sel') = dom (pools sel)"
proof (induction ps arbitrary: sel)
  case (Cons p ps)
  let ?ss = "getServices (Tag p) disc"
  have p: "pools sel (Tag p) = Some p"
    using Cons.prems(3) by (simp add: found_pools_def)
  show ?case
  proof (cases "sameServices (Services p) ?ss")
    case True
    have "found_pools sel ps"
      using Cons.prems(3) by (simp add: found_pools_def)
    with True Cons show ?thesis
      by (simp add: Let_def)
  next
    case False
    obtain x sel1 where x: "replaceTagged hs startc (Tag p) (Some p) ?ss (HasCHash p) sel = (x, sel1)"
      by (cases "replaceTagged hs startc (Tag p) (Some p) ?ss (HasCHash p) sel")
    have ok: "sel_inv hs sel1" "replaced (Tag p) ?ss (HasCHash p) sel x sel1"
      using replaceTagged_ok [OF Cons.prems(1) p [symmetric] distinct_getServices [OF Cons.prems(2)] x] by simp_all
    show ?thesis
    proof (cases x)
      case (Ok q)
      with ok have "found_pools sel1 ps"
        by (intro found_pools_next [OF Cons.prems(3), of _ q]) (simp add: replaced_def)
      moreover have "refresh hs startc ps disc sel1 = (r, sel')"
        using Cons.prems(4) Ok x False by (simp add: Let_def)
      ultimately have "sel_inv hs sel' \<and> r = Ok () \<and> discovered sel' = discovered sel1 \<and> dom (pools sel') = dom (pools sel1)"
        using Cons.IH [OF ok(1) Cons.prems(2)] by blast
      moreover have "pools sel1 = (pools sel)(Tag p \<mapsto> q)" "discovered sel1 = discovered sel"
        using ok(2) Ok by (simp_all add: replaced_def)
      ultimately show ?thesis
        using p by (simp add: domI insert_absorb)
    next
      case (Err e)
      let ?s = "sel1\<lparr>sel_log := sel_log sel1 @ [e]\<rparr>"
      from Err ok have "found_pools ?s ps"
        by (intro found_pools_next [OF Cons.prems(3), of _ p]) (simp add: replaced_def)
      moreover have "sel_inv hs ?s"
        using ok(1) by (simp add: sel_inv_def)
      ultimately show ?thesis
        using Err x False ok(2) Cons.prems(2,4) Cons.IH [of ?s] by (simp add: Let_def replaced_def)
    qed (use ok(2) in \<open>simp_all add: replaced_def\<close>)
  qed
qed simp

lemma services_ok_sort: "services_ok ss \<Longrightarrow> services_ok (sort_key svc_Id ss)"
  by (simp add: services_ok_def ids_def distinct_map)

lemma found_pools_map:
  assumes "sel_inv hs sel" "distinct ord" "set ord = dom (pools sel)"
  shows "found_pools sel (List.map_filter (pools sel) ord)"
proof -
  have "Tag t = tg" if "pools sel tg = Some t" for tg t
    using assms(1) that by (auto simp: sel_inv_def pool_ok_def Tag_def)
  then have "List.map Tag (List.map_filter (pools sel) ks) = ks" if "set ks \<subseteq> dom (pools sel)" for ks
    using that by (induction ks) (auto simp: map_filter_simps)
  with assms show ?thesis
    using \<open>\<And>tg t. pools sel tg = Some t \<Longrightarrow> Tag t = tg\<close>
    by (auto simp: found_pools_def map_filter_def)
qed

lemma pull_ok:
  assumes inv: "sel_inv hs sel" and ord: "distinct ord" "set ord = dom (pools sel)"
    and reg: "\<And>ss. reg = Inr ss \<Longrightarrow> services_ok ss" and call: "pull hs startc ord reg sel = (r, sel')"
  shows "sel_inv hs sel' \<and> (case reg of Inl e \<Rightarrow> r = Err e \<and> sel' = sel
    | Inr ss \<Rightarrow> r = Ok () \<and> dom (pools sel') = dom (pools sel) \<and> ids (discovered sel') = ids (sort_key svc_Id ss))"
proof (cases reg)
  case (Inl e)
  with call inv show ?thesis
    by (simp add: pull_def)
next
  case (Inr ss)
  let ?disc = "sort_key svc_Id ss"
  have ok: "services_ok ?disc"
    using reg [OF Inr] by (rule services_ok_sort)
  show ?thesis
  proof (cases "sameServices (discovered sel) ?disc")
    case True
    with call inv Inr show ?thesis
      by (simp add: pull_def sameServices_ids)
  next
    case False
    let ?sel1 = "sel\<lparr>discovered := ?disc, sel_world := foldl (\<lambda>w f. f ?disc w) (sel_world sel) (onDiscovered sel)\<rparr>"
    have inv1: "sel_inv hs ?sel1"
      using ok by (intro sel_inv_cong [OF inv]) simp_all
    have "found_pools ?sel1 (List.map_filter (pools ?sel1) ord)"
      using ord by (intro found_pools_map [OF inv1]) simp_all
    moreover have "refresh hs startc (List.map_filter (pools ?sel1) ord) ?disc ?sel1 = (r, sel')"
      using call Inr False by (simp add: pull_def Let_def)
    ultimately show ?thesis
      using refresh_ok [OF inv1 ok] Inr by fastforce
  qed
qed

lemma sel_Stop_ok:
  assumes inv: "sel_inv hs sel" and ord: "set ord = dom (pools sel)" and "\<not> sel_stopped sel"
  shows "fst (sel_Stop ord sel) = Ok () \<and> live (snd (sel_Stop ord sel)) = {}
    \<and> pools (snd (sel_Stop ord sel)) = Map.empty \<and> sel_inv hs (snd (sel_Stop ord sel))"
proof -
  have "pool_clients (pools sel) = set (concat (List.map All (List.map_filter (pools sel) ord)))"
    using ord by (force simp: pool_clients_def map_filter_def All_def)
  moreover have "Some ` live sel = pool_clients (pools sel)"
    using inv by (simp add: sel_inv_def)
  ultimately have none: "live sel - {n. Some n \<in> set (concat (List.map All (List.map_filter (pools sel) ord)))} = {}"
    by blast
  have "services_ok (discovered sel)"
    using inv by (simp add: sel_inv_def)
  then show ?thesis
    unfolding sel_Stop_def stop_all none using assms(3) by (simp add: sel_inv_def pool_clients_def)
qed

end
