(* ===== verification/Selector_Props.thy ===== *)
theory Selector_Props
  imports Selector_Inv
begin

text \<open>
  The selector as a machine of its operations, and its properties: the accounting of clients in
  every reachable state, what a replacement keeps, how stable the choice by hash is, and where
  the code lets a pool go stale or loses a client.
\<close>

section \<open>The machine\<close>

text \<open>
  A tick gets an answer of the registry with distinct ids and without repeated tags, or an
  error, and ranges over the map in any order.
\<close>

inductive sel_step :: "(string \<Rightarrow> u64) \<Rightarrow> 'w selector \<Rightarrow> 'w selector \<Rightarrow> bool" for hs where
  s_random: "sel_step hs sel (snd (sel_Random hs startc rnd tg sel))"
| s_hashed: "sel_step hs sel (snd (sel_Hashed hs hu startc tg key sel))"
| s_round_robin: "sel_step hs sel (snd (sel_RoundRobin hs startc tg sel))"
| s_all: "sel_step hs sel (snd (sel_All hs startc tg sel))"
| s_tick: "distinct ord \<Longrightarrow> set ord = dom (pools sel) \<Longrightarrow> services_ok ss \<Longrightarrow>
    sel_step hs sel (snd (tick hs startc ord (Inr ss) sel))"
| s_tick_error: "sel_step hs sel (snd (tick hs startc ord (Inl e) sel))"
| s_observe: "sel_step hs sel (OnDiscovered f sel)"
| s_stop: "set ord = dom (pools sel) \<Longrightarrow> sel_step hs sel (snd (sel_Stop ord sel))"

definition sel_start :: "(string \<Rightarrow> u64) \<Rightarrow> 'w selector \<Rightarrow> bool" where
  "sel_start hs sel \<longleftrightarrow> (\<exists>startc ss w. services_ok ss \<and> NewSelector hs startc (Inr ss) w = Ok sel)"

lemma sel_start_inv: "sel_start hs sel \<Longrightarrow> sel_inv hs sel"
proof -
  assume "sel_start hs sel"
  then obtain startc ss w where "services_ok ss" "NewSelector hs startc (Inr ss) w = Ok sel"
    by (auto simp: sel_start_def)
  then obtain r where "pull hs startc [] (Inr ss) (new_selector w) = (r, sel)" "services_ok ss"
    by (auto simp: NewSelector_def split: prod.splits res.splits)
  then show ?thesis
    using pull_ok [OF new_selector_inv, of "[]" w "Inr ss" hs startc r sel]
    by (auto simp: new_selector_def)
qed

lemma fill_keeps: "sel_inv hs sel \<Longrightarrow> sel_inv hs (snd (fill hs startc tg ch sel))"
  using fill_ok [of hs sel startc tg ch "fst (fill hs startc tg ch sel)" "snd (fill hs startc tg ch sel)"] by simp

lemma tick_keeps:
  assumes "sel_inv hs sel" "distinct ord" "set ord = dom (pools sel)" "services_ok ss"
  shows "sel_inv hs (snd (tick hs startc ord (Inr ss) sel))"
proof -
  obtain r sel' where p: "pull hs startc ord (Inr ss) sel = (r, sel')"
    by (cases "pull hs startc ord (Inr ss) sel")
  then have "sel_inv hs sel'" "r = Ok ()"
    using pull_ok [OF assms(1-3), of "Inr ss" startc r sel'] assms(4) by simp_all
  with p show ?thesis
    by (simp add: tick_def)
qed

lemma sel_step_inv:
  assumes inv: "sel_inv hs sel" and step: "sel_step hs sel sel'"
  shows "sel_inv hs sel'"
  using step
proof cases
  case (s_random startc rnd tg)
  with fill_keeps [OF inv] show ?thesis
    by (simp add: sel_Random_def Let_def snd_after_fill)
next
  case (s_hashed hu startc tg key)
  with fill_keeps [OF inv] show ?thesis
    by (simp add: sel_Hashed_def Let_def snd_after_fill)
next
  case (s_round_robin startc tg)
  with RoundRobin_ok [OF inv] show ?thesis
    by simp
next
  case (s_all startc tg)
  with fill_keeps [OF inv] show ?thesis
    by (simp add: sel_All_def Let_def snd_after_fill)
next
  case (s_tick ord ss startc)
  with tick_keeps [OF inv] show ?thesis
    by simp
next
  case (s_tick_error startc ord e)
  with inv show ?thesis
    by (simp add: tick_def pull_def sel_inv_def)
next
  case (s_observe f)
  with inv show ?thesis
    by (simp add: OnDiscovered_def sel_inv_def)
next
  case (s_stop ord)
  with inv sel_Stop_ok [OF inv, of ord] show ?thesis
    by (cases "sel_stopped sel") (simp_all add: sel_Stop_def)
qed

interpretation selector: machine_invariant "sel_start hs" "sel_step hs" "sel_inv hs"
  by unfold_locales (fact sel_start_inv, fact sel_step_inv)

section \<open>Stability of the choice by hash\<close>

lemma filter_sorted_common:
  fixes xs ys :: "'a :: linorder list"
  assumes "sorted xs" "distinct xs" "sorted ys" "distinct ys"
  shows "filter (\<lambda>x. x \<in> set ys) xs = filter (\<lambda>x. x \<in> set xs) ys"
proof (rule sorted_distinct_set_unique)
  show "sorted (filter (\<lambda>x. x \<in> set ys) xs)" "sorted (filter (\<lambda>x. x \<in> set xs) ys)"
    using assms by (simp_all add: sorted_filter [where f = id, simplified])
qed (use assms in auto)

lemma Hashed_index: "Hashed hu (t\<lparr>index := i\<rparr>) key = Hashed hu t key"
  by (simp add: Hashed_def split: option.splits res.splits)

lemma Hashed_pool:
  assumes "pool_ok hs tg t" "HasCHash t" "services t \<noteq> []"
  shows "\<exists>i<length (services t). Hashed hu t key = Ok (clients t ! i)
    \<and> GetUint64 hu (New hs 200 (ids (services t))) key = Ok (ids (services t) ! i)"
proof -
  have "newTagged hs tg (services t) (clients t) True = Ok (t\<lparr>index := 0\<rparr>)" "length (services t) = length (clients t)"
    using assms by (simp_all add: pool_ok_def)
  from Hashed_member [OF this assms(3), of hu key] show ?thesis
    by (auto simp: ids_def Hashed_index)
qed

lemma stable_choice:
  assumes inv: "sel_inv hs sel" and t: "pools sel tg = Some t" "HasCHash t" "services t \<noteq> []"
    and call: "replaceTagged hs startc tg (Some t) ss True sel = (Ok p, sel')"
    and ids: "distinct (ids ss)" "sorted (ids ss)" "sorted (ids (services t))" "ss \<noteq> []"
    and i: "i < length (services t)" "Hashed hu t key = Ok (clients t ! i)" "svc_Id (services t ! i) \<in> set (ids ss)"
  shows "Hashed hu p key = Hashed hu t key
    \<or> (\<exists>j<length ss. svc_Id (ss ! j) \<notin> set (ids (services t)) \<and> Hashed hu p key = Ok (clients p ! j))"
proof -
  have ok: "pool_ok hs tg t"
    using inv t(1) by (simp add: sel_inv_def)
  then have d: "distinct (ids (services t))" "distinct (clients t)" "length (services t) = length (clients t)"
    by (simp_all add: pool_ok_def)
  have rep: "sel_inv hs sel'" "replaced tg ss True sel (Ok p) sel'"
    using replaceTagged_ok [OF inv t(1) [symmetric] ids(1) call] by simp_all
  then have p: "pool_ok hs tg p" "services p = ss" "HasCHash p"
      "\<And>j c. j < length ss \<Longrightarrow> client_of (services t) (clients t) (svc_Id (ss ! j)) = Some c \<Longrightarrow> clients p ! j = c"
    using t(1) by (auto simp: replaced_def sel_inv_def)
  obtain k where k: "k < length (services t)" "Hashed hu t key = Ok (clients t ! k)"
      "GetUint64 hu (New hs 200 (ids (services t))) key = Ok (ids (services t) ! k)"
    using Hashed_pool [OF ok t(2,3)] by blast
  with i d have "k = i"
    by (simp add: nth_eq_iff_index_eq)
  with k i have old: "GetUint64 hu (New hs 200 (ids (services t))) key = Ok (ids (services t) ! i)"
      "ids (services t) ! i \<in> set (ids ss)"
    by (simp_all add: ids_def)
  obtain j where j: "j < length ss" "Hashed hu p key = Ok (clients p ! j)"
      "GetUint64 hu (New hs 200 (ids ss)) key = Ok (ids ss ! j)"
    using Hashed_pool [OF p(1,3)] p(2) ids(4) by auto
  from fnv_ring.replace_ring [OF filter_sorted_common [OF ids(3) d(1) ids(2,1)] old]
  have "ids ss ! j = ids (services t) ! i \<or> ids ss ! j \<notin> set (ids (services t))"
    using j(3) by auto
  then show ?thesis
  proof
    assume same: "ids ss ! j = ids (services t) ! i"
    have "client_of (services t) (clients t) (ids (services t) ! i) = Some (clients t ! i)"
      using i(1) d unfolding client_of_def by (intro map_of_eq_Some_iff [THEN iffD2]) (auto simp: ids_def in_set_zip intro!: exI [of _ i])
    with same j(1) p(4) [OF j(1)] have "clients p ! j = clients t ! i"
      by (simp add: ids_def)
    with j(2) i(2) show ?thesis
      by simp
  next
    assume "ids ss ! j \<notin> set (ids (services t))"
    with j show ?thesis
      by (auto simp: ids_def)
  qed
qed

section \<open>A pull without failures\<close>

text \<open>A client starts at the address of each of the services.\<close>

definition starts :: "start_fn \<Rightarrow> service list \<Rightarrow> bool" where
  "starts startc ss \<longleftrightarrow> (\<forall>s\<in>set ss. \<forall>n. startc (JoinHostPort (svc_Address s) (itoa (svc_Port s))) n = None)"

lemma starts_simps [simp]:
  "starts startc []"
  "starts startc (s # ss) \<longleftrightarrow> (\<forall>n. startc (JoinHostPort (svc_Address s) (itoa (svc_Port s))) n = None) \<and> starts startc ss"
  by (simp_all add: starts_def)

lemma starts_getServices: "starts startc ss \<Longrightarrow> starts startc (getServices tg ss)"
  by (auto simp: starts_def getServices_def)

lemma sel_clients_no_error:
  assumes "length os = length ocs"
  shows "starts startc ss \<Longrightarrow> fst (sel_clients startc os ocs ss sel) \<noteq> Err e"
proof (induction ss arbitrary: sel)
  case (Cons s ss)
  obtain x cr sel1 where rec: "sel_clients startc os ocs ss sel = (x, cr, sel1)"
    by (cases "sel_clients startc os ocs ss sel")
  show ?case
  proof (cases "client_of os ocs (svc_Id s)")
    case None
    then have re: "reuse os ocs s = Ok None"
      by (simp add: reuse_eq [OF assms])
    obtain c sel2 where c: "sel_connect startc s sel = (Inr c, sel2)"
      using Cons.prems by (simp add: sel_connect_def Let_def)
    obtain y cr' sel3 where "sel_clients startc os ocs ss sel2 = (y, cr', sel3)"
      by (cases "sel_clients startc os ocs ss sel2")
    with re c Cons.IH [of sel2] Cons.prems show ?thesis
      by (cases y) simp_all
  next
    case (Some c)
    then have re: "reuse os ocs s = Ok c"
      by (simp add: reuse_eq [OF assms])
    show ?thesis
    proof (cases c)
      case (Some n)
      with re rec Cons.IH [of sel] Cons.prems show ?thesis
        by (cases x) simp_all
    next
      case None
      obtain d sel2 where d: "sel_connect startc s sel = (Inr d, sel2)"
        using Cons.prems by (simp add: sel_connect_def Let_def)
      obtain y cr' sel3 where "sel_clients startc os ocs ss sel2 = (y, cr', sel3)"
        by (cases "sel_clients startc os ocs ss sel2")
      with re None d Cons.IH [of sel2] Cons.prems show ?thesis
        by (cases y) simp_all
    qed
  qed
qed simp

lemma replaceTagged_no_error:
  assumes "sel_inv hs sel" "old = pools sel tg" "distinct (ids ss)" "starts startc ss"
    and "replaceTagged hs startc tg old ss ch sel = (r, sel')"
  obtains p where "r = Ok p"
proof -
  obtain x cr sel1 where run: "sel_clients startc (old_services old) (old_clients old) ss sel = (x, cr, sel1)"
    by (cases "sel_clients startc (old_services old) (old_clients old) ss sel")
  have "replaced tg ss ch sel r sel'"
    using replaceTagged_ok [OF assms(1-3,5)] by simp
  moreover have "fst (sel_clients startc (old_services old) (old_clients old) ss sel) \<noteq> Err e" for e
    by (rule sel_clients_no_error [OF old_pool(1) [OF assms(1,2)] assms(4)])
  then have "x \<noteq> Err e" for e
    using run by simp
  then have "r \<noteq> Err e" for e
    using replaceTagged_eq [OF assms(1,2) run, of ch] assms(5)
    by (cases x; cases "newTagged hs tg ss (case x of Ok cs \<Rightarrow> cs | _ \<Rightarrow> []) ch")
      (auto simp: newTagged_def Let_def split: if_splits)
  ultimately show ?thesis
    using that by (cases r) (auto simp: replaced_def)
qed

lemma refresh_current:
  assumes "starts startc disc"
  shows "sel_inv hs sel \<Longrightarrow> services_ok disc \<Longrightarrow> found_pools sel ps \<Longrightarrow> refresh hs startc ps disc sel = (r, sel') \<Longrightarrow>
    pools sel' tg = Some t \<Longrightarrow>
    (if tg \<in> Tag ` set ps then ids (services t) = ids (getServices tg disc) else pools sel tg = Some t)"
proof (induction ps arbitrary: sel)
  case (Cons p ps)
  let ?ss = "getServices (Tag p) disc"
  have p: "pools sel (Tag p) = Some p" and notin: "Tag p \<notin> Tag ` set ps"
    using Cons.prems(3) by (auto simp: found_pools_def)
  show ?case
  proof (cases "sameServices (Services p) ?ss")
    case True
    have "found_pools sel ps"
      using Cons.prems(3) by (simp add: found_pools_def)
    moreover have "refresh hs startc ps disc sel = (r, sel')"
      using Cons.prems(4) True by (simp add: Let_def)
    ultimately have "if tg \<in> Tag ` set ps then ids (services t) = ids (getServices tg disc) else pools sel tg = Some t"
      using Cons.IH [OF Cons.prems(1,2)] Cons.prems(5) by blast
    with True p notin show ?thesis
      by (auto simp: sameServices_ids Services_def split: if_splits)
  next
    case False
    obtain x sel1 where x: "replaceTagged hs startc (Tag p) (Some p) ?ss (HasCHash p) sel = (x, sel1)"
      by (cases "replaceTagged hs startc (Tag p) (Some p) ?ss (HasCHash p) sel")
    have d: "distinct (ids ?ss)"
      using Cons.prems(2) by (rule distinct_getServices)
    obtain q where q: "x = Ok q"
      using replaceTagged_no_error [OF Cons.prems(1) p [symmetric] d starts_getServices [OF assms] x] .
    have ok: "sel_inv hs sel1" "replaced (Tag p) ?ss (HasCHash p) sel (Ok q) sel1"
      using replaceTagged_ok [OF Cons.prems(1) p [symmetric] d x] q by simp_all
    then have pools: "pools sel1 = (pools sel)(Tag p \<mapsto> q)" and sv: "services q = ?ss"
      by (simp_all add: replaced_def)
    have "found_pools sel1 ps"
      using pools by (intro found_pools_next [OF Cons.prems(3), of _ q]) simp
    moreover have "refresh hs startc ps disc sel1 = (r, sel')"
      using Cons.prems(4) q x False by (simp add: Let_def)
    ultimately have "if tg \<in> Tag ` set ps then ids (services t) = ids (getServices tg disc) else pools sel1 tg = Some t"
      using Cons.IH [OF ok(1) Cons.prems(2)] Cons.prems(5) by blast
    with pools sv notin show ?thesis
      by (auto split: if_splits)
  qed
qed simp

lemma pull_current:
  assumes inv: "sel_inv hs sel" and ord: "distinct ord" "set ord = dom (pools sel)" and ok: "services_ok ss"
    and start: "starts startc ss" and changed: "ids (discovered sel) \<noteq> ids (sort_key svc_Id ss)"
    and call: "pull hs startc ord (Inr ss) sel = (r, sel')" and t: "pools sel' tg = Some t"
  shows "ids (services t) = ids (getServices tg (sort_key svc_Id ss))"
proof -
  let ?disc = "sort_key svc_Id ss"
  let ?sel1 = "sel\<lparr>discovered := ?disc, sel_world := foldl (\<lambda>w f. f ?disc w) (sel_world sel) (onDiscovered sel)\<rparr>"
  have dok: "services_ok ?disc"
    using ok by (rule services_ok_sort)
  have inv1: "sel_inv hs ?sel1"
    using dok by (intro sel_inv_cong [OF inv]) simp_all
  have found: "found_pools ?sel1 (List.map_filter (pools ?sel1) ord)"
    using ord by (intro found_pools_map [OF inv1]) simp_all
  have run: "refresh hs startc (List.map_filter (pools ?sel1) ord) ?disc ?sel1 = (r, sel')"
    using call changed by (simp add: pull_def Let_def sameServices_ids)
  have "dom (pools sel') = dom (pools sel)"
    using refresh_ok [OF inv1 dok found run] by simp
  then have "tg \<in> set ord"
    using t ord(2) by blast
  moreover have "Tag p = tg" if "pools sel tg = Some p" for p
    using inv that by (auto simp: sel_inv_def pool_ok_def Tag_def)
  ultimately have "tg \<in> Tag ` set (List.map_filter (pools ?sel1) ord)"
    using ord(2) by (force simp: map_filter_def)
  moreover have "starts startc ?disc"
    using start by (simp add: starts_def)
  ultimately show ?thesis
    using refresh_current [OF _ inv1 dok found run t] by simp
qed

section \<open>A selector\<close>

definition service_b :: service where
  "service_b = service_a\<lparr>svc_Id := ''b'', svc_Port := 81\<rparr>"

definition always :: start_fn where
  "always a n = None"

definition sel0 :: "unit selector" where
  "sel0 = (new_selector ())\<lparr>discovered := [service_a]\<rparr>"

definition sel1 :: "unit selector" where
  "sel1 = sel0\<lparr>next_client := 1, live := {0}, pools := [''t'' \<mapsto> pool_a\<lparr>clients := [Some 0], idc := [''a'' \<mapsto> Some 0]\<rparr>]\<rparr>"

lemma services_a_ok: "services_ok [service_a]" "services_ok [service_a, service_b]"
  by (simp_all add: services_ok_def ids_def service_a_def service_b_def)

lemma sel0_start: "sel_start hs sel0"
proof -
  have "NewSelector hs always (Inr [service_a]) () = Ok sel0"
    by (simp add: NewSelector_def pull_def new_selector_def sel0_def map_filter_simps Let_def)
  then show ?thesis
    using services_a_ok(1) unfolding sel_start_def by blast
qed

lemma sel0_reaches: "reaches (sel_start hs) (sel_step hs) sel0"
  using sel0_start by (rule reaches_init)

lemma fill_sel0: "fill (\<lambda>_. 0) always ''t'' True sel0 = (Ok (pool_a\<lparr>clients := [Some 0], idc := [''a'' \<mapsto> Some 0]\<rparr>), sel1)"
  by (simp add: fill_def replaceTagged_def sel_newTagged_def sel0_def sel1_def new_selector_def getServices_def
      service_a_def sel_connect_def always_def newTagged_def pool_a_def tagged_replicas_def Let_def)

lemma sel1_reaches: "reaches (sel_start (\<lambda>_. 0)) (sel_step (\<lambda>_. 0)) sel1"
proof (rule reaches_step [OF sel0_reaches])
  have "snd (sel_Hashed (\<lambda>_. 0) id always ''t'' 5 sel0) = sel1"
    by (simp add: sel_Hashed_def Let_def fill_sel0)
  then show "sel_step (\<lambda>_. 0) sel0 sel1"
    using s_hashed [of "\<lambda>_. 0" sel0 id always "''t''" 5] by simp
qed

definition pool_0 :: tagged where
  "pool_0 = pool_a\<lparr>clients := [Some 0], idc := [''a'' \<mapsto> Some 0]\<rparr>"

definition pool_01 :: tagged where
  "pool_01 = \<lparr>tag = ''t'', index = 0, services = [service_a, service_b], clients = [Some 0, Some 1],
     hash = Some (New (\<lambda>_. 0) 200 [''a'', ''b'']), idc = [''a'' \<mapsto> Some 0, ''b'' \<mapsto> Some 1]\<rparr>"

definition sel2 :: "unit selector" where
  "sel2 = sel1\<lparr>next_client := 2, live := {0, 1}, pools := [''t'' \<mapsto> pool_01]\<rparr>"

lemma sel1_pool: "pools sel1 ''t'' = Some pool_0" "dom (pools sel1) = {''t''}"
  by (simp_all add: sel1_def pool_0_def)

lemma sel1_replace: "replaceTagged (\<lambda>_. 0) always ''t'' (Some pool_0) [service_a, service_b] True sel1 = (Ok pool_01, sel2)"
  by (simp add: replaceTagged_def sel_newTagged_def sel1_def sel2_def sel0_def new_selector_def pool_0_def pool_01_def pool_a_def
      service_a_def service_b_def sel_connect_def always_def newTagged_def tagged_replicas_def Let_def
      Services_def All_def insert_commute)

section \<open>Properties\<close>



text \<open>C23: Replacing a pool either succeeds, and then every service that was there keeps its client
  and the other pools are untouched, or fails, and then no pool has changed and the clients that
  run are the same as before: those created on the way are stopped.\<close>

theorem selector_replacement:
  assumes "reaches (sel_start hs) (sel_step hs) sel" "distinct (ids ss)"
    and "replaceTagged hs startc tg (pools sel tg) ss ch sel = (r, sel')"
  shows "(\<exists>e. r = Err e \<and> pools sel' = pools sel \<and> live sel' = live sel)
    \<or> (\<exists>p. r = Ok p \<and> pools sel' = (pools sel)(tg \<mapsto> p) \<and> services p = ss \<and> HasCHash p = ch
        \<and> (\<forall>i<length ss. \<forall>t c. pools sel tg = Some t \<longrightarrow>
              client_of (services t) (clients t) (svc_Id (ss ! i)) = Some c \<longrightarrow> clients p ! i = c))"
proof -
  have "replaced tg ss ch sel r sel'"
    using replaceTagged_ok [OF selector.reaches_inv [OF assms(1)] refl assms(2,3)] by simp
  then show ?thesis
    by (cases r) (simp_all add: replaced_def)
qed

lemma selector_replacement_witness:
  "(\<exists>e. Ok pool_01 = Err e \<and> pools sel2 = pools sel1 \<and> live sel2 = live sel1)
    \<or> (\<exists>p. Ok pool_01 = Ok p \<and> pools sel2 = (pools sel1)(''t'' \<mapsto> p) \<and> services p = [service_a, service_b] \<and> HasCHash p = True
        \<and> (\<forall>i<length [service_a, service_b]. \<forall>t c. pools sel1 ''t'' = Some t \<longrightarrow>
              client_of (services t) (clients t) (svc_Id ([service_a, service_b] ! i)) = Some c \<longrightarrow> clients p ! i = c))"
proof (rule selector_replacement [OF sel1_reaches])
  show "distinct (ids [service_a, service_b])"
    using services_a_ok(2) by (simp add: services_ok_def)
  show "replaceTagged (\<lambda>_. 0) always ''t'' (pools sel1 ''t'') [service_a, service_b] True sel1 = (Ok pool_01, sel2)"
    by (simp add: sel1_pool sel1_replace)
qed

text \<open>C18: A call hashed to a service that a change of the services keeps either goes to the same
  client afterwards or to a service that is new: the change does not move keys between the
  services that stay.\<close>

theorem selector_hash_stable:
  assumes "reaches (sel_start hs) (sel_step hs) sel" "pools sel tg = Some t" "HasCHash t" "services t \<noteq> []"
    and "replaceTagged hs startc tg (Some t) ss True sel = (Ok p, sel')"
    and "distinct (ids ss)" "sorted (ids ss)" "sorted (ids (services t))" "ss \<noteq> []"
    and "i < length (services t)" "Hashed hu t key = Ok (clients t ! i)" "svc_Id (services t ! i) \<in> set (ids ss)"
  shows "Hashed hu p key = Hashed hu t key
    \<or> (\<exists>j<length ss. svc_Id (ss ! j) \<notin> set (ids (services t)) \<and> Hashed hu p key = Ok (clients p ! j))"
  using assms(2-) by (rule stable_choice [OF selector.reaches_inv [OF assms(1)]])

lemma selector_hash_stable_witness:
  "Hashed id pool_01 5 = Hashed id pool_0 5
    \<or> (\<exists>j<length [service_a, service_b]. svc_Id ([service_a, service_b] ! j) \<notin> set (ids (services pool_0))
        \<and> Hashed id pool_01 5 = Ok (clients pool_01 ! j))"
proof (rule selector_hash_stable [OF sel1_reaches sel1_pool(1) _ _ sel1_replace, of 0])
  have "pool_ok (\<lambda>_. 0) ''t'' pool_0"
    using selector.reaches_inv [OF sel1_reaches] sel1_pool(1) by (simp add: sel_inv_def)
  moreover show "HasCHash pool_0" "services pool_0 \<noteq> []"
    by (simp_all add: pool_0_def pool_a_def HasCHash_def)
  ultimately show "Hashed id pool_0 5 = Ok (clients pool_0 ! 0)"
    using Hashed_pool [of "\<lambda>_. 0" "''t''" pool_0 id 5] by (auto simp: pool_0_def pool_a_def)
qed (simp_all add: ids_def service_a_def service_b_def pool_0_def pool_a_def)

text \<open>Stopping stops every client that runs and empties the pools; a second Stop closes a
  closed channel and panics.\<close>

lemma selector_stop:
  assumes "reaches (sel_start hs) (sel_step hs) sel" "set ord = dom (pools sel)" "\<not> sel_stopped sel"
    and "sel_Stop ord sel = (r, sel')"
  shows "r = Ok () \<and> live sel' = {} \<and> pools sel' = Map.empty
    \<and> sel_Stop ord' sel' = (Panic ''close of closed channel'', sel')"
proof -
  have "sel_stopped sel'"
    using assms(3,4) by (auto simp: sel_Stop_def)
  then show ?thesis
    using sel_Stop_ok [OF selector.reaches_inv [OF assms(1)] assms(2,3)] assms(4) by (simp add: sel_Stop_def)
qed

lemma selector_stop_witness:
  "live (snd (sel_Stop [''t''] sel1)) = {} \<and> live sel1 = {0}"
  using selector_stop [OF sel1_reaches, of "[''t'']" "fst (sel_Stop [''t''] sel1)" "snd (sel_Stop [''t''] sel1)"]
  by (simp add: sel1_pool(2)) (simp add: sel1_def sel0_def new_selector_def)

text \<open>A pull brings every pool up to date with the registry: if the answer has other services
  than the last one and a client starts at each of its addresses, the services of each pool are
  afterwards those that carry its tag, in the order of their ids.\<close>

lemma pull_refreshes:
  assumes "reaches (sel_start hs) (sel_step hs) sel" "distinct ord" "set ord = dom (pools sel)" "services_ok ss"
    and "starts startc ss" "ids (discovered sel) \<noteq> ids (sort_key svc_Id ss)"
    and "pull hs startc ord (Inr ss) sel = (r, sel')" "pools sel' tg = Some t"
  shows "ids (services t) = ids (getServices tg (sort_key svc_Id ss))"
  by (rule pull_current [OF selector.reaches_inv [OF assms(1)] assms(2-8)])

definition sel3 :: "unit selector" where
  "sel3 = sel2\<lparr>discovered := [service_a, service_b]\<rparr>"

lemma sorted_ab: "sort_key svc_Id [service_b, service_a] = [service_a, service_b]" "sort_key svc_Id [service_a, service_b] = [service_a, service_b]"
  by (simp_all add: service_a_def service_b_def)

lemma tagged_ab: "getServices ''t'' [service_a, service_b] = [service_a, service_b]"
  by (simp add: getServices_def service_a_def service_b_def)

lemma sel1_refresh:
  "pull (\<lambda>_. 0) startc [''t''] (Inr [service_b, service_a]) sel1
    = refresh (\<lambda>_. 0) startc [pool_0] [service_a, service_b] (sel1\<lparr>discovered := [service_a, service_b]\<rparr>)"
proof -
  have pool: "pools sel1 = [''t'' \<mapsto> pool_0]" "discovered sel1 = [service_a]" "onDiscovered sel1 = []"
    by (simp_all add: sel1_def pool_0_def sel0_def new_selector_def)
  have frame: "sel1\<lparr>discovered := ds, sel_world := ()\<rparr> = sel1\<lparr>discovered := ds\<rparr>" for ds
    by (simp add: sel1_def sel0_def new_selector_def)
  have "\<not> sameServices [service_a] [service_a, service_b]"
    by simp
  then show ?thesis
    by (simp add: pull_def sorted_ab pool map_filter_simps Let_def frame del: sort_key_simps refresh.simps)
qed

lemma pool_0_fields: "Tag pool_0 = ''t''" "Services pool_0 = [service_a]" "HasCHash pool_0"
  by (simp_all add: pool_0_def pool_a_def Tag_def Services_def HasCHash_def)

lemma sel1_pull: "pull (\<lambda>_. 0) always [''t''] (Inr [service_b, service_a]) sel1 = (Ok (), sel3)"
proof -
  have "replaceTagged (\<lambda>_. 0) always ''t'' (Some pool_0) [service_a, service_b] True (sel1\<lparr>discovered := [service_a, service_b]\<rparr>)
      = (Ok pool_01, sel3)"
    by (simp add: replaceTagged_def sel_newTagged_def sel1_def sel2_def sel3_def sel0_def new_selector_def pool_0_def pool_01_def
        pool_a_def service_a_def service_b_def sel_connect_def always_def newTagged_def tagged_replicas_def Let_def
        Services_def All_def insert_commute)
  then show ?thesis
    by (simp add: sel1_refresh pool_0_fields tagged_ab Let_def)
qed

lemma pull_refreshes_witness: "ids (services pool_01) = ids (getServices ''t'' (sort_key svc_Id [service_b, service_a]))"
proof (rule pull_refreshes [OF sel1_reaches _ _ _ _ _ sel1_pull])
  show "ids (discovered sel1) \<noteq> ids (sort_key svc_Id [service_b, service_a])"
    by (simp add: sorted_ab ids_def sel1_def sel0_def new_selector_def del: sort_key_simps)
qed (use services_a_ok(2) in \<open>simp_all add: sel1_pool(2) services_ok_def ids_def always_def sel3_def sel2_def eq_commute\<close>)

text \<open>C39: A replacement that failed is not tried again: the answer that led to it has been stored,
  and every later pull with the same answer returns at once, whatever the pools hold.\<close>

theorem failed_replacement_stays:
  assumes "reaches (sel_start hs) (sel_step hs) sel" "distinct ord" "set ord = dom (pools sel)" "services_ok ss"
    and "pull hs startc ord (Inr ss) sel = (r, sel')"
  shows "pull hs startc' ord' (Inr ss) sel' = (Ok (), sel')"
proof -
  have "ids (discovered sel') = ids (sort_key svc_Id ss)"
    using pull_ok [OF selector.reaches_inv [OF assms(1)] assms(2,3) _ assms(5)] assms(4) by simp
  then show ?thesis
    by (simp add: pull_def sameServices_ids Let_def)
qed

definition refused :: start_fn where
  "refused a n = Some (ErrorString ''refused'')"

definition sel4 :: "unit selector" where
  "sel4 = sel1\<lparr>discovered := [service_a, service_b], next_client := 2,
     sel_log := [ErrorString ''failed to open client to b:refused'']\<rparr>"

lemma sel1_refused: "pull (\<lambda>_. 0) refused [''t''] (Inr [service_b, service_a]) sel1 = (Ok (), sel4)"
proof -
  have "replaceTagged (\<lambda>_. 0) refused ''t'' (Some pool_0) [service_a, service_b] True (sel1\<lparr>discovered := [service_a, service_b]\<rparr>)
      = (Err (ErrorString ''failed to open client to b:refused''), sel1\<lparr>discovered := [service_a, service_b], next_client := 2\<rparr>)"
    by (simp add: replaceTagged_def sel_newTagged_def sel1_def sel0_def new_selector_def pool_0_def
        pool_a_def service_a_def service_b_def sel_connect_def refused_def Let_def Services_def All_def)
  then show ?thesis
    by (simp add: sel1_refresh pool_0_fields tagged_ab Let_def)
      (simp add: sel4_def sel1_def sel0_def new_selector_def sameServices_ids ids_def)
qed

lemma failed_replacement_stays_witness:
  "pull (\<lambda>_. 0) always [''t''] (Inr [service_b, service_a]) sel4 = (Ok (), sel4) \<and> pools sel4 = [''t'' \<mapsto> pool_0]"
proof
  show "pull (\<lambda>_. 0) always [''t''] (Inr [service_b, service_a]) sel4 = (Ok (), sel4)"
    by (rule failed_replacement_stays [OF sel1_reaches _ _ _ sel1_refused])
      (use services_a_ok(2) in \<open>simp_all add: sel1_pool(2) services_ok_def ids_def eq_commute\<close>)
  show "pools sel4 = [''t'' \<mapsto> pool_0]"
    by (simp add: sel4_def sel1_def pool_0_def)
qed

text \<open>A service that carries a tag twice has two clients in the tag's pool; the next replacement
  takes the first of them for both places and stops neither: the second runs on in no pool, out
  of reach of Stop.\<close>

lemma repeated_tag_leaks:
  "(let twice = service_a\<lparr>svc_Tags := [''t'', ''t'']\<rparr>;
        start = (new_selector ())\<lparr>discovered := [twice]\<rparr>;
        filled = snd (fill hs always ''t'' False start);
        pulled = snd (pull hs always [''t''] (Inr [twice, service_b]) filled)
    in live filled = {0, 1} \<and> live pulled = {0, 1, 2}
      \<and> {c. \<exists>tg t. pools pulled tg = Some t \<and> c \<in> set (clients t)} = {Some 0, Some 2}
      \<and> live (snd (sel_Stop [''t''] pulled)) = {1})"
  by (simp add: fill_def replaceTagged_def sel_newTagged_def new_selector_def getServices_def service_a_def service_b_def
      sel_connect_def always_def newTagged_def pull_def map_filter_simps sameServices_ids ids_def HasCHash_def
      Tag_def Services_def All_def sel_Stop_def sel_stop_def Let_def)
    auto

end
