(* ===== verification/Selector_Conc.thy ===== *)
theory Selector_Conc
  imports Selector_Props
begin

text \<open>
  The operations of \<^verbatim>\<open>selector.go\<close> cut at their locks: the goroutine that pulls the registry and the
  callers that fill a pool, one at a time under \<^verbatim>\<open>mux\<close>, interleave between the regions in which
  each looks at or changes what they share. A pull takes \<^verbatim>\<open>mux\<close> only to read and to store the
  answer; it replaces the pools it has seen without it. A pool a goroutine has in its hands may
  no longer be the one in the map. Making a pool is one step: it reads nothing that another step
  writes but the number of the next client.
\<close>

section \<open>State\<close>

datatype puller =
    PIdle
  | PStore "service list"
  | PLook "service list"
  | PPools "service list" "tagged list"
  | PMade "service list" "tagged list" tagged "service list" tagged
  | PDrop "service list" "tagged list" tagged "service list"

datatype filler =
    FFree
  | FLocked string bool
  | FMade string "tagged option" "service list" tagged
  | FDrop tagged "service list"

record 'w conc =
  shared :: "'w selector"
  puller :: puller
  filler :: filler
  starter :: start_fn

section \<open>Steps\<close>

text \<open>The slow path of \<^verbatim>\<open>fill\<close>, from the second look at the map to the new pool.\<close>

definition fill_check ::
    "(string \<Rightarrow> u64) \<Rightarrow> start_fn \<Rightarrow> string \<Rightarrow> bool \<Rightarrow> 'w selector \<Rightarrow> filler \<times> 'w selector" where
  "fill_check hs startc tg ch sel =
     (let old = pools sel tg; ss = getServices tg (discovered sel) in
      if (case old of None \<Rightarrow> False | Some p \<Rightarrow> \<not> ch \<or> HasCHash p) then (FFree, sel)
      else (case sel_newTagged hs startc tg old ss ch sel of
              (Ok q, s1) \<Rightarrow> (FMade tg old ss q, s1)
            | (r, s1) \<Rightarrow> (FFree, s1)))"

definition fill_store :: "string \<Rightarrow> tagged option \<Rightarrow> service list \<Rightarrow> tagged \<Rightarrow> 'w selector \<Rightarrow> filler \<times> 'w selector" where
  "fill_store tg old ss q sel =
     (case old of None \<Rightarrow> FFree | Some p \<Rightarrow> FDrop p ss, sel\<lparr>pools := (pools sel)(tg \<mapsto> q)\<rparr>)"

text \<open>One pool of a pull: nothing to do, or its replacement is made.\<close>

definition pull_pool ::
    "(string \<Rightarrow> u64) \<Rightarrow> start_fn \<Rightarrow> service list \<Rightarrow> tagged \<Rightarrow> tagged list \<Rightarrow> 'w selector \<Rightarrow> puller \<times> 'w selector" where
  "pull_pool hs startc disc p ps sel =
     (let ss = getServices (Tag p) disc in
      if sameServices (Services p) ss then (PPools disc ps, sel)
      else (case sel_newTagged hs startc (Tag p) (Some p) ss (HasCHash p) sel of
              (Ok q, s1) \<Rightarrow> (PMade disc ps p ss q, s1)
            | (Err e, s1) \<Rightarrow> (PPools disc ps, s1\<lparr>sel_log := sel_log s1 @ [e]\<rparr>)
            | (r, s1) \<Rightarrow> (PPools disc ps, s1)))"

definition ask_registry :: "(go_error + service list) \<Rightarrow> 'w selector \<Rightarrow> puller \<times> 'w selector" where
  "ask_registry reg sel =
     (case reg of
        Inl e \<Rightarrow> (PIdle, sel\<lparr>sel_log := sel_log sel @ [e]\<rparr>)
      | Inr ss \<Rightarrow>
          (let disc = sort_key svc_Id ss in
           (if sameServices (discovered sel) disc then PIdle else PStore disc, sel)))"

definition store_answer :: "service list \<Rightarrow> 'w selector \<Rightarrow> 'w selector" where
  "store_answer disc sel =
     sel\<lparr>discovered := disc, sel_world := foldl (\<lambda>w f. f disc w) (sel_world sel) (onDiscovered sel)\<rparr>"

definition drop_old :: "tagged \<Rightarrow> service list \<Rightarrow> 'w selector \<Rightarrow> 'w selector" where
  "drop_old p ss sel = snd (drop_clients (Services p) (All p) ss sel)"

text \<open>The application replaces the function that starts a client, under \<^verbatim>\<open>mux\<close>.\<close>

definition StartClient :: "start_fn \<Rightarrow> 'w conc \<Rightarrow> 'w conc" where
  "StartClient startc s = s\<lparr>starter := startc\<rparr>"

text \<open>
  \<^verbatim>\<open>Stop\<close> has ended the pulling goroutine before it stops the clients, but waits for no caller.
  The fast path of a call does not change the map but for the counter of a pool, which is in
  nobody's way.
\<close>

inductive conc_step :: "(string \<Rightarrow> u64) \<Rightarrow> 'w conc \<Rightarrow> 'w conc \<Rightarrow> bool" for hs where
  f_lock: "filler s = FFree \<Longrightarrow> conc_step hs s (s\<lparr>filler := FLocked tg ch\<rparr>)"
| f_check: "filler s = FLocked tg ch \<Longrightarrow> fill_check hs (starter s) tg ch (shared s) = (f, sel) \<Longrightarrow>
    conc_step hs s (s\<lparr>filler := f, shared := sel\<rparr>)"
| f_store: "filler s = FMade tg old ss q \<Longrightarrow> fill_store tg old ss q (shared s) = (f, sel) \<Longrightarrow>
    conc_step hs s (s\<lparr>filler := f, shared := sel\<rparr>)"
| f_drop: "filler s = FDrop p ss \<Longrightarrow> conc_step hs s (s\<lparr>filler := FFree, shared := drop_old p ss (shared s)\<rparr>)"
| p_ask: "puller s = PIdle \<Longrightarrow> filler s = FFree \<Longrightarrow> \<not> sel_stopped (shared s) \<Longrightarrow>
    (\<And>ss. reg = Inr ss \<Longrightarrow> services_ok ss) \<Longrightarrow> ask_registry reg (shared s) = (p, sel) \<Longrightarrow>
    conc_step hs s (s\<lparr>puller := p, shared := sel\<rparr>)"
| p_store: "puller s = PStore disc \<Longrightarrow> filler s = FFree \<Longrightarrow>
    conc_step hs s (s\<lparr>puller := PLook disc, shared := store_answer disc (shared s)\<rparr>)"
| p_look: "puller s = PLook disc \<Longrightarrow> distinct ord \<Longrightarrow> set ord = dom (pools (shared s)) \<Longrightarrow>
    conc_step hs s (s\<lparr>puller := PPools disc (List.map_filter (pools (shared s)) ord)\<rparr>)"
| p_pool: "puller s = PPools disc (p # ps) \<Longrightarrow> pull_pool hs (starter s) disc p ps (shared s) = (x, sel) \<Longrightarrow>
    conc_step hs s (s\<lparr>puller := x, shared := sel\<rparr>)"
| p_swap: "puller s = PMade disc ps p ss q \<Longrightarrow>
    conc_step hs s (s\<lparr>puller := PDrop disc ps p ss, shared := (shared s)\<lparr>pools := (pools (shared s))(Tag p \<mapsto> q)\<rparr>\<rparr>)"
| p_drop: "puller s = PDrop disc ps p ss \<Longrightarrow>
    conc_step hs s (s\<lparr>puller := PPools disc ps, shared := drop_old p ss (shared s)\<rparr>)"
| p_done: "puller s = PPools disc [] \<Longrightarrow> conc_step hs s (s\<lparr>puller := PIdle\<rparr>)"
| c_next: "pools (shared s) tg = Some p \<Longrightarrow>
    conc_step hs s (s\<lparr>shared := (shared s)\<lparr>pools := (pools (shared s))(tg \<mapsto> snd (RoundRobin p))\<rparr>\<rparr>)"
| c_observe: "filler s = FFree \<Longrightarrow> conc_step hs s (s\<lparr>shared := OnDiscovered f (shared s)\<rparr>)"
| c_starter: "filler s = FFree \<Longrightarrow> conc_step hs s (StartClient startc s)"
| c_stop: "puller s = PIdle \<Longrightarrow> set ord = dom (pools (shared s)) \<Longrightarrow> \<not> sel_stopped (shared s) \<Longrightarrow>
    conc_step hs s (s\<lparr>shared := snd (sel_Stop ord (shared s))\<rparr>)"

definition conc_init :: "(string \<Rightarrow> u64) \<Rightarrow> 'w conc \<Rightarrow> bool" where
  "conc_init hs s \<longleftrightarrow> sel_start hs (shared s) \<and> puller s = PIdle \<and> filler s = FFree"

section \<open>The invariant\<close>

text \<open>
  A client is made for one service of one tag and never serves another: a table \<open>home\<close> of the
  clients made so far explains every pool anybody has in hand.
\<close>

definition explains :: "(nat \<Rightarrow> string \<times> string) \<Rightarrow> nat \<Rightarrow> tagged \<Rightarrow> bool" where
  "explains home n t \<longleftrightarrow> length (services t) = length (clients t) \<and> distinct (ids (services t))
     \<and> (\<forall>i<length (clients t). \<exists>k<n. clients t ! i = Some k \<and> home k = (tag t, svc_Id (services t ! i)))"

definition wanted :: "'w selector \<Rightarrow> string \<Rightarrow> string set" where
  "wanted sel tg = svc_Id ` set (getServices tg (discovered sel))"

text \<open>A pool in hand keeps the clients that are still wanted; a current one has no others.\<close>

definition kept :: "'w selector \<Rightarrow> tagged \<Rightarrow> bool" where
  "kept sel t \<longleftrightarrow> (\<forall>i<length (clients t). svc_Id (services t ! i) \<in> wanted sel (tag t) \<longrightarrow> clients t ! i \<in> Some ` live sel)"

definition current :: "'w selector \<Rightarrow> tagged \<Rightarrow> bool" where
  "current sel t \<longleftrightarrow> svc_Id ` set (services t) = wanted sel (tag t)"

definition settled :: "'w selector \<Rightarrow> string \<Rightarrow> bool" where
  "settled sel tg \<longleftrightarrow> (\<forall>t. pools sel tg = Some t \<longrightarrow> current sel t)"

definition sound :: "(nat \<Rightarrow> string \<times> string) \<Rightarrow> 'w selector \<Rightarrow> tagged set \<Rightarrow> bool" where
  "sound home sel T \<longleftrightarrow> services_ok (discovered sel) \<and> live sel \<subseteq> {..<next_client sel}
     \<and> (\<forall>t\<in>ran (pools sel) \<union> T. explains home (next_client sel) t)
     \<and> (\<forall>tg t. pools sel tg = Some t \<longrightarrow> tag t = tg \<and> set (clients t) \<subseteq> Some ` live sel)
     \<and> (\<forall>t\<in>T. kept sel t)"

fun puller_pools :: "puller \<Rightarrow> tagged set" where
  "puller_pools (PPools disc ps) = set ps"
| "puller_pools (PMade disc ps p ss q) = insert p (insert q (set ps))"
| "puller_pools (PDrop disc ps p ss) = insert p (set ps)"
| "puller_pools _ = {}"

fun filler_pools :: "filler \<Rightarrow> tagged set" where
  "filler_pools (FMade tg old ss q) = insert q (set_option old)"
| "filler_pools (FDrop p ss) = {p}"
| "filler_pools _ = {}"

fun puller_ok :: "'w selector \<Rightarrow> puller \<Rightarrow> bool" where
  "puller_ok sel PIdle = True"
| "puller_ok sel (PStore disc) = services_ok disc"
| "puller_ok sel (PLook disc) = (disc = discovered sel)"
| "puller_ok sel (PPools disc ps) = (disc = discovered sel)"
| "puller_ok sel (PMade disc ps p ss q) = (disc = discovered sel \<and> ss = getServices (tag p) disc \<and> tag q = tag p \<and> current sel q)"
| "puller_ok sel (PDrop disc ps p ss) = (disc = discovered sel \<and> ss = getServices (tag p) disc \<and> settled sel (tag p))"

fun filler_ok :: "'w selector \<Rightarrow> filler \<Rightarrow> bool" where
  "filler_ok sel FFree = True"
| "filler_ok sel (FLocked tg ch) = True"
| "filler_ok sel (FMade tg old ss q) = (ss = getServices tg (discovered sel) \<and> tag q = tg \<and> current sel q
     \<and> (\<forall>p. old = Some p \<longrightarrow> tag p = tg))"
| "filler_ok sel (FDrop p ss) = (ss = getServices (tag p) (discovered sel) \<and> settled sel (tag p))"

section \<open>Making, storing and dropping\<close>

lemma sound_subset: "sound home sel T \<Longrightarrow> T' \<subseteq> T \<Longrightarrow> sound home sel T'"
  by (auto simp: sound_def)

lemma kept_pool: "set (clients t) \<subseteq> Some ` live sel \<Longrightarrow> kept sel t"
  by (auto simp: kept_def)

lemma kept_more: "kept sel t \<Longrightarrow> discovered sel' = discovered sel \<Longrightarrow> live sel \<subseteq> live sel' \<Longrightarrow> kept sel' t"
  unfolding kept_def wanted_def by (simp add: subset_iff image_iff) blast

lemma sound_pool: "sound home sel T \<Longrightarrow> pools sel tg = Some t \<Longrightarrow> sound home sel (insert t T)"
  using kept_pool [of t sel] by (auto simp: sound_def ran_def)

lemma explains_clients:
  assumes "explains home n t"
  shows "length (services t) = length (clients t)" "distinct (clients t)" "None \<notin> set (clients t)"
    "set (clients t) \<subseteq> Some ` {..<n}"
proof -
  have ex: "\<exists>k<n. clients t ! i = Some k \<and> home k = (tag t, ids (services t) ! i)" if "i < length (clients t)" for i
    using assms that by (auto simp: explains_def ids_def)
  have len: "length (ids (services t)) = length (clients t)" and d: "distinct (ids (services t))"
    using assms by (simp_all add: explains_def ids_def)
  show "length (services t) = length (clients t)"
    using assms by (simp add: explains_def)
  show "distinct (clients t)"
    unfolding distinct_conv_nth
  proof (intro allI impI)
    fix i j
    assume "i < length (clients t)" "j < length (clients t)" "i \<noteq> j"
    with ex [of i] ex [of j] d len show "clients t ! i \<noteq> clients t ! j"
      by (auto simp: nth_eq_iff_index_eq)
  qed
  show "None \<notin> set (clients t)" "set (clients t) \<subseteq> Some ` {..<n}"
    using ex by (fastforce simp: in_set_conv_nth)+
qed

text \<open>The client of a pool for an id is the one of the service with that id.\<close>

lemma explains_client_of:
  assumes "explains home n t" "client_of (services t) (clients t) i = Some c"
  shows "\<exists>j<length (clients t). svc_Id (services t ! j) = i \<and> c = clients t ! j"
proof -
  have "(i, c) \<in> set (zip (ids (services t)) (clients t))"
    using assms(2) unfolding client_of_def by (rule map_of_SomeD)
  then show ?thesis
    using explains_clients(1) [OF assms(1)] by (force simp: in_set_zip ids_def)
qed

lemma explains_disjoint:
  assumes "explains home n t" "explains home n' t'" "tag t \<noteq> tag t'"
  shows "set (clients t) \<inter> set (clients t') = {}"
proof (rule ccontr)
  assume "set (clients t) \<inter> set (clients t') \<noteq> {}"
  then obtain c where "c \<in> set (clients t)" "c \<in> set (clients t')"
    by blast
  then obtain i j where "i < length (clients t)" "j < length (clients t')" "clients t ! i = clients t' ! j"
    by (metis in_set_conv_nth)
  with assms show False
    unfolding explains_def by (metis option.inject prod.inject)
qed

lemma explains_more: "explains home n t \<Longrightarrow> n \<le> n' \<Longrightarrow> (\<And>k. k < n \<Longrightarrow> home' k = home k) \<Longrightarrow> explains home' n' t"
  unfolding explains_def by (metis order_less_le_trans)

text \<open>What \<open>newTagged\<close> makes of the clients of the old pool that are still wanted.\<close>

lemma sel_newTagged_cases:
  assumes old: "\<And>t. old = Some t \<Longrightarrow> explains home (next_client sel) t" and ss: "distinct (ids ss)"
    and call: "sel_newTagged hs startc tg old ss ch sel = (r, sel')" and live: "live sel \<subseteq> {..<next_client sel}"
  shows "same_but_clients sel sel' \<and> next_client sel \<le> next_client sel' \<and> live sel \<subseteq> live sel' \<and> live sel' \<subseteq> {..<next_client sel'}
    \<and> (\<forall>q. r = Ok q \<longrightarrow> tag q = tg \<and> services q = ss \<and> length (clients q) = length ss \<and> distinct (clients q)
      \<and> (\<forall>i<length ss. client_of (old_services old) (old_clients old) (svc_Id (ss ! i)) = Some (clients q ! i)
          \<or> (\<exists>k\<in>live sel'. clients q ! i = Some k \<and> next_client sel \<le> k)))"
proof -
  have args: "(case old of None \<Rightarrow> [] | Some t \<Rightarrow> Services t) = old_services old"
      "(case old of None \<Rightarrow> [] | Some t \<Rightarrow> All t) = old_clients old"
    by (simp_all add: old_services_def old_clients_def Services_def All_def split: option.splits)
  obtain x cr s1 where run: "sel_clients startc (old_services old) (old_clients old) ss sel = (x, cr, s1)"
    by (cases "sel_clients startc (old_services old) (old_clients old) ss sel")
  have "length (old_services old) = length (old_clients old)" "None \<notin> set (old_clients old)" "distinct (old_clients old)"
      "set (old_clients old) \<subseteq> Some ` {..<next_client sel}"
    using explains_clients [OF old] by (cases old; simp add: old_services_def old_clients_def)+
  from sel_clients_spec [OF this run] have spec: "clients_spec (old_services old) (old_clients old) ss sel x cr s1" .
  have base: "same_but_clients sel s1" "next_client sel \<le> next_client s1" "distinct cr"
      "set cr \<subseteq> fresh_refs (next_client sel) (next_client s1)" "Some ` live s1 = Some ` live sel \<union> set cr"
    using spec by (simp_all add: clients_spec_def)
  have new: "\<exists>k\<in>live s1. c = Some k \<and> next_client sel \<le> k" if "c \<in> set cr" for c
  proof -
    have "c \<in> Some ` live s1" "c \<in> fresh_refs (next_client sel) (next_client s1)"
      using that base(4) unfolding base(5) by blast+
    then show ?thesis
      by (auto simp: fresh_refs_def)
  qed
  have below: "live s1 \<subseteq> {..<next_client s1}"
  proof
    fix k
    assume "k \<in> live s1"
    then have "Some k \<in> Some ` live sel \<union> set cr"
      using base(5) by blast
    then show "k \<in> {..<next_client s1}"
      using base(2,4) live by (auto simp: fresh_refs_def)
  qed
  have more: "live sel \<subseteq> live s1"
    using base(5) by blast
  note eq = call [unfolded sel_newTagged_def Let_def args run]
  show ?thesis
  proof (cases x)
    case (Ok cs)
    then have cs: "length cs = length ss" "set cs = reused (old_services old) (old_clients old) ss \<union> set cr" "distinct cs"
        "\<And>i c. i < length ss \<Longrightarrow> client_of (old_services old) (old_clients old) (svc_Id (ss ! i)) = Some c \<Longrightarrow> cs ! i = c"
      using spec ss by (simp_all add: clients_spec_def)
    have each: "client_of (old_services old) (old_clients old) (svc_Id (ss ! i)) = Some (cs ! i) \<or> cs ! i \<in> set cr"
      if i: "i < length ss" for i
    proof (cases "cs ! i \<in> set cr")
      case False
      then have "cs ! i \<in> reused (old_services old) (old_clients old) ss"
        using cs(1,2) i by (metis UnE nth_mem)
      then obtain j where j: "j < length ss" "client_of (old_services old) (old_clients old) (svc_Id (ss ! j)) = Some (cs ! i)"
        by (auto simp: reused_def in_set_conv_nth)
      with cs(4) have "cs ! j = cs ! i"
        by blast
      with cs(1,3) i j show ?thesis
        by (metis nth_eq_iff_index_eq)
    qed simp
    obtain q where q: "newTagged hs tg ss cs ch = Ok q" "tag q = tg" "services q = ss" "clients q = cs"
      using cs(1) by (auto simp: newTagged_Ok)
    have "r = Ok q" "sel' = s1"
      using eq Ok q(1) by simp_all
    with q cs base below more each new show ?thesis
      by blast
  next
    case (Err e)
    then have r: "r = Err e" and sel': "sel' = s1\<lparr>live := live s1 - {n. Some n \<in> set cr}\<rparr>"
      using eq by (simp_all add: stop_all)
    have "k \<in> live sel'" if "k \<in> live sel" for k
      using that sel' more live base(4) by (fastforce simp: fresh_refs_def)
    then show ?thesis
      using r sel' base(1,2) below by (auto simp: same_but_clients_def)
  qed (use spec in \<open>simp_all add: clients_spec_def\<close>)
qed

lemma sound_made:
  assumes sound: "sound home sel T" and old: "\<And>t. old = Some t \<Longrightarrow> t \<in> T \<and> tag t = tg"
    and call: "sel_newTagged hs startc tg old (getServices tg (discovered sel)) ch sel = (Ok q, sel')"
  shows "\<exists>home'. sound home' sel' (insert q T)" "tag q = tg" "current sel' q" "same_but_clients sel sel'"
proof -
  let ?ss = "getServices tg (discovered sel)" and ?n = "next_client sel"
  have ids: "distinct (ids ?ss)" and low: "live sel \<subseteq> {..<?n}"
    using sound by (simp_all add: sound_def distinct_getServices)
  have ex: "explains home ?n t" if "old = Some t" for t
    using old [OF that] sound by (simp add: sound_def)
  note res = sel_newTagged_cases [OF ex ids call low]
  then have frame: "same_but_clients sel sel'" "?n \<le> next_client sel'" "live sel \<subseteq> live sel'" "live sel' \<subseteq> {..<next_client sel'}"
      and q: "tag q = tg" "services q = ?ss" "length (clients q) = length ?ss" "distinct (clients q)"
      and each: "\<And>i. i < length ?ss \<Longrightarrow> client_of (old_services old) (old_clients old) (svc_Id (?ss ! i)) = Some (clients q ! i)
          \<or> (\<exists>k\<in>live sel'. clients q ! i = Some k \<and> ?n \<le> k)"
    by blast+
  define home' where "home' k = (if k < ?n then home k
    else case map_of (zip (clients q) (ids ?ss)) (Some k) of Some i \<Rightarrow> (tg, i) | None \<Rightarrow> home k)" for k
  have wanted: "wanted sel' = wanted sel"
    using frame(1) by (simp add: wanted_def same_but_clients_def fun_eq_iff)
  have one: "\<exists>k<next_client sel'. clients q ! i = Some k \<and> home' k = (tg, svc_Id (?ss ! i)) \<and> k \<in> live sel'" if i: "i < length ?ss" for i
    using each [OF i]
  proof
    assume taken: "client_of (old_services old) (old_clients old) (svc_Id (?ss ! i)) = Some (clients q ! i)"
    then obtain t where t: "old = Some t"
      by (cases old) (simp_all add: old_services_def old_clients_def client_of_def ids_def)
    then obtain j where j: "j < length (clients t)" "svc_Id (services t ! j) = svc_Id (?ss ! i)" "clients q ! i = clients t ! j"
      using explains_client_of [OF ex [OF t], of "svc_Id (?ss ! i)"] taken by (auto simp: old_services_def old_clients_def)
    then obtain k where k: "k < ?n" "clients t ! j = Some k" "home k = (tg, svc_Id (?ss ! i))"
      using ex [OF t] old [OF t] unfolding explains_def by metis
    have "svc_Id (services t ! j) \<in> wanted sel (tag t)"
      using i old [OF t] unfolding wanted_def j(2) by simp
    then have "clients t ! j \<in> Some ` live sel"
      using sound old [OF t] j(1) by (simp add: sound_def kept_def)
    then show ?thesis
      using k j(3) frame(2,3) by (auto simp: home'_def)
  next
    assume "\<exists>k\<in>live sel'. clients q ! i = Some k \<and> ?n \<le> k"
    then obtain k where k: "k \<in> live sel'" "clients q ! i = Some k" "?n \<le> k"
      by blast
    have "map_of (zip (clients q) (ids ?ss)) (clients q ! i) = Some (ids ?ss ! i)"
      using i q(3,4) by (intro map_of_zip_nth) (simp_all add: ids_def)
    then have "home' k = (tg, svc_Id (?ss ! i))"
      using k i by (simp add: home'_def ids_def)
    with k frame(4) show ?thesis
      by auto
  qed
  have expl: "explains home' (next_client sel') q"
    unfolding explains_def q(1-3) using ids one by auto
  have kept: "kept sel' q"
    unfolding kept_def q(1-3) using one by blast
  have more: "explains home' (next_client sel') t" if "explains home ?n t" for t
    using that frame(2) by (rule explains_more) (simp add: home'_def)
  have "kept sel' t" if "kept sel t" for t
    using that frame(1,3) by (simp add: kept_more same_but_clients_def)
  then have "sound home' sel' (insert q T)"
    using sound expl kept more frame unfolding sound_def same_but_clients_def by (auto; blast)
  then show "\<exists>home'. sound home' sel' (insert q T)"
    by blast
  show "tag q = tg" "current sel' q" "same_but_clients sel sel'"
    using q frame(1) by (simp_all add: current_def wanted wanted_def)
qed

lemma sound_failed:
  assumes sound: "sound home sel T" and old: "\<And>t. old = Some t \<Longrightarrow> t \<in> T \<and> tag t = tg"
    and call: "sel_newTagged hs startc tg old (getServices tg (discovered sel)) ch sel = (r, sel')"
  shows "sound home sel' T" "same_but_clients sel sel'"
proof -
  have ids: "distinct (ids (getServices tg (discovered sel)))" and low: "live sel \<subseteq> {..<next_client sel}"
    using sound by (simp_all add: sound_def distinct_getServices)
  have "explains home (next_client sel) t" if "old = Some t" for t
    using old [OF that] sound by (simp add: sound_def)
  from sel_newTagged_cases [OF this ids call low]
  have frame: "same_but_clients sel sel'" "next_client sel \<le> next_client sel'" "live sel \<subseteq> live sel'" "live sel' \<subseteq> {..<next_client sel'}"
    by blast+
  then have "kept sel' t" if "kept sel t" for t
    using that by (simp add: kept_more same_but_clients_def)
  then show "sound home sel' T"
    using sound frame explains_more [of home "next_client sel" _ "next_client sel'" home]
    unfolding sound_def same_but_clients_def by (auto; blast)
  show "same_but_clients sel sel'"
    by (rule frame)
qed

lemma current_kept_live: "explains home n q \<Longrightarrow> current sel q \<Longrightarrow> kept sel q \<Longrightarrow> set (clients q) \<subseteq> Some ` live sel"
  unfolding current_def kept_def explains_def
  by (metis (no_types, lifting) image_eqI in_set_conv_nth subsetI)

lemma sound_swap:
  assumes "sound home sel T" "q \<in> T" "current sel q" "tag q = tg"
  shows "sound home (sel\<lparr>pools := (pools sel)(tg \<mapsto> q)\<rparr>) T"
    and "settled (sel\<lparr>pools := (pools sel)(tg \<mapsto> q)\<rparr>) tg"
    and "settled sel tg' \<Longrightarrow> settled (sel\<lparr>pools := (pools sel)(tg \<mapsto> q)\<rparr>) tg'"
proof -
  have q: "explains home (next_client sel) q" "kept sel q"
    using assms(1,2) by (simp_all add: sound_def)
  have "ran ((pools sel)(tg \<mapsto> q)) \<subseteq> insert q (ran (pools sel))"
    by (auto simp: ran_def)
  then have "\<forall>t\<in>ran ((pools sel)(tg \<mapsto> q)) \<union> T. explains home (next_client sel) t"
    using assms(1) q(1) unfolding sound_def by blast
  then show "sound home (sel\<lparr>pools := (pools sel)(tg \<mapsto> q)\<rparr>) T"
    using assms(1,4) current_kept_live [OF q(1) assms(3) q(2)]
    by (auto simp: sound_def kept_def wanted_def split: if_splits)
  show "settled (sel\<lparr>pools := (pools sel)(tg \<mapsto> q)\<rparr>) tg"
    using assms(3,4) by (simp add: settled_def current_def wanted_def)
  then show "settled sel tg' \<Longrightarrow> settled (sel\<lparr>pools := (pools sel)(tg \<mapsto> q)\<rparr>) tg'"
    by (cases "tg' = tg") (simp_all add: settled_def current_def wanted_def)
qed

lemma sound_drop:
  assumes sound: "sound home sel T" and p: "p \<in> T" and ss: "ss = getServices (tag p) (discovered sel)"
    and set: "settled sel (tag p)"
  shows "sound home (drop_old p ss sel) T" "same_but_clients sel (drop_old p ss sel)"
proof -
  let ?gone = "dropped (services p) (clients p) ss"
  have ex: "explains home (next_client sel) p"
    using sound p by (simp add: sound_def)
  have eq: "drop_old p ss sel = sel\<lparr>live := live sel - ?gone\<rparr>"
    by (simp add: drop_old_def Services_def All_def drop_clients_eq [OF explains_clients(1) [OF ex]])
  have gone: "fst (home k) = tag p \<and> snd (home k) \<notin> wanted sel (tag p)" if k: "k \<in> ?gone" for k
  proof -
    obtain s where "(s, Some k) \<in> set (zip (services p) (clients p))" "svc_Id s \<notin> svc_Id ` set ss"
      using k by (auto simp: dropped_def)
    then obtain i where i: "i < length (clients p)" "services p ! i = s" "clients p ! i = Some k" "svc_Id s \<notin> wanted sel (tag p)"
      using ss by (auto simp: in_set_zip wanted_def)
    then show ?thesis
      using ex unfolding explains_def by (metis option.inject prod.sel)
  qed
  have home: "home k = (tag t, svc_Id (services t ! i))"
    if "explains home (next_client sel) t" "i < length (clients t)" "clients t ! i = Some k" for t i k
    using that unfolding explains_def by (metis option.inject)
  have keep: "clients t ! i \<in> Some ` (live sel - ?gone)"
    if t: "explains home (next_client sel) t" "i < length (clients t)" "clients t ! i \<in> Some ` live sel"
      "svc_Id (services t ! i) \<in> wanted sel (tag t) \<or> tag t \<noteq> tag p" for t i
  proof -
    obtain k where k: "k \<in> live sel" "clients t ! i = Some k"
      using t(3) by blast
    have "k \<notin> ?gone"
      using gone [of k] home [OF t(1,2) k(2)] t(4) by auto
    with k show ?thesis
      by auto
  qed
  have "set (clients t) \<subseteq> Some ` (live sel - ?gone)" if t: "pools sel tg = Some t" for tg t
  proof
    fix c
    assume "c \<in> set (clients t)"
    then obtain i where i: "i < length (clients t)" "c = clients t ! i"
      by (auto simp: in_set_conv_nth)
    have tt: "explains home (next_client sel) t" "tag t = tg" "set (clients t) \<subseteq> Some ` live sel"
      using sound t by (auto simp: sound_def ran_def)
    have "svc_Id (services t ! i) \<in> wanted sel (tag t)" if "tag t = tag p"
    proof -
      have "services t ! i \<in> set (services t)"
        using i(1) tt(1) by (simp add: explains_def)
      then show ?thesis
        using that set t tt(2) by (auto simp: settled_def current_def)
    qed
    then show "c \<in> Some ` (live sel - ?gone)"
      using keep [OF tt(1) i(1)] i tt(3) by (metis nth_mem subsetD)
  qed
  moreover have "kept (sel\<lparr>live := live sel - ?gone\<rparr>) t" if "t \<in> T" for t
    using sound that keep [of t] by (simp add: sound_def kept_def wanted_def)
  ultimately show "sound home (drop_old p ss sel) T"
    unfolding eq using sound by (auto simp: sound_def)
  show "same_but_clients sel (drop_old p ss sel)"
    by (simp add: eq same_but_clients_def)
qed

section \<open>Every step keeps the invariant\<close>

lemma puller_ok_cong:
  "puller_ok sel x \<Longrightarrow> discovered sel' = discovered sel \<Longrightarrow> (\<And>tg. settled sel tg \<Longrightarrow> settled sel' tg) \<Longrightarrow> puller_ok sel' x"
  by (cases x) (simp_all add: current_def wanted_def)

lemma filler_ok_cong:
  "filler_ok sel x \<Longrightarrow> discovered sel' = discovered sel \<Longrightarrow> (\<And>tg. settled sel tg \<Longrightarrow> settled sel' tg) \<Longrightarrow> filler_ok sel' x"
  by (cases x) (simp_all add: current_def wanted_def)

lemma settled_cong: "pools sel' = pools sel \<Longrightarrow> discovered sel' = discovered sel \<Longrightarrow> settled sel' tg = settled sel tg"
  by (simp add: settled_def current_def wanted_def)

lemma both_cong:
  assumes "puller_ok sel x \<and> filler_ok sel y" "same_but_clients sel sel'"
  shows "puller_ok sel' x \<and> filler_ok sel' y"
proof -
  have same: "discovered sel' = discovered sel" "\<And>tg. settled sel tg \<Longrightarrow> settled sel' tg"
    using assms(2) settled_cong [of sel' sel] by (simp_all add: same_but_clients_def)
  show ?thesis
    using assms(1) puller_ok_cong [OF _ same, of x] filler_ok_cong [OF _ same, of y] by simp
qed

text \<open>The invariant before Stop.\<close>

definition conc_ok :: "'w selector \<Rightarrow> puller \<Rightarrow> filler \<Rightarrow> bool" where
  "conc_ok sel x y \<longleftrightarrow> (\<exists>home. sound home sel (puller_pools x \<union> filler_pools y)) \<and> puller_ok sel x \<and> filler_ok sel y"

lemma conc_ok_subset:
  "conc_ok sel x y \<Longrightarrow> puller_pools x' \<subseteq> puller_pools x \<Longrightarrow> filler_pools y' \<subseteq> filler_pools y \<Longrightarrow>
    puller_ok sel x' \<Longrightarrow> filler_ok sel y' \<Longrightarrow> conc_ok sel x' y'"
  unfolding conc_ok_def by (meson Un_mono sound_subset)

lemma conc_fill_check:
  assumes ok: "conc_ok sel x (FLocked tg ch)" and call: "fill_check hs startc tg ch sel = (f, sel')"
  shows "conc_ok sel' x f"
proof -
  let ?old = "pools sel tg"
  obtain home where sound: "sound home sel (puller_pools x)"
    using ok by (auto simp: conc_ok_def)
  have old: "t \<in> set_option ?old \<union> puller_pools x \<and> tag t = tg" if "?old = Some t" for t
    using that sound by (simp add: sound_def)
  have all: "sound home sel (set_option ?old \<union> puller_pools x)"
    using sound sound_pool [OF sound] by (cases ?old) simp_all
  show ?thesis
  proof (cases "case ?old of None \<Rightarrow> False | Some p \<Rightarrow> \<not> ch \<or> HasCHash p")
    case True
    then have "f = FFree" "sel' = sel"
      using call by (simp_all add: fill_check_def Let_def)
    with ok show ?thesis
      by (auto elim: conc_ok_subset simp: conc_ok_def)
  next
    case False
    obtain r s1 where r: "sel_newTagged hs startc tg ?old (getServices tg (discovered sel)) ch sel = (r, s1)"
      by (cases "sel_newTagged hs startc tg ?old (getServices tg (discovered sel)) ch sel")
    note failed = sound_failed [OF all old r]
    show ?thesis
    proof (cases "\<exists>q. r = Ok q")
      case True
      then obtain q where q: "r = Ok q"
        by blast
      with False call r have eq: "f = FMade tg ?old (getServices tg (discovered sel)) q" "sel' = s1"
        by (simp_all add: fill_check_def Let_def)
      note made = sound_made [OF all old r [unfolded q]]
      obtain home' where "sound home' s1 (insert q (set_option ?old \<union> puller_pools x))"
        using made(1) by blast
      then have "sound home' s1 (puller_pools x \<union> filler_pools f)"
        by (rule sound_subset) (auto simp: eq)
      moreover have "puller_ok s1 x"
        using both_cong [OF _ made(4), of x FFree] ok by (simp add: conc_ok_def)
      ultimately show ?thesis
        using made(2-4) old unfolding eq conc_ok_def by (auto simp: same_but_clients_def)
    next
      case no: False
      then have eq: "f = FFree" "sel' = s1"
        using False call r by (auto simp: fill_check_def Let_def split: res.splits)
      have "sound home s1 (puller_pools x)"
        using failed(1) Un_upper2 by (rule sound_subset)
      moreover have "puller_ok s1 x"
        using both_cong [OF _ failed(2), of x FFree] ok by (simp add: conc_ok_def)
      ultimately show ?thesis
        unfolding eq conc_ok_def by auto
    qed
  qed
qed

lemma conc_fill_store:
  assumes ok: "conc_ok sel x (FMade tg old ss q)" and call: "fill_store tg old ss q sel = (f, sel')"
  shows "conc_ok sel' x f"
proof -
  obtain home where sound: "sound home sel (puller_pools x \<union> insert q (set_option old))"
    and q: "current sel q" "tag q = tg" "ss = getServices tg (discovered sel)" "\<And>p. old = Some p \<Longrightarrow> tag p = tg" and x: "puller_ok sel x"
    using ok by (auto simp: conc_ok_def)
  note swap = sound_swap [OF sound _ q(1,2)]
  have eq: "f = (case old of None \<Rightarrow> FFree | Some p \<Rightarrow> FDrop p ss)" "sel' = sel\<lparr>pools := (pools sel)(tg \<mapsto> q)\<rparr>"
    using call by (simp_all add: fill_store_def)
  have "puller_ok sel' x"
    unfolding eq by (rule puller_ok_cong [OF x]) (simp_all add: swap)
  moreover have "filler_ok sel' f"
    unfolding eq using swap(2) q(3,4) by (auto split: option.splits)
  moreover have "sound home sel' (puller_pools x \<union> filler_pools f)"
    unfolding eq by (rule sound_subset [OF swap(1)]) (auto split: option.splits)
  ultimately show ?thesis
    by (auto simp: conc_ok_def)
qed

lemma conc_fill_drop:
  assumes "conc_ok sel x (FDrop p ss)"
  shows "conc_ok (drop_old p ss sel) x FFree"
proof -
  obtain home where sound: "sound home sel (puller_pools x \<union> {p})"
    and p: "ss = getServices (tag p) (discovered sel)" "settled sel (tag p)" and x: "puller_ok sel x"
    using assms by (auto simp: conc_ok_def)
  note drop = sound_drop [OF sound _ p]
  have "sound home (drop_old p ss sel) (puller_pools x)"
    by (rule sound_subset [OF drop(1)]) auto
  moreover have "puller_ok (drop_old p ss sel) x"
    using both_cong [of sel x FFree] drop(2) x by simp
  ultimately show ?thesis
    by (auto simp: conc_ok_def)
qed

lemma conc_pull_pool:
  assumes ok: "conc_ok sel (PPools disc (p # ps)) y" and call: "pull_pool hs startc disc p ps sel = (x, sel')"
  shows "conc_ok sel' x y"
proof -
  obtain home where sound: "sound home sel (insert p (set ps) \<union> filler_pools y)"
    and disc: "disc = discovered sel" and y: "filler_ok sel y"
    using ok by (auto simp: conc_ok_def)
  let ?ss = "getServices (tag p) (discovered sel)"
  show ?thesis
  proof (cases "sameServices (Services p) ?ss")
    case True
    then have "x = PPools disc ps" "sel' = sel"
      using call by (auto simp: pull_pool_def Let_def disc Tag_def)
    then show ?thesis
      using disc y by (auto intro: conc_ok_subset [OF ok])
  next
    case False
    obtain r s1 where r: "sel_newTagged hs startc (tag p) (Some p) ?ss (HasCHash p) sel = (r, s1)"
      by (cases "sel_newTagged hs startc (tag p) (Some p) ?ss (HasCHash p) sel")
    have old: "t \<in> insert p (set ps) \<union> filler_pools y \<and> tag t = tag p" if "Some p = Some t" for t
      using that by simp
    note failed = sound_failed [OF sound old r]
    have y1: "filler_ok s1 y"
      using both_cong [OF _ failed(2), of PIdle y] y by simp
    show ?thesis
    proof (cases "\<exists>q. r = Ok q")
      case True
      then obtain q where q: "r = Ok q"
        by blast
      with False call r have eq: "x = PMade disc ps p ?ss q" "sel' = s1"
        by (simp_all add: pull_pool_def Let_def disc Tag_def)
      note made = sound_made [OF sound old r [unfolded q]]
      obtain home' where "sound home' s1 (insert q (insert p (set ps) \<union> filler_pools y))"
        using made(1) by blast
      then have "sound home' s1 (puller_pools x \<union> filler_pools y)"
        by (rule sound_subset) (auto simp: eq)
      then show ?thesis
        using made(2-4) y1 disc unfolding eq conc_ok_def by (auto simp: same_but_clients_def)
    next
      case no: False
      then have eq: "x = PPools disc ps" "sel' = s1\<lparr>sel_log := sel_log sel'\<rparr>"
        using False call r by (auto simp: pull_pool_def Let_def disc Tag_def split: res.splits)
      then obtain l where l: "sel' = s1\<lparr>sel_log := l\<rparr>"
        by blast
      have "sound home s1 (puller_pools x \<union> filler_pools y)"
        using failed(1) unfolding eq(1) by (rule sound_subset) auto
      then have "sound home sel' (puller_pools x \<union> filler_pools y)"
        unfolding l by (simp add: sound_def kept_def wanted_def)
      moreover have "filler_ok sel' y"
        by (rule filler_ok_cong [OF y1]) (simp_all add: l settled_def current_def wanted_def)
      ultimately show ?thesis
        using failed(2) disc unfolding eq(1) conc_ok_def by (auto simp: l same_but_clients_def)
    qed
  qed
qed

lemma conc_pull_swap:
  assumes ok: "conc_ok sel (PMade disc ps p ss q) y"
  shows "conc_ok (sel\<lparr>pools := (pools sel)(Tag p \<mapsto> q)\<rparr>) (PDrop disc ps p ss) y"
proof -
  obtain home where sound: "sound home sel (insert p (insert q (set ps)) \<union> filler_pools y)"
    and q: "current sel q" "tag q = tag p" "ss = getServices (tag p) disc" "disc = discovered sel" and y: "filler_ok sel y"
    using ok by (auto simp: conc_ok_def)
  note swap = sound_swap [OF sound _ q(1,2)]
  have "filler_ok (sel\<lparr>pools := (pools sel)(tag p \<mapsto> q)\<rparr>) y"
    by (rule filler_ok_cong [OF y]) (simp_all add: swap)
  moreover have "sound home (sel\<lparr>pools := (pools sel)(tag p \<mapsto> q)\<rparr>) (insert p (set ps) \<union> filler_pools y)"
    by (rule sound_subset [OF swap(1)]) auto
  ultimately show ?thesis
    using q(3,4) swap(2) by (auto simp: conc_ok_def Tag_def)
qed

lemma conc_pull_drop:
  assumes "conc_ok sel (PDrop disc ps p ss) y"
  shows "conc_ok (drop_old p ss sel) (PPools disc ps) y"
proof -
  obtain home where sound: "sound home sel (insert p (set ps) \<union> filler_pools y)"
    and p: "ss = getServices (tag p) (discovered sel)" "settled sel (tag p)" "disc = discovered sel" and y: "filler_ok sel y"
    using assms by (auto simp: conc_ok_def)
  note drop = sound_drop [OF sound _ p(1,2)]
  have "sound home (drop_old p ss sel) (set ps \<union> filler_pools y)"
    by (rule sound_subset [OF drop(1)]) auto
  moreover have "filler_ok (drop_old p ss sel) y"
    using both_cong [of sel PIdle y] drop(2) y by simp
  ultimately show ?thesis
    using drop(2) p(3) by (auto simp: conc_ok_def same_but_clients_def)
qed

text \<open>The rest of the steps.\<close>

lemma conc_pull_store:
  assumes "conc_ok sel (PStore disc) FFree"
  shows "conc_ok (store_answer disc sel) (PLook disc) FFree"
  using assms by (auto simp: conc_ok_def store_answer_def sound_def)

lemma conc_pull_look:
  assumes ok: "conc_ok sel (PLook disc) y"
  shows "conc_ok sel (PPools disc (List.map_filter (pools sel) ord)) y"
proof -
  obtain home where sound: "sound home sel (filler_pools y)"
    using ok by (auto simp: conc_ok_def)
  have "sound home sel (set ts \<union> filler_pools y)" if "set ts \<subseteq> ran (pools sel)" for ts
    using that
  proof (induction ts)
    case (Cons t ts)
    then obtain tg where "pools sel tg = Some t"
      by (auto simp: ran_def)
    with Cons sound_pool show ?case
      by fastforce
  qed (simp add: sound)
  moreover have "set (List.map_filter (pools sel) ord) \<subseteq> ran (pools sel)"
    by (auto simp: map_filter_def ran_def)
  ultimately show ?thesis
    using ok unfolding conc_ok_def by auto
qed

lemma conc_next:
  assumes ok: "conc_ok sel x y" and p: "pools sel tg = Some p"
  shows "conc_ok (sel\<lparr>pools := (pools sel)(tg \<mapsto> snd (RoundRobin p))\<rparr>) x y"
proof -
  let ?q = "snd (RoundRobin p)" and ?sel = "sel\<lparr>pools := (pools sel)(tg \<mapsto> snd (RoundRobin p))\<rparr>"
  have q: "tag ?q = tag p" "clients ?q = clients p" "services ?q = services p"
    by (simp_all add: RoundRobin_def Let_def)
  then have expl: "explains home n ?q = explains home n p" for home n
    by (simp add: explains_def)
  obtain home where sound: "sound home sel (puller_pools x \<union> filler_pools y)"
    using ok by (auto simp: conc_ok_def)
  have "ran ((pools sel)(tg \<mapsto> ?q)) \<subseteq> insert ?q (ran (pools sel))"
    by (auto simp: ran_def)
  moreover have "explains home (next_client sel) ?q"
    using sound p by (auto simp: expl sound_def ran_def)
  ultimately have "\<forall>t\<in>ran ((pools sel)(tg \<mapsto> ?q)) \<union> (puller_pools x \<union> filler_pools y). explains home (next_client sel) t"
    using sound unfolding sound_def by blast
  then have "sound home ?sel (puller_pools x \<union> filler_pools y)"
    using sound p q(1,2) by (auto simp: sound_def kept_def wanted_def split: if_splits)
  moreover have "settled ?sel tg'" if "settled sel tg'" for tg'
    using that p q(1,3) by (auto simp: settled_def current_def wanted_def)
  then have "puller_ok ?sel x" "filler_ok ?sel y"
    using ok puller_ok_cong [of sel x ?sel] filler_ok_cong [of sel y ?sel] by (simp_all add: conc_ok_def)
  ultimately show ?thesis
    unfolding conc_ok_def by blast
qed

lemma conc_ask:
  assumes ok: "conc_ok sel PIdle FFree" and reg: "\<And>ss. reg = Inr ss \<Longrightarrow> services_ok ss" and call: "ask_registry reg sel = (x, sel')"
  shows "conc_ok sel' x FFree"
proof (cases reg)
  case (Inl e)
  moreover have "sound home (sel\<lparr>sel_log := l\<rparr>) T = sound home sel T" for home l T
    by (simp add: sound_def kept_def wanted_def)
  ultimately show ?thesis
    using ok call by (auto simp: ask_registry_def conc_ok_def)
next
  case (Inr ss)
  have "services_ok (sort_key svc_Id ss)"
    using reg [OF Inr] by (rule services_ok_sort)
  with Inr ok call show ?thesis
    by (auto simp: ask_registry_def conc_ok_def Let_def)
qed

section \<open>The machine\<close>

definition conc_inv :: "'w conc \<Rightarrow> bool" where
  "conc_inv s \<longleftrightarrow> sel_stopped (shared s) \<or> conc_ok (shared s) (puller s) (filler s)"

lemma sel_connect_stopped: "sel_stopped (snd (sel_connect startc s sel)) = sel_stopped sel"
  by (simp add: sel_connect_def Let_def split: option.splits)

lemma sel_clients_stopped: "sel_clients startc os ocs ss sel = (r, cr, sel') \<Longrightarrow> sel_stopped sel' = sel_stopped sel"
proof (induction ss arbitrary: sel r cr sel')
  case (Cons s ss)
  show ?case
  proof (cases "reuse os ocs s")
    case (Ok c)
    show ?thesis
    proof (cases c)
      case None
      obtain x sel2 where "sel_connect startc s sel = (x, sel2)"
        by (cases "sel_connect startc s sel")
      with Cons Ok None sel_connect_stopped [of startc s sel] show ?thesis
        by (auto split: sum.splits prod.splits res.splits)
    next
      case (Some k)
      with Cons Ok show ?thesis
        by (auto split: prod.splits res.splits)
    qed
  qed (use Cons.prems in auto)
qed simp

lemma sel_newTagged_stopped: "sel_newTagged hs startc tg old ss ch sel = (r, sel') \<Longrightarrow> sel_stopped sel' = sel_stopped sel"
  by (auto simp: sel_newTagged_def Let_def stop_all split: prod.splits res.splits dest!: sel_clients_stopped)

lemma drop_clients_stopped: "sel_stopped (snd (drop_clients os ocs ss sel)) = sel_stopped sel"
  by (induction os ocs ss sel rule: drop_clients.induct) (auto simp: sel_stop_def split: list.splits option.splits)

lemma conc_step_stopped: "conc_step hs s t \<Longrightarrow> sel_stopped (shared s) \<Longrightarrow> sel_stopped (shared t)"
proof (induction rule: conc_step.induct)
  case (f_check s tg ch f sel)
  then show ?case
    by (auto simp: fill_check_def Let_def split: if_splits prod.splits res.splits dest!: sel_newTagged_stopped)
next
  case (p_pool s disc p ps x sel)
  then show ?case
    by (auto simp: pull_pool_def Let_def split: if_splits prod.splits res.splits dest!: sel_newTagged_stopped)
qed (auto simp: fill_store_def ask_registry_def store_answer_def drop_old_def drop_clients_stopped OnDiscovered_def StartClient_def)

lemma conc_step_inv:
  assumes inv: "conc_inv s" and step: "conc_step hs s t"
  shows "conc_inv t"
proof (cases "sel_stopped (shared s)")
  case True
  with conc_step_stopped [OF step] show ?thesis
    by (simp add: conc_inv_def)
next
  case False
  with inv have ok: "conc_ok (shared s) (puller s) (filler s)"
    by (simp add: conc_inv_def)
  from step have "sel_stopped (shared t) \<or> conc_ok (shared t) (puller t) (filler t)"
  proof cases
    case (f_lock tg ch)
    with ok show ?thesis by (simp add: conc_ok_def)
  next
    case (f_check tg ch f sel)
    with ok conc_fill_check [of "shared s" "puller s" tg ch hs "starter s" f sel] show ?thesis by simp
  next
    case (f_store tg old ss q f sel)
    with ok conc_fill_store [of "shared s" "puller s" tg old ss q f sel] show ?thesis by simp
  next
    case (f_drop p ss)
    with ok conc_fill_drop [of "shared s" "puller s" p ss] show ?thesis by simp
  next
    case (p_ask reg p sel)
    with ok conc_ask [of "shared s" reg p sel] show ?thesis by simp
  next
    case (p_store disc)
    with ok conc_pull_store [of "shared s" disc] show ?thesis by simp
  next
    case (p_look disc ord)
    with ok conc_pull_look [of "shared s" disc "filler s" ord] show ?thesis by simp
  next
    case (p_pool disc p ps x sel)
    with ok conc_pull_pool [of "shared s" disc p ps "filler s" hs "starter s" x sel] show ?thesis by simp
  next
    case (p_swap disc ps p ss q)
    with ok conc_pull_swap [of "shared s" disc ps p ss q "filler s"] show ?thesis by simp
  next
    case (p_drop disc ps p ss)
    with ok conc_pull_drop [of "shared s" disc ps p ss "filler s"] show ?thesis by simp
  next
    case (p_done disc)
    with ok show ?thesis by (simp add: conc_ok_def)
  next
    case (c_next tg p)
    with ok conc_next [of "shared s" "puller s" "filler s" tg p] show ?thesis by simp
  next
    case (c_observe f)
    with ok show ?thesis
      by (cases "puller s") (auto simp: conc_ok_def sound_def kept_def wanted_def OnDiscovered_def current_def settled_def)
  next
    case (c_stop ord)
    then show ?thesis by (simp add: sel_Stop_def)
  next
    case (c_starter startc)
    with ok show ?thesis by (simp add: StartClient_def)
  qed
  then show ?thesis
    by (simp add: conc_inv_def)
qed

lemma sel_start_empty: "sel_start hs sel \<Longrightarrow> pools sel = Map.empty \<and> live sel = {} \<and> \<not> sel_stopped sel \<and> services_ok (discovered sel)"
  by (auto simp: sel_start_def NewSelector_def pull_def new_selector_def Let_def map_filter_simps services_ok_sort
      services_ok_def [of "[]"] ids_def [of "[]"] split: if_splits)

lemma conc_init_inv: "conc_init hs s \<Longrightarrow> conc_inv s"
  using sel_start_empty [of hs "shared s"] by (auto simp: conc_init_def conc_inv_def conc_ok_def sound_def)

interpretation selector_locks: machine_invariant "conc_init hs" "conc_step hs" conc_inv
  by unfold_locales (fact conc_init_inv conc_step_inv)+

end
