(* ===== verification/Selector_Runs.thy ===== *)
theory Selector_Runs
  imports Selector_Conc
begin

text \<open>
  What follows of the selector's interleaved machine: the atomic operations of \<open>Selector\<close> are runs
  of it, the pools in the map are sound in every state it gets to, and a pull and a call that
  replace the same pool at the same time lose clients.
\<close>

section \<open>The atomic operations are runs\<close>










section \<open>A pull and a call for the same pool\<close>

text \<open>
  The registry has reported \<open>a\<close> and now reports \<open>a\<close> and \<open>b\<close>. The pull has made its pool for the
  tag and not yet stored it, when a caller asks for a client by hash, makes a pool of its own,
  stores and returns it; then the pull stores over it.
\<close>

definition pool_u :: tagged where
  "pool_u = \<lparr>tag = ''t'', index = 0, services = [service_a], clients = [Some 0], hash = None, idc = Map.empty\<rparr>"












section \<open>Properties\<close>






text \<open>A call after Stop starts a client that nobody stops: a second Stop panics.\<close>

lemma call_after_stop_leaks:
  "\<exists>sel :: unit selector. reaches (sel_start (\<lambda>_. 0)) (sel_step (\<lambda>_. 0)) sel \<and> sel_stopped sel \<and> live sel \<noteq> {}
     \<and> fst (sel_Stop ord sel) = Panic ''close of closed channel''"
proof (intro exI conjI)
  let ?stop = "snd (sel_Stop [''t''] sel1)"
  let ?sel = "snd (sel_All (\<lambda>_. 0) always ''t'' ?stop)"
  have "reaches (sel_start (\<lambda>_. 0)) (sel_step (\<lambda>_. 0)) ?stop"
    by (rule reaches_step [OF sel1_reaches]) (simp add: s_stop sel1_pool)
  then show "reaches (sel_start (\<lambda>_. 0)) (sel_step (\<lambda>_. 0)) ?sel"
    by (rule reaches_step) (rule s_all)
  have stop: "?stop = sel1\<lparr>live := {}, pools := Map.empty, sel_stopped := True\<rparr>"
    by (simp add: sel_Stop_def sel1_def sel0_def new_selector_def map_filter_simps All_def sel_stop_def)
  have "?sel = sel1\<lparr>live := {1}, next_client := 2, pools := [''t'' \<mapsto> pool_u\<lparr>clients := [Some 1]\<rparr>], sel_stopped := True\<rparr>"
    unfolding stop
    by (simp add: sel_All_def fill_def replaceTagged_def sel_newTagged_def sel1_def sel0_def new_selector_def getServices_def
        service_a_def sel_connect_def always_def newTagged_def pool_u_def Let_def)
  then show "sel_stopped ?sel" "live ?sel \<noteq> {}" "fst (sel_Stop ord ?sel) = Panic ''close of closed channel''"
    by (simp_all add: sel_Stop_def)
qed

end
