(* ===== verification/Registry.thy ===== *)
theory Registry
  imports Selector Server_Plugin "HOL-Library.Multiset"
begin

text \<open>
  \<^verbatim>\<open>registry/consul/consul.go\<close> and \<^verbatim>\<open>plugin/registry/server.go\<close>: what a service is registered as, what a
  lookup makes of the agent's answer, and the plugin that registers the server's methods as tags
  when it starts. The calls of the Consul client are parameters.
\<close>

section \<open>Consul\<close>

record registration =
  rg_ID :: string
  rg_Name :: string
  rg_Tags :: "string list"
  rg_Port :: int
  rg_Address :: string
  check_TCP :: string
  check_Timeout :: string
  check_Interval :: string

text \<open>The service of an entry of the health endpoint's answer.\<close>

record agent_service =
  ag_ID :: string
  ag_Service :: string
  ag_Tags :: "string list"
  ag_Port :: int
  ag_Address :: string

definition registration_of :: "service \<Rightarrow> registration" where
  "registration_of s = \<lparr>rg_ID = svc_Id s, rg_Name = svc_Name s, rg_Tags = svc_Tags s, rg_Port = svc_Port s,
     rg_Address = svc_Address s, check_TCP = svc_Address s @ '':'' @ itoa (svc_Port s),
     check_Timeout = ''1s'', check_Interval = ''3s''\<rparr>"

text \<open>
  The configuration and the client are the Consul package's: \<open>with_address\<close> sets a configuration's
  address, \<open>NewClient\<close> makes a client of it.
\<close>

definition consul_New ::
    "'cfg \<Rightarrow> (string \<Rightarrow> 'cfg \<Rightarrow> 'cfg) \<Rightarrow> ('cfg \<Rightarrow> go_error + 'cl) \<Rightarrow> string \<Rightarrow> string \<Rightarrow> go_error + 'cl" where
  "consul_New DefaultConfig with_address NewClient host port =
     NewClient (with_address (JoinHostPort host port) DefaultConfig)"

definition consul_Register :: "(registration \<Rightarrow> 'w \<Rightarrow> go_error option \<times> 'w) \<Rightarrow> service \<Rightarrow> 'w \<Rightarrow> go_error option \<times> 'w" where
  "consul_Register ServiceRegister s w = ServiceRegister (registration_of s) w"

definition consul_Deregister :: "(string \<Rightarrow> 'w \<Rightarrow> go_error option \<times> 'w) \<Rightarrow> string \<Rightarrow> 'w \<Rightarrow> go_error option \<times> 'w" where
  "consul_Deregister ServiceDeregister i w = ServiceDeregister i w"

definition service_of :: "agent_service \<Rightarrow> service" where
  "service_of a = \<lparr>svc_Id = ag_ID a, svc_Name = ag_Service a, svc_Tags = sort (ag_Tags a),
     svc_Port = ag_Port a, svc_Address = ag_Address a\<rparr>"

definition consul_Services ::
    "(string \<Rightarrow> string \<Rightarrow> bool \<Rightarrow> go_error + agent_service list) \<Rightarrow> string \<Rightarrow> string \<Rightarrow> go_error + service list" where
  "consul_Services Health_Service name tg =
     (case Health_Service name tg True of
        Inl e \<Rightarrow> Inl e
      | Inr as \<Rightarrow> Inr (List.map service_of as))"

section \<open>The plugin\<close>

text \<open>Its state is the service it registers; the world has it beside the registry.\<close>

definition wildcard :: "string \<Rightarrow> bool" where
  "wildcard a \<longleftrightarrow> a = ''0.0.0.0'' \<or> a = ''::'' \<or> a = ''[::]''"

definition rp_register ::
    "(service \<Rightarrow> 'w \<Rightarrow> go_error option \<times> 'w) \<Rightarrow> int \<Rightarrow> string \<Rightarrow> string list \<Rightarrow> service \<times> 'w \<Rightarrow> go_error option \<times> (service \<times> 'w)" where
  "rp_register Register port ip methods sw =
     (let s1 = (fst sw)\<lparr>svc_Port := port, svc_Address := ip\<rparr> in
      if wildcard ip then (Some (ErrorString ''invalid service address''), (s1, snd sw))
      else (let s2 = s1\<lparr>svc_Tags := svc_Tags s1 @ methods\<rparr> in
            case Register s2 (snd sw) of (e, w') \<Rightarrow> (e, (s2, w'))))"

definition rp_AfterStart ::
    "(service \<Rightarrow> 'w \<Rightarrow> go_error option \<times> 'w) \<Rightarrow> (listener \<times> string list, service \<times> 'w) hook" where
  "rp_AfterStart Register a sw =
     (case a of (l, methods) \<Rightarrow>
        (case l of
           TCPAddr port ip \<Rightarrow> rp_register Register port ip methods sw
         | UDPAddr port ip \<Rightarrow> rp_register Register port ip methods sw
         | OtherAddr \<Rightarrow> (Some (ErrorString ''listener addr type is not supported''), sw)))"

definition rp_BeforeStop ::
    "(string \<Rightarrow> 'w \<Rightarrow> go_error option \<times> 'w) \<Rightarrow> (listener \<times> string list, service \<times> 'w) hook" where
  "rp_BeforeStop Deregister a sw =
     (case Deregister (svc_Id (fst sw)) (snd sw) of (e, w') \<Rightarrow> (e, (fst sw, w')))"

definition registry_NewServer ::
    "(service \<Rightarrow> 'w \<Rightarrow> go_error option \<times> 'w) \<Rightarrow> (string \<Rightarrow> 'w \<Rightarrow> go_error option \<times> 'w) \<Rightarrow> (service \<times> 'w) server_plugin" where
  "registry_NewServer Register Deregister =
     \<lparr>sp_BeforeStart = None, sp_AfterStart = Some (rp_AfterStart Register), sp_BeforeStop = Some (rp_BeforeStop Deregister),
      sp_AfterStop = None, sp_AcceptConnection = None, sp_ClientConnected = None,
      sp_ClientDisconnected = None, sp_ErrorHandle = None\<rparr>"

section \<open>Lemmas\<close>

lemma getServices_Cons: "getServices tg (s # ss) = replicate (count_list (svc_Tags s) tg) s @ getServices tg ss"
proof -
  have "List.map (\<lambda>_. s) (filter (\<lambda>v. v = tg) ts) = replicate (count_list ts tg) s" for ts
    by (induction ts) auto
  then show ?thesis
    by (simp add: getServices_def)
qed

lemma count_list_sort [simp]: "count_list (sort xs) x = count_list xs x"
  for xs :: "'a :: linorder list"
  by (simp flip: count_mset)

lemma count_list_distinct: "distinct xs \<Longrightarrow> count_list xs x = (if x \<in> set xs then 1 else 0)"
  by (induction xs) auto

lemma rp_AfterStart_TCP:
  assumes "\<not> wildcard ip" "\<And>s w. fst (Register s w) = None"
  shows "rp_AfterStart Register (TCPAddr port ip, methods) (s, w) =
    (None, (s\<lparr>svc_Port := port, svc_Address := ip, svc_Tags := svc_Tags s @ methods\<rparr>,
      snd (Register (s\<lparr>svc_Port := port, svc_Address := ip, svc_Tags := svc_Tags s @ methods\<rparr>) w)))"
  using assms(1) assms(2) [of "s\<lparr>svc_Port := port, svc_Address := ip, svc_Tags := svc_Tags s @ methods\<rparr>" w]
  by (cases "Register (s\<lparr>svc_Port := port, svc_Address := ip, svc_Tags := svc_Tags s @ methods\<rparr>) w")
    (simp add: rp_AfterStart_def rp_register_def Let_def)

text \<open>What is registered is found again, with its tags sorted.\<close>

lemma registered_is_found:
  assumes "r = registration_of s"
    and "Health_Service name tg True = Inr [\<lparr>ag_ID = rg_ID r, ag_Service = rg_Name r, ag_Tags = rg_Tags r,
      ag_Port = rg_Port r, ag_Address = rg_Address r\<rparr>]"
  shows "consul_Services Health_Service name tg = Inr [s\<lparr>svc_Tags := sort (svc_Tags s)\<rparr>]"
  using assms by (simp add: consul_Services_def service_of_def registration_of_def)

text \<open>One start and stop of the server, as the plugin sees it.\<close>

definition rp_cycle ::
    "(service \<Rightarrow> 'w \<Rightarrow> go_error option \<times> 'w) \<Rightarrow> (string \<Rightarrow> 'w \<Rightarrow> go_error option \<times> 'w)
      \<Rightarrow> listener \<times> string list \<Rightarrow> service \<times> 'w \<Rightarrow> service \<times> 'w" where
  "rp_cycle Register Deregister a sw = snd (rp_BeforeStop Deregister a (snd (rp_AfterStart Register a sw)))"

lemma rp_cycle_TCP:
  assumes "\<not> wildcard ip" "\<And>s w. fst (Register s w) = None"
  shows "fst (rp_cycle Register Deregister (TCPAddr port ip, methods) sw)
    = (fst sw)\<lparr>svc_Port := port, svc_Address := ip, svc_Tags := svc_Tags (fst sw) @ methods\<rparr>"
  using rp_AfterStart_TCP [OF assms, where port = port and methods = methods and s = "fst sw" and w = "snd sw"]
  by (simp add: rp_cycle_def rp_BeforeStop_def split: prod.split)

lemma rp_cycles:
  assumes "\<not> wildcard ip" "\<And>s w. fst (Register s w) = None"
  shows "svc_Tags (fst ((rp_cycle Register Deregister (TCPAddr port ip, methods) ^^ n) sw))
    = svc_Tags (fst sw) @ concat (replicate n methods)"
proof (induction n)
  case (Suc n)
  then show ?case
    by (simp add: rp_cycle_TCP [OF assms] flip: replicate_append_same)
qed simp

section \<open>Properties\<close>

text \<open>The plugin appends the methods to the tags of its service on every start and never takes them
  off: after \<open>n\<close> starts and stops the service is registered with every method \<open>n\<close> times, and a
  selector that asks for the services of a method gets it \<open>n\<close> times.\<close>

lemma restart_repeats_tags:
  assumes "\<not> wildcard ip" "\<And>s w. fst (Register s w) = None" "distinct methods" "m \<in> set methods"
    and "s' = fst ((rp_cycle Register Deregister (TCPAddr port ip, methods) ^^ n) (s\<lparr>svc_Tags := []\<rparr>, w))"
    and "ag_Tags ag = rg_Tags (registration_of s')"
  shows "getServices m [service_of ag] = replicate n (service_of ag)"
proof -
  have "count_list (concat (replicate n methods)) m = n"
    using assms(3,4) by (induction n) (simp_all add: count_list_distinct)
  then show ?thesis
    using assms(5,6) rp_cycles [OF assms(1,2), where sw = "(s\<lparr>svc_Tags := []\<rparr>, w)"]
    by (simp add: getServices_Cons service_of_def registration_of_def) (simp add: getServices_def)
qed

lemma restart_repeats_tags_witness:
  "getServices ''add'' [service_of \<lparr>ag_ID = ''i'', ag_Service = ''n'', ag_Tags = [''add'', ''sub'', ''add'', ''sub''],
      ag_Port = 80, ag_Address = ''10.0.0.1''\<rparr>]
    = replicate 2 (service_of \<lparr>ag_ID = ''i'', ag_Service = ''n'', ag_Tags = [''add'', ''sub'', ''add'', ''sub''],
      ag_Port = 80, ag_Address = ''10.0.0.1''\<rparr>)"
  by (rule restart_repeats_tags [where ip = "''10.0.0.1''" and Register = "\<lambda>s w. (None, w)" and methods = "[''add'', ''sub'']"
        and Deregister = "\<lambda>s w. (None, w)" and port = 80 and w = "()"
        and s = "\<lparr>svc_Id = ''i'', svc_Name = ''n'', svc_Tags = [], svc_Port = 0, svc_Address = ''10.0.0.1''\<rparr>", OF _ _ _ _ refl])
    (simp_all add: wildcard_def rp_cycle_TCP registration_of_def numeral_2_eq_2)

text \<open>The health check is made against the address the selector dials exactly when the address has no
  colon: for an IPv6 address the check's host and port run together, the selector's do not.\<close>

lemma check_is_dialed_address:
  "check_TCP (registration_of s) = JoinHostPort (svc_Address s) (itoa (svc_Port s)) \<longleftrightarrow> CHR '':'' \<notin> set (svc_Address s)"
proof
  assume "check_TCP (registration_of s) = JoinHostPort (svc_Address s) (itoa (svc_Port s))"
  then have "length (check_TCP (registration_of s)) = length (JoinHostPort (svc_Address s) (itoa (svc_Port s)))"
    by simp
  then show "CHR '':'' \<notin> set (svc_Address s)"
    by (auto simp: registration_of_def JoinHostPort_def)
qed (simp add: registration_of_def JoinHostPort_def)

end
