(* ===== verification/Discovery.thy ===== *)
theory Discovery
  imports Selector_Props Registry
begin

text \<open>
  Discovery from end to end: servers that register their methods with the registry plugin, the
  agent between them and the selectors, and a selector that pulls. The agent is a parameter: its
  world has a set of registrations, which a registration adds to, a deregistration takes from and a
  lookup by name lists (every registered service passing its check).
\<close>

section \<open>The servers\<close>

text \<open>A server with the plugin: the service it was given, where it listens, and its methods.\<close>

record node =
  nd_service :: service
  nd_ip :: string
  nd_port :: int
  nd_methods :: "string list"


definition nd_id :: "node \<Rightarrow> string" where
  "nd_id nd = svc_Id (nd_service nd)"

definition announced :: "node \<Rightarrow> service" where
  "announced nd = (nd_service nd)\<lparr>svc_Port := nd_port nd, svc_Address := nd_ip nd, svc_Tags := svc_Tags (nd_service nd) @ nd_methods nd\<rparr>"









text \<open>A server of the service \<open>name\<close> as the code makes it: no tags yet, an address that can be
  registered, no method twice (they are the keys of a map).\<close>

definition node_ok :: "string \<Rightarrow> node \<Rightarrow> bool" where
  "node_ok name nd \<longleftrightarrow> svc_Name (nd_service nd) = name \<and> svc_Tags (nd_service nd) = [] \<and> \<not> wildcard (nd_ip nd) \<and> distinct (nd_methods nd)"

section \<open>The agent\<close>



section \<open>What the agent knows\<close>




lemma registration_of_announced [simp]:
  "rg_ID (registration_of (announced nd)) = nd_id nd"
  "node_ok name nd \<Longrightarrow> rg_Name (registration_of (announced nd)) = name"
  by (simp_all add: registration_of_def announced_def nd_id_def node_ok_def)



section \<open>What the lookup answers\<close>






section \<open>What the selector makes of it\<close>



section \<open>Properties\<close>












end
