(* ===== verification/Keepalive.thy ===== *)
theory Keepalive
  imports Server_Plugin
begin

text \<open>
  \<^verbatim>\<open>plugin/keepalive/server.go\<close>. The period is a 64-bit signed integer, in seconds; setting the
  options of a TCP connection is package \<^verbatim>\<open>net\<close>, whose two calls are parameters.
\<close>

record 'w tcp_ops =
  is_TCP :: "conn_ref \<Rightarrow> bool"
  SetKeepAlive :: "conn_ref \<Rightarrow> bool \<Rightarrow> 'w \<Rightarrow> go_error option \<times> 'w"
  SetKeepAlivePeriod :: "conn_ref \<Rightarrow> i64 \<Rightarrow> 'w \<Rightarrow> go_error option \<times> 'w"

definition DefaultKeepAlivePeriod :: i64 where "DefaultKeepAlivePeriod = 30"

text \<open>The period the plugin keeps.\<close>

definition keepalive_period :: "i64 \<Rightarrow> i64" where
  "keepalive_period p = (if p = 0 then DefaultKeepAlivePeriod else p)"

text \<open>A duration counts nanoseconds; the product wraps.\<close>

definition seconds :: "i64 \<Rightarrow> i64" where
  "seconds p = p * 1000000000"

definition ka_ClientConnected :: "'w tcp_ops \<Rightarrow> i64 \<Rightarrow> (conn_ref, 'w) hook" where
  "ka_ClientConnected net p conn w =
     (if 0 \<le> sint p then (None, w)
      else if \<not> is_TCP net conn then (None, w)
      else (case SetKeepAlive net conn True w of
              (Some e, w1) \<Rightarrow> (Some e, w1)
            | (None, w1) \<Rightarrow>
                (case SetKeepAlivePeriod net conn (seconds p) w1 of
                   (Some e, w2) \<Rightarrow> (Some e, w2)
                 | (None, w2) \<Rightarrow> (None, w2))))"

definition keepalive_NewServer :: "'w tcp_ops \<Rightarrow> i64 \<Rightarrow> 'w server_plugin" where
  "keepalive_NewServer net p =
     \<lparr>sp_BeforeStart = None, sp_AfterStart = None, sp_BeforeStop = None, sp_AfterStop = None,
      sp_AcceptConnection = None, sp_ClientConnected = Some (ka_ClientConnected net (keepalive_period p)),
      sp_ClientDisconnected = None, sp_ErrorHandle = None\<rparr>"

section \<open>Properties\<close>

lemma sint_seconds: "- (2 ^ 63) \<le> sint p * 1000000000 \<Longrightarrow> sint p < 0 \<Longrightarrow> sint (seconds p) = sint p * 1000000000"
  unfolding seconds_def
  by (simp add: sint_word_ariths signed_take_bit_int_eq_self)

text \<open>The test of the period is the wrong way round: the plugin made with a positive period, or
  with the default, never touches a connection; made with a negative one, which is to switch it
  off, it turns keep-alive on for every TCP connection and asks for a negative period (as long as
  the product with \<open>10 ^ 9\<close> does not wrap).\<close>

lemma keepalive_inverted:
  "(0 \<le> sint p \<longrightarrow> sp_doClientConnected (sp_Add (keepalive_NewServer net p) no_server_plugins) conn w = (None, w))
   \<and> (sint p < 0 \<longrightarrow> is_TCP net conn \<longrightarrow> SetKeepAlive net conn True w = (None, w1) \<longrightarrow>
        sp_doClientConnected (sp_Add (keepalive_NewServer net p) no_server_plugins) conn w
          = SetKeepAlivePeriod net conn (seconds p) w1)
   \<and> (sint p < 0 \<longrightarrow> - (2 ^ 63) \<le> sint p * 1000000000 \<longrightarrow> sint (seconds p) = sint p * 1000000000)"
proof -
  have p: "keepalive_period p = p" if "sint p < 0"
    using that by (auto simp: keepalive_period_def)
  have "0 \<le> sint (keepalive_period p)" if "0 \<le> sint p"
    using that by (simp add: keepalive_period_def DefaultKeepAlivePeriod_def)
  then show ?thesis
    using p sint_seconds [of p]
    by (auto simp: sClientConnected.fire_add sClientConnected.fire_none keepalive_NewServer_def ka_ClientConnected_def
        split: prod.splits option.splits)
qed

lemma keepalive_inverted_witness:
  "(let net = \<lparr>is_TCP = (\<lambda>_. True), SetKeepAlive = (\<lambda>_ b w. (None, w @ [1])), SetKeepAlivePeriod = (\<lambda>_ d w. (None, w @ [sint d]))\<rparr>;
        fire = (\<lambda>p. sp_doClientConnected (sp_Add (keepalive_NewServer net p) no_server_plugins) (Some 0) [])
    in fire 30 = (None, []) \<and> fire (- 1) = (None, [1, - 1000000000]))"
proof -
  let ?net = "\<lparr>is_TCP = (\<lambda>_. True), SetKeepAlive = (\<lambda>_ b w. (None, w @ [1])), SetKeepAlivePeriod = (\<lambda>_ d w. (None, w @ [sint d]))\<rparr>"
  show ?thesis
    using keepalive_inverted [of 30 ?net "Some 0" "[]" "[]"] keepalive_inverted [of "- 1" ?net "Some 0" "[]" "[1]"]
    by (simp add: Let_def)
qed

end
