(* ===== verification/Logging.thy ===== *)
theory Logging
  imports Client_Plugin Server_Plugin
begin

text \<open>
  The loggers of \<^verbatim>\<open>logger/\<close> and the logging plugins of \<^verbatim>\<open>plugin/logging\<close>. A logger takes a level, a
  message and a list of alternating keys and values and acts on the world. The standard library's
  \<^verbatim>\<open>Println\<close>, zap's check and write, and the names of addresses are parameters.
\<close>

section \<open>Loggers\<close>

datatype level = Debug | Info | Error

text \<open>An \<^verbatim>\<open>interface{}\<close> passed to a logger: a string, an error or anything else.\<close>

datatype log_var = LString string | LError go_error | LOther string

type_synonym 'w logger = "level \<Rightarrow> string \<Rightarrow> log_var list \<Rightarrow> 'w \<Rightarrow> 'w"

fun level_tag :: "level \<Rightarrow> string" where
  "level_tag Debug = ''RPCNG DEBUG:''"
| "level_tag Info = ''RPCNG INFO:''"
| "level_tag Error = ''RPCNG ERROR:''"

text \<open>\<^verbatim>\<open>logger/log\<close>: one line on the standard logger.\<close>

definition std_logger :: "(log_var list \<Rightarrow> 'w \<Rightarrow> 'w) \<Rightarrow> 'w logger" where
  "std_logger println lv message vars w = println ([LString (level_tag lv), LString message] @ vars) w"

text \<open>\<^verbatim>\<open>logger/zap\<close>: the fields, none if the list is not one of keys and values.\<close>

fun zap_fields :: "(string \<times> log_var) list \<Rightarrow> log_var list \<Rightarrow> (string \<times> log_var) list" where
  "zap_fields flds [] = flds"
| "zap_fields flds (LString key # v # vars) = zap_fields (flds @ [(key, v)]) vars"
| "zap_fields flds _ = []"

definition zap_format :: "log_var list \<Rightarrow> (string \<times> log_var) list" where
  "zap_format vars = zap_fields [] vars"

definition zap_logger ::
    "(level \<Rightarrow> string \<Rightarrow> 'w \<Rightarrow> bool) \<Rightarrow> (level \<Rightarrow> string \<Rightarrow> (string \<times> log_var) list \<Rightarrow> 'w \<Rightarrow> 'w) \<Rightarrow> 'w logger" where
  "zap_logger check write lv message vars w =
     (if check lv message w then write lv message (zap_format vars) w else w)"

section \<open>The client's plugin\<close>

definition lc_BeforeStart :: "'w logger \<Rightarrow> (string, 'w) hook" where
  "lc_BeforeStart lg addr w = (None, lg Debug ''Starting client'' [LString ''addr'', LString addr] w)"

definition lc_AfterStart :: "'w logger \<Rightarrow> (string, 'w) hook" where
  "lc_AfterStart lg addr w = (None, lg Debug ''Client started'' [LString ''addr'', LString addr] w)"

definition lc_BeforeStop :: "'w logger \<Rightarrow> (string, 'w) hook" where
  "lc_BeforeStop lg addr w = (None, lg Debug ''Stopping client'' [LString ''addr'', LString addr] w)"

definition lc_AfterStop :: "'w logger \<Rightarrow> (string, 'w) hook" where
  "lc_AfterStop lg addr w = (None, lg Debug ''Client stopped'' [LString ''addr'', LString addr] w)"

definition lc_DialServer :: "'w logger \<Rightarrow> (string \<times> conn_ref \<times> go_error option, 'w) hook" where
  "lc_DialServer lg a w =
     (case a of (addr, conn, err) \<Rightarrow>
        (case err of
           Some e \<Rightarrow> (None, lg Error (''Can'' @ [CHR 0x27] @ ''t establish connection to Server'')
               [LString ''addr'', LString addr, LString ''err'', LError e] w)
         | None \<Rightarrow> (None, w)))"

definition lc_Connected :: "'w logger \<Rightarrow> (string \<times> conn_ref, 'w) hook" where
  "lc_Connected lg a w =
     (case a of (addr, conn) \<Rightarrow> (None, lg Debug ''Connected to server'' [LString ''addr'', LString addr] w))"

definition lc_Disconnected :: "'w logger \<Rightarrow> (string \<times> go_error option, 'w) hook" where
  "lc_Disconnected lg a w =
     (case a of (addr, err) \<Rightarrow>
        (case err of
           None \<Rightarrow> (None, lg Debug ''Disconnected from server'' [LString ''addr'', LString addr] w)
         | Some e \<Rightarrow> (None, lg Error ''Disconnected from server''
               [LString ''addr'', LString addr, LString ''err'', LError e] w)))"

definition logging_NewClient :: "'w logger \<Rightarrow> 'w client_plugin" where
  "logging_NewClient lg =
     \<lparr>cp_BeforeStart = Some (lc_BeforeStart lg), cp_AfterStart = Some (lc_AfterStart lg),
      cp_BeforeStop = Some (lc_BeforeStop lg), cp_AfterStop = Some (lc_AfterStop lg),
      cp_DialServer = Some (lc_DialServer lg), cp_Connected = Some (lc_Connected lg),
      cp_Disconnected = Some (lc_Disconnected lg)\<rparr>"

section \<open>The server's plugin\<close>

text \<open>The network and the text of an address, and the two addresses of a connection over TCP.\<close>

record addr_names =
  Network :: "net_addr \<Rightarrow> string"
  addr_String :: "net_addr \<Rightarrow> string"
  tcp_addrs :: "conn_ref \<Rightarrow> (string \<times> string) option"

definition listen_vars :: "addr_names \<Rightarrow> listener \<Rightarrow> log_var list" where
  "listen_vars an l = [LString ''protocol'', LString (Network an l), LString ''listen_addr'', LString (addr_String an l)]"

definition ls_BeforeStart :: "addr_names \<Rightarrow> 'w logger \<Rightarrow> (listener \<times> string list, 'w) hook" where
  "ls_BeforeStart an lg a w = (None, lg Info ''Starting Server'' (listen_vars an (fst a)) w)"

definition ls_AfterStart :: "addr_names \<Rightarrow> 'w logger \<Rightarrow> (listener \<times> string list, 'w) hook" where
  "ls_AfterStart an lg a w = (None, lg Info ''Server started'' (listen_vars an (fst a)) w)"

definition ls_BeforeStop :: "'w logger \<Rightarrow> (listener \<times> string list, 'w) hook" where
  "ls_BeforeStop lg a w = (None, lg Info ''Stopping Server'' [] w)"

definition ls_AfterStop :: "'w logger \<Rightarrow> (listener \<times> string list, 'w) hook" where
  "ls_AfterStop lg a w = (None, lg Info ''Server stopped'' [] w)"

definition ls_AcceptConnection :: "addr_names \<Rightarrow> 'w logger \<Rightarrow> (conn_ref \<times> go_error option, 'w) hook" where
  "ls_AcceptConnection an lg a w =
     (case a of (conn, err) \<Rightarrow>
        (case err of
           None \<Rightarrow> (case tcp_addrs an conn of
                      Some (loc, rem) \<Rightarrow> (None, lg Debug ''Accept connection''
                          [LString ''local_addr'', LString loc, LString ''remote_addr'', LString rem] w)
                    | None \<Rightarrow> (None, w))
         | Some e \<Rightarrow> (None, lg Error ''Accepting error'' [LString ''error'', LError e] w)))"

definition ls_ClientConnected :: "addr_names \<Rightarrow> 'w logger \<Rightarrow> (conn_ref, 'w) hook" where
  "ls_ClientConnected an lg conn w =
     (case tcp_addrs an conn of
        Some (loc, rem) \<Rightarrow> (None, lg Debug ''Accept connection''
            [LString ''local_addr'', LString loc, LString ''remote_addr'', LString rem] w)
      | None \<Rightarrow> (None, lg Debug ''Client connected'' [] w))"

definition ls_ClientDisconnected :: "'w logger \<Rightarrow> (go_error option, 'w) hook" where
  "ls_ClientDisconnected lg err w =
     (case err of
        Some e \<Rightarrow> (None, lg Error ''Client disconnected'' [LString ''err'', LError e] w)
      | None \<Rightarrow> (None, lg Debug ''Client disconnected'' [] w))"

definition ls_ErrorHandle :: "'w logger \<Rightarrow> go_error \<Rightarrow> 'w \<Rightarrow> 'w" where
  "ls_ErrorHandle lg e w = lg Error (error_text e) [] w"

definition logging_NewServer :: "addr_names \<Rightarrow> 'w logger \<Rightarrow> 'w server_plugin" where
  "logging_NewServer an lg =
     \<lparr>sp_BeforeStart = Some (ls_BeforeStart an lg), sp_AfterStart = Some (ls_AfterStart an lg),
      sp_BeforeStop = Some (ls_BeforeStop lg), sp_AfterStop = Some (ls_AfterStop lg),
      sp_AcceptConnection = Some (ls_AcceptConnection an lg), sp_ClientConnected = Some (ls_ClientConnected an lg),
      sp_ClientDisconnected = Some (ls_ClientDisconnected lg), sp_ErrorHandle = Some (ls_ErrorHandle lg)\<rparr>"

section \<open>Fields\<close>

text \<open>The list of keys and values that stands for the fields.\<close>

definition log_vars :: "(string \<times> log_var) list \<Rightarrow> log_var list" where
  "log_vars flds = concat (List.map (\<lambda>(k, v). [LString k, v]) flds)"

lemma zap_fields_vars: "zap_fields acc (log_vars flds) = acc @ flds"
  by (induction flds arbitrary: acc) (auto simp: log_vars_def)

lemma zap_fields_cases: "zap_fields acc vars = [] \<or> (\<exists>flds. vars = log_vars flds \<and> zap_fields acc vars = acc @ flds)"
proof (induction acc vars rule: zap_fields.induct)
  case (1 acc)
  then show ?case
    by (intro disjI2 exI [of _ "[]"]) (simp add: log_vars_def)
next
  case (2 acc key v vars)
  then show ?case
  proof
    assume "\<exists>flds. vars = log_vars flds \<and> zap_fields (acc @ [(key, v)]) vars = (acc @ [(key, v)]) @ flds"
    then obtain flds where "vars = log_vars flds" "zap_fields (acc @ [(key, v)]) vars = (acc @ [(key, v)]) @ flds"
      by blast
    then show ?thesis
      by (intro disjI2 exI [of _ "(key, v) # flds"]) (simp add: log_vars_def)
  qed simp
qed simp_all

lemmas client_log_defs = lc_BeforeStart_def lc_AfterStart_def lc_BeforeStop_def lc_AfterStop_def
  lc_DialServer_def lc_Connected_def lc_Disconnected_def
lemmas server_log_defs = ls_BeforeStart_def ls_AfterStart_def ls_BeforeStop_def ls_AfterStop_def
  ls_AcceptConnection_def ls_ClientConnected_def ls_ClientDisconnected_def ls_ErrorHandle_def listen_vars_def

text \<open>A hook that never returns an error leaves the results of its chain as they are.\<close>

lemma passes_through:
  "(\<And>w. fst (h a w) = None) \<Longrightarrow>
    fst (case r of (Some e, w') \<Rightarrow> (Some e, w') | (None, w') \<Rightarrow> h a w') = fst r"
  by (cases r; cases "fst r") auto

section \<open>Properties\<close>

text \<open>The fields of a zap message: a list of alternating keys and values gives exactly these
  fields, in order, and any other list (an odd one, or one with a key that is not a string) gives none,
  however many well-formed pairs it has.\<close>

lemma zap_format_fields:
  "(\<exists>flds. vars = log_vars flds \<and> zap_format vars = flds)
    \<or> (zap_format vars = [] \<and> (\<nexists>flds. vars = log_vars flds))"
  using zap_fields_cases [of "[]" vars] zap_fields_vars [of "[]"] by (auto simp: zap_format_def)

text \<open>Adding the logging plugin to a registry changes the outcome of no trigger of the client or
  the server: whatever the logger does, the error a trigger returns, or that it returns none, is the
  one of the plugins registered before.\<close>

lemma logging_is_transparent:
  "fst (cp_doBeforeStart (cp_Add (logging_NewClient lg) c) addr w) = fst (cp_doBeforeStart c addr w)
   \<and> fst (cp_doAfterStart (cp_Add (logging_NewClient lg) c) addr w) = fst (cp_doAfterStart c addr w)
   \<and> fst (cp_doBeforeStop (cp_Add (logging_NewClient lg) c) addr w) = fst (cp_doBeforeStop c addr w)
   \<and> fst (cp_doAfterStop (cp_Add (logging_NewClient lg) c) addr w) = fst (cp_doAfterStop c addr w)
   \<and> fst (cp_doDialServer (cp_Add (logging_NewClient lg) c) d w) = fst (cp_doDialServer c d w)
   \<and> fst (cp_doConnected (cp_Add (logging_NewClient lg) c) x w) = fst (cp_doConnected c x w)
   \<and> fst (cp_doDisconnected (cp_Add (logging_NewClient lg) c) y w) = fst (cp_doDisconnected c y w)
   \<and> fst (sp_doBeforeStart (sp_Add (logging_NewServer an lg) s) l w) = fst (sp_doBeforeStart s l w)
   \<and> fst (sp_doAfterStart (sp_Add (logging_NewServer an lg) s) l w) = fst (sp_doAfterStart s l w)
   \<and> fst (sp_doBeforeStop (sp_Add (logging_NewServer an lg) s) l w) = fst (sp_doBeforeStop s l w)
   \<and> fst (sp_doAfterStop (sp_Add (logging_NewServer an lg) s) l w) = fst (sp_doAfterStop s l w)
   \<and> fst (sp_doAcceptConnection (sp_Add (logging_NewServer an lg) s) q w) = fst (sp_doAcceptConnection s q w)
   \<and> fst (sp_doClientConnected (sp_Add (logging_NewServer an lg) s) k w) = fst (sp_doClientConnected s k w)
   \<and> fst (sp_doClientDisconnected (sp_Add (logging_NewServer an lg) s) e w) = fst (sp_doClientDisconnected s e w)"
  unfolding cBeforeStart.fire_add cAfterStart.fire_add cBeforeStop.fire_add cAfterStop.fire_add
    cDialServer.fire_add cConnected.fire_add cDisconnected.fire_add sBeforeStart.fire_add sAfterStart.fire_add
    sBeforeStop.fire_add sAfterStop.fire_add sAcceptConnection.fire_add sClientConnected.fire_add sClientDisconnected.fire_add
  by (intro conjI)
    (simp_all add: logging_NewClient_def logging_NewServer_def passes_through client_log_defs server_log_defs
      split: prod.split option.split)

end
