(* ===== verification/Codec_Msgp.thy ===== *)
theory Codec_Msgp
  imports Codec
begin

text \<open>
  \<^verbatim>\<open>codec/msgp/msgp.go\<close>: the codec that switches on the dynamic type of the value it encodes and
  of the target it decodes into. The functions of the msgp package are parameters: for each type
  the one that appends a value to a buffer and the one that reads a value off a buffer, and the
  methods of the types that marshal themselves. \<^verbatim>\<open>Require\<close> only grows the capacity of the buffer.
\<close>

section \<open>The package\<close>

record 'a prim =
  Append :: "byte list \<Rightarrow> 'a \<Rightarrow> byte list"
  Read :: "byte list \<Rightarrow> 'a \<times> byte list \<times> go_error option"

text \<open>
  Values of a type \<open>'m\<close> marshal and unmarshal themselves; \<open>TypeOf\<close> is their Go type. Floats are
  their bit patterns, times are of a type \<open>'t\<close>. Of \<^verbatim>\<open>int16\<close> the code uses only the reading half.
\<close>

record ('m, 't) msgp_lib =
  TypeOf :: "'m \<Rightarrow> string"
  MarshalMsg :: "'m \<Rightarrow> byte list \<Rightarrow> go_error + byte list"
  UnmarshalMsg :: "'m \<Rightarrow> byte list \<Rightarrow> 'm \<times> byte list \<times> go_error option"
  m_bool :: "bool prim"
  m_complex128 :: "(64 word \<times> 64 word) prim"
  m_complex64 :: "(32 word \<times> 32 word) prim"
  m_float64 :: "64 word prim"
  m_float32 :: "32 word prim"
  m_int :: "64 word prim"
  m_int64 :: "64 word prim"
  m_int32 :: "32 word prim"
  m_int16 :: "16 word prim"
  m_int8 :: "8 word prim"
  m_string :: "string prim"
  m_uint :: "64 word prim"
  m_uint64 :: "64 word prim"
  m_uint32 :: "32 word prim"
  m_uint16 :: "16 word prim"
  m_uint8 :: "8 word prim"
  AppendBytes :: "byte list \<Rightarrow> byte list \<Rightarrow> byte list"
  ReadBytesBytes :: "byte list \<Rightarrow> byte list \<Rightarrow> byte list \<times> byte list \<times> go_error option"
  m_time :: "'t prim"

section \<open>Values\<close>

text \<open>
  What an \<^verbatim>\<open>interface{}\<close> holds, by the first case of the switch it meets; a target is a pointer to
  such a value. \<open>VError\<close> is any other type with an \<^verbatim>\<open>Error\<close> method, \<open>VOther\<close> a type that meets no case.
\<close>

datatype ('m, 't) go_val =
    VMarshaler 'm
  | VBool bool
  | VComplex128 "64 word \<times> 64 word"
  | VComplex64 "32 word \<times> 32 word"
  | VFloat64 "64 word"
  | VFloat32 "32 word"
  | VInt "64 word"
  | VInt64 "64 word"
  | VInt32 "32 word"
  | VInt16 "16 word"
  | VInt8 "8 word"
  | VString string
  | VUint "64 word"
  | VUint64 "64 word"
  | VUint32 "32 word"
  | VUint16 "16 word"
  | VUint8 "8 word"
  | VBytes "byte list"
  | VTime 't
  | VDuration "64 word"
  | VError string
  | VOther string

definition no_marshaler :: "string \<Rightarrow> go_error" where
  "no_marshaler ty = ErrorString (''source should implement msgp.Marshaler interface but '' @ ty @ '' given'')"

definition no_unmarshaler :: "string \<Rightarrow> go_error" where
  "no_unmarshaler ty = ErrorString (''source should implement msgp.Unmarshaler interface but '' @ ty @ '' given'')"

section \<open>Encode and Decode\<close>

fun msgp_Encode :: "('m, 't) msgp_lib \<Rightarrow> ('m, 't) go_val \<Rightarrow> go_error + byte list" where
  "msgp_Encode L (VMarshaler m) = MarshalMsg L m []"
| "msgp_Encode L (VBool v) = Inr (Append (m_bool L) [] v)"
| "msgp_Encode L (VComplex128 v) = Inr (Append (m_complex128 L) [] v)"
| "msgp_Encode L (VComplex64 v) = Inr (Append (m_complex64 L) [] v)"
| "msgp_Encode L (VFloat64 v) = Inr (Append (m_float64 L) [] v)"
| "msgp_Encode L (VFloat32 v) = Inr (Append (m_float32 L) [] v)"
| "msgp_Encode L (VInt v) = Inr (Append (m_int L) [] v)"
| "msgp_Encode L (VInt64 v) = Inr (Append (m_int64 L) [] v)"
| "msgp_Encode L (VInt32 v) = Inr (Append (m_int32 L) [] v)"
| "msgp_Encode L (VInt16 v) = Inl (no_marshaler ''int16'')"
| "msgp_Encode L (VInt8 v) = Inr (Append (m_int8 L) [] v)"
| "msgp_Encode L (VString v) = Inr (Append (m_string L) [] v)"
| "msgp_Encode L (VUint v) = Inr (Append (m_uint L) [] v)"
| "msgp_Encode L (VUint64 v) = Inr (Append (m_uint64 L) [] v)"
| "msgp_Encode L (VUint32 v) = Inr (Append (m_uint32 L) [] v)"
| "msgp_Encode L (VUint16 v) = Inr (Append (m_uint16 L) [] v)"
| "msgp_Encode L (VUint8 v) = Inr (Append (m_uint8 L) [] v)"
| "msgp_Encode L (VBytes v) = Inr (AppendBytes L [] v)"
| "msgp_Encode L (VTime v) = Inr (Append (m_time L) [] v)"
| "msgp_Encode L (VDuration v) = Inr (Append (m_int64 L) [] v)"
| "msgp_Encode L (VError msg) = Inr (Append (m_string L) [] msg)"
| "msgp_Encode L (VOther ty) = Inl (no_marshaler ty)"

text \<open>The value read is stored even with an error; what follows it is dropped.\<close>

definition read_into :: "('a \<Rightarrow> 'b) \<Rightarrow> 'a \<times> byte list \<times> go_error option \<Rightarrow> 'b \<times> go_error option" where
  "read_into f r = (case r of (v, raw, e) \<Rightarrow> (f v, e))"

text \<open>Only the local variable of the switch is assigned for an error.\<close>

fun msgp_Decode ::
    "('m, 't) msgp_lib \<Rightarrow> byte list \<Rightarrow> ('m, 't) go_val \<Rightarrow> ('m, 't) go_val \<times> go_error option" where
  "msgp_Decode L raw (VMarshaler m) = read_into VMarshaler (UnmarshalMsg L m raw)"
| "msgp_Decode L raw (VBool v) = read_into VBool (Read (m_bool L) raw)"
| "msgp_Decode L raw (VComplex128 v) = read_into VComplex128 (Read (m_complex128 L) raw)"
| "msgp_Decode L raw (VComplex64 v) = read_into VComplex64 (Read (m_complex64 L) raw)"
| "msgp_Decode L raw (VFloat64 v) = read_into VFloat64 (Read (m_float64 L) raw)"
| "msgp_Decode L raw (VFloat32 v) = read_into VFloat32 (Read (m_float32 L) raw)"
| "msgp_Decode L raw (VInt v) = read_into VInt (Read (m_int L) raw)"
| "msgp_Decode L raw (VInt64 v) = read_into VInt64 (Read (m_int64 L) raw)"
| "msgp_Decode L raw (VInt32 v) = read_into VInt32 (Read (m_int32 L) raw)"
| "msgp_Decode L raw (VInt16 v) = read_into VInt16 (Read (m_int16 L) raw)"
| "msgp_Decode L raw (VInt8 v) = read_into VInt8 (Read (m_int8 L) raw)"
| "msgp_Decode L raw (VString v) = read_into VString (Read (m_string L) raw)"
| "msgp_Decode L raw (VUint v) = read_into VUint (Read (m_uint L) raw)"
| "msgp_Decode L raw (VUint64 v) = read_into VUint64 (Read (m_uint64 L) raw)"
| "msgp_Decode L raw (VUint32 v) = read_into VUint32 (Read (m_uint32 L) raw)"
| "msgp_Decode L raw (VUint16 v) = read_into VUint16 (Read (m_uint16 L) raw)"
| "msgp_Decode L raw (VUint8 v) = read_into VUint8 (Read (m_uint8 L) raw)"
| "msgp_Decode L raw (VBytes v) = read_into VBytes (ReadBytesBytes L raw v)"
| "msgp_Decode L raw (VTime v) = read_into VTime (Read (m_time L) raw)"
| "msgp_Decode L raw (VDuration v) = read_into VDuration (Read (m_int64 L) raw)"
| "msgp_Decode L raw (VError msg) = read_into (\<lambda>_. VError msg) (Read (m_string L) raw)"
| "msgp_Decode L raw (VOther ty) = (VOther ty, Some (no_unmarshaler (''*'' @ ty)))"

definition msgp_codec :: "('m, 't) msgp_lib \<Rightarrow> ('m, 't) go_val codec" where
  "msgp_codec L = \<lparr>Encode = msgp_Encode L, Decode = msgp_Decode L\<rparr>"

section \<open>What the calls rely on\<close>

text \<open>The function that reads gives back what the one that appends was given, for the values \<open>S\<close>.\<close>

definition prim_ok :: "'a prim \<Rightarrow> 'a set \<Rightarrow> bool" where
  "prim_ok p S \<longleftrightarrow> (\<forall>v\<in>S. \<forall>rest. Read p (Append p [] v @ rest) = (v, rest, None))"

text \<open>
  The documentation of the package: strings and byte slices have a length of 32 bits; a time comes
  back in the local zone, so \<open>T\<close> are the times that are in it; \<open>M\<close> are the values whose methods
  are inverse to each other, as the generated ones are. Unmarshalling does not change a type.
\<close>

definition msgp_laws :: "('m, 't) msgp_lib \<Rightarrow> 'm set \<Rightarrow> 't set \<Rightarrow> bool" where
  "msgp_laws L M T \<longleftrightarrow>
     prim_ok (m_bool L) UNIV \<and> prim_ok (m_complex128 L) UNIV \<and> prim_ok (m_complex64 L) UNIV
     \<and> prim_ok (m_float64 L) UNIV \<and> prim_ok (m_float32 L) UNIV \<and> prim_ok (m_int L) UNIV
     \<and> prim_ok (m_int64 L) UNIV \<and> prim_ok (m_int32 L) UNIV \<and> prim_ok (m_int8 L) UNIV
     \<and> prim_ok (m_string L) {s. length s < 2 ^ 32} \<and> prim_ok (m_uint L) UNIV \<and> prim_ok (m_uint64 L) UNIV
     \<and> prim_ok (m_uint32 L) UNIV \<and> prim_ok (m_uint16 L) UNIV \<and> prim_ok (m_uint8 L) UNIV
     \<and> (\<forall>v old rest. length v < 2 ^ 32 \<longrightarrow> ReadBytesBytes L (AppendBytes L [] v @ rest) old = (v, rest, None))
     \<and> prim_ok (m_time L) T
     \<and> (\<forall>m\<in>M. \<exists>raw. MarshalMsg L m [] = Inr raw
          \<and> (\<forall>t rest. TypeOf L t = TypeOf L m \<longrightarrow> UnmarshalMsg L t (raw @ rest) = (m, rest, None)))
     \<and> (\<forall>m raw. TypeOf L (fst (UnmarshalMsg L m raw)) = TypeOf L m)"

text \<open>The values the codec takes both ways.\<close>

fun both_ways :: "'m set \<Rightarrow> 't set \<Rightarrow> ('m, 't) go_val \<Rightarrow> bool" where
  "both_ways M T (VMarshaler m) \<longleftrightarrow> m \<in> M"
| "both_ways M T (VString s) \<longleftrightarrow> length s < 2 ^ 32"
| "both_ways M T (VBytes v) \<longleftrightarrow> length v < 2 ^ 32"
| "both_ways M T (VTime t) \<longleftrightarrow> t \<in> T"
| "both_ways M T (VInt16 _) \<longleftrightarrow> False"
| "both_ways M T (VError _) \<longleftrightarrow> False"
| "both_ways M T (VOther _) \<longleftrightarrow> False"
| "both_ways M T _ \<longleftrightarrow> True"

inductive same_type :: "('m, 't) msgp_lib \<Rightarrow> ('m, 't) go_val \<Rightarrow> ('m, 't) go_val \<Rightarrow> bool" for L where
  st_marshaler: "TypeOf L t = TypeOf L m \<Longrightarrow> same_type L (VMarshaler t) (VMarshaler m)"
| st_bool: "same_type L (VBool a) (VBool b)"
| st_complex128: "same_type L (VComplex128 x) (VComplex128 y)"
| st_complex64: "same_type L (VComplex64 x') (VComplex64 y')"
| st_float64: "same_type L (VFloat64 w) (VFloat64 v)"
| st_float32: "same_type L (VFloat32 w') (VFloat32 v')"
| st_int: "same_type L (VInt w) (VInt v)"
| st_int64: "same_type L (VInt64 w) (VInt64 v)"
| st_int32: "same_type L (VInt32 w') (VInt32 v')"
| st_int16: "same_type L (VInt16 w2) (VInt16 v2)"
| st_int8: "same_type L (VInt8 w1) (VInt8 v1)"
| st_string: "same_type L (VString s) (VString s')"
| st_uint: "same_type L (VUint w) (VUint v)"
| st_uint64: "same_type L (VUint64 w) (VUint64 v)"
| st_uint32: "same_type L (VUint32 w') (VUint32 v')"
| st_uint16: "same_type L (VUint16 w2) (VUint16 v2)"
| st_uint8: "same_type L (VUint8 w1) (VUint8 v1)"
| st_bytes: "same_type L (VBytes bs) (VBytes bs')"
| st_time: "same_type L (VTime z) (VTime z')"
| st_duration: "same_type L (VDuration w) (VDuration v)"
| st_error: "same_type L (VError s) (VError s')"
| st_other: "same_type L (VOther ty) (VOther ty)"

declare same_type.intros [intro]

lemma prim_okD: "prim_ok p S \<Longrightarrow> v \<in> S \<Longrightarrow> Read p (Append p [] v) = (v, [], None)"
  unfolding prim_ok_def by (metis append_Nil2)

lemma prim_ok_UNIV: "prim_ok p UNIV \<Longrightarrow> Read p (Append p [] v) = (v, [], None)"
  by (simp add: prim_okD)

text \<open>What the laws give, case by case.\<close>

lemma msgp_reads:
  assumes "msgp_laws L M T"
  shows "Read (m_bool L) (Append (m_bool L) [] b) = (b, [], None)"
    "Read (m_complex128 L) (Append (m_complex128 L) [] x) = (x, [], None)"
    "Read (m_complex64 L) (Append (m_complex64 L) [] y) = (y, [], None)"
    "Read (m_float64 L) (Append (m_float64 L) [] w) = (w, [], None)"
    "Read (m_float32 L) (Append (m_float32 L) [] w') = (w', [], None)"
    "Read (m_int L) (Append (m_int L) [] w) = (w, [], None)"
    "Read (m_int64 L) (Append (m_int64 L) [] w) = (w, [], None)"
    "Read (m_int32 L) (Append (m_int32 L) [] w') = (w', [], None)"
    "Read (m_int8 L) (Append (m_int8 L) [] w1) = (w1, [], None)"
    "Read (m_uint L) (Append (m_uint L) [] w) = (w, [], None)"
    "Read (m_uint64 L) (Append (m_uint64 L) [] w) = (w, [], None)"
    "Read (m_uint32 L) (Append (m_uint32 L) [] w') = (w', [], None)"
    "Read (m_uint16 L) (Append (m_uint16 L) [] w2) = (w2, [], None)"
    "Read (m_uint8 L) (Append (m_uint8 L) [] w1) = (w1, [], None)"
    "length s < 2 ^ 32 \<Longrightarrow> Read (m_string L) (Append (m_string L) [] s) = (s, [], None)"
    "z \<in> T \<Longrightarrow> Read (m_time L) (Append (m_time L) [] z) = (z, [], None)"
  using assms unfolding msgp_laws_def by (auto intro: prim_ok_UNIV prim_okD)

lemma msgp_read_bytes:
  "msgp_laws L M T \<Longrightarrow> length v < 2 ^ 32 \<Longrightarrow> ReadBytesBytes L (AppendBytes L [] v) old = (v, [], None)"
  unfolding msgp_laws_def by (metis append_Nil2)

lemma msgp_read_marshaler:
  assumes "msgp_laws L M T" "m \<in> M"
  obtains raw where "MarshalMsg L m [] = Inr raw" "\<And>t. TypeOf L t = TypeOf L m \<Longrightarrow> UnmarshalMsg L t raw = (m, [], None)"
  using assms unfolding msgp_laws_def by (metis append_Nil2)


lemma msgp_both_ways:
  assumes laws: "msgp_laws L M T" and "both_ways M T v" and "same_type L t v"
  shows "\<exists>raw. msgp_Encode L v = Inr raw \<and> msgp_Decode L raw t = (v, None)"
  using assms(3,2)
proof cases
  case (st_marshaler m' m)
  moreover from this obtain raw where "MarshalMsg L m [] = Inr raw"
      "\<And>t. TypeOf L t = TypeOf L m \<Longrightarrow> UnmarshalMsg L t raw = (m, [], None)"
    using assms(2) msgp_read_marshaler [OF laws, of m] by auto
  ultimately show ?thesis
    by (simp add: read_into_def)
qed (simp_all add: read_into_def msgp_reads [OF laws] msgp_read_bytes [OF laws])


lemma msgp_fits: "msgp_laws L M T \<Longrightarrow> both_ways M T v \<Longrightarrow> same_type L t v \<Longrightarrow> fits (msgp_codec L) t v"
  using msgp_both_ways [of L M T v t] by (auto simp: fits_def raw_of_def msgp_codec_def)

lemma same_type_refl: "same_type L v v"
  by (cases v) auto

lemma msgp_encodable:
  assumes "msgp_laws L M T" "\<And>v. v \<in> V \<Longrightarrow> both_ways M T v \<and> frame_ok (raw_of (msgp_codec L) v)"
  shows "encodable (msgp_codec L) V"
  unfolding encodable_def
proof
  fix v
  assume "v \<in> V"
  from assms(2) [OF this] show "\<exists>raw. Encode (msgp_codec L) v = Inr raw \<and> frame_ok raw"
    using msgp_both_ways [OF assms(1), of v v] by (auto simp: raw_of_def msgp_codec_def same_type_refl)
qed

section \<open>A package\<close>

text \<open>A concrete package that meets the laws: words in eight bytes, the others in frames.\<close>

definition word_prim :: "'a :: len word prim" where
  "word_prim = \<lparr>Append = (\<lambda>raw w. raw @ be_put (ucast w)),
     Read = (\<lambda>raw. case read_u64 (buffer_reader raw) of
               (Inl e, rd) \<Rightarrow> (0, rd_data rd, Some e)
             | (Inr n, rd) \<Rightarrow> (ucast n, rd_data rd, None))\<rparr>"

definition frame_prim :: "byte list prim" where
  "frame_prim = \<lparr>Append = (\<lambda>raw v. raw @ put_frame v),
     Read = (\<lambda>raw. case read_frame (buffer_reader raw) of
               (Inl e, rd) \<Rightarrow> ([], rd_data rd, Some e)
             | (Inr v, rd) \<Rightarrow> (v, rd_data rd, None))\<rparr>"

definition iso_prim :: "('a \<Rightarrow> 'b) \<Rightarrow> ('b \<Rightarrow> 'a) \<Rightarrow> 'a prim \<Rightarrow> 'b prim" where
  "iso_prim f g p = \<lparr>Append = (\<lambda>raw v. Append p raw (g v)), Read = (\<lambda>raw. case Read p raw of (v, rest, e) \<Rightarrow> (f v, rest, e))\<rparr>"

definition pair_prim :: "'a prim \<Rightarrow> 'b prim \<Rightarrow> ('a \<times> 'b) prim" where
  "pair_prim p q = \<lparr>Append = (\<lambda>raw v. Append p raw (fst v) @ Append q [] (snd v)),
     Read = (\<lambda>raw. case Read p raw of (a, r1, e1) \<Rightarrow> (case Read q r1 of (b, r2, e2) \<Rightarrow>
              ((a, b), r2, if e1 = None then e2 else e1)))\<rparr>"

lemma word_prim_ok: "LENGTH('a) \<le> 64 \<Longrightarrow> prim_ok (word_prim :: 'a :: len word prim) UNIV"
  by (simp add: prim_ok_def word_prim_def buffer_reader_def ucast_down_ucast_id is_down)

lemma frame_prim_ok: "prim_ok frame_prim {v. frame_ok v}"
  by (simp add: prim_ok_def frame_prim_def buffer_reader_def read_frame_put)

lemma iso_prim_ok: "prim_ok p S \<Longrightarrow> g ` S' \<subseteq> S \<Longrightarrow> (\<And>v. v \<in> S' \<Longrightarrow> f (g v) = v) \<Longrightarrow> prim_ok (iso_prim f g p) S'"
  by (auto simp: prim_ok_def iso_prim_def)

lemma pair_prim_ok: "prim_ok p UNIV \<Longrightarrow> prim_ok q UNIV \<Longrightarrow> prim_ok (pair_prim p q) UNIV"
  by (auto simp: prim_ok_def pair_prim_def)

definition toy_msgp :: "(8 word, 64 word) msgp_lib" where
  "toy_msgp = \<lparr>TypeOf = (\<lambda>_. ''T''), MarshalMsg = (\<lambda>m raw. Inr (Append word_prim raw m)), UnmarshalMsg = (\<lambda>_. Read word_prim),
     m_bool = iso_prim (\<lambda>w. w = 1) (\<lambda>b. if b then 1 else 0) (word_prim :: 8 word prim),
     m_complex128 = pair_prim word_prim word_prim, m_complex64 = pair_prim word_prim word_prim,
     m_float64 = word_prim, m_float32 = word_prim, m_int = word_prim, m_int64 = word_prim, m_int32 = word_prim,
     m_int16 = word_prim, m_int8 = word_prim, m_string = iso_prim string_of_bytes bytes_of_string frame_prim,
     m_uint = word_prim, m_uint64 = word_prim, m_uint32 = word_prim, m_uint16 = word_prim, m_uint8 = word_prim,
     AppendBytes = Append frame_prim, ReadBytesBytes = (\<lambda>raw _. Read frame_prim raw), m_time = word_prim\<rparr>"

lemma toy_msgp_laws: "msgp_laws toy_msgp UNIV UNIV"
proof -
  have w: "prim_ok (word_prim :: 64 word prim) UNIV" "prim_ok (word_prim :: 32 word prim) UNIV"
      "prim_ok (word_prim :: 16 word prim) UNIV" "prim_ok (word_prim :: 8 word prim) UNIV"
    by (simp_all add: word_prim_ok)
  have b: "prim_ok (iso_prim (\<lambda>w. w = 1) (\<lambda>b. if b then 1 else 0) (word_prim :: 8 word prim)) UNIV"
    using w(4) by (rule iso_prim_ok) auto
  have s: "prim_ok (iso_prim string_of_bytes bytes_of_string frame_prim) {s. length s < 2 ^ 32}"
    using frame_prim_ok by (rule iso_prim_ok) (auto simp: frame_ok_def)
  have m: "Read word_prim (Append word_prim [] m @ rest) = (m, rest, None)" for m :: "8 word" and rest
    using w(4) by (simp add: prim_ok_def)
  have v: "Read frame_prim (Append frame_prim [] v @ rest) = (v, rest, None)" if "length v < 2 ^ 32" for v rest
    using frame_prim_ok that by (simp add: prim_ok_def frame_ok_def)
  show ?thesis
    unfolding msgp_laws_def toy_msgp_def using w b s m v by (simp add: pair_prim_ok)
qed

section \<open>Properties\<close>

text \<open>C24: What the codec encodes it decodes: a value of any of the types it takes both ways comes
  back, without an error, from its own bytes into a target of the same type, whatever the
  target held before.\<close>

theorem msgp_round_trip:
  assumes "msgp_laws L M T" "both_ways M T v" "same_type L t v"
  shows "\<exists>raw. Encode (msgp_codec L) v = Inr raw \<and> Decode (msgp_codec L) raw t = (v, None)"
  using msgp_both_ways [OF assms] by (simp add: msgp_codec_def)

lemma msgp_round_trip_witness:
  "\<exists>raw. Encode (msgp_codec toy_msgp) (VString ''abc'') = Inr raw
    \<and> Decode (msgp_codec toy_msgp) raw (VString ''old'') = (VString ''abc'', None)"
  by (rule msgp_round_trip [OF toy_msgp_laws]) (simp_all add: st_string)



text \<open>The two switches do not cover the same types. Encoding fails exactly for \<^verbatim>\<open>int16\<close>, for a
  type that is in no case and where a value's own method fails, although an \<^verbatim>\<open>int16\<close> can be decoded;
  an error is encoded as its text, and decoding into one drops what was read: the target is
  as it was and no error is reported.\<close>

lemma msgp_switches_differ:
  "((\<exists>e. Encode (msgp_codec L) v = Inl e) \<longleftrightarrow>
      (\<exists>i. v = VInt16 i) \<or> (\<exists>ty. v = VOther ty) \<or> (\<exists>m e. v = VMarshaler m \<and> MarshalMsg L m [] = Inl e))
   \<and> Decode (msgp_codec L) raw (VInt16 i) = (VInt16 (fst (Read (m_int16 L) raw)), snd (snd (Read (m_int16 L) raw)))
   \<and> Encode (msgp_codec L) (VError msg) = Encode (msgp_codec L) (VString msg)
   \<and> Decode (msgp_codec L) raw (VError msg) = (VError msg, snd (snd (Read (m_string L) raw)))"
  by (cases v) (simp_all add: msgp_codec_def read_into_def split: prod.splits)

end
