(* ===== verification/Codec_Wrappers.thy ===== *)
theory Codec_Wrappers
  imports Codec
begin

text \<open>
  The other codecs: \<^verbatim>\<open>codec/byte\<close> and \<^verbatim>\<open>codec/easyjson\<close> ask a value for an interface and refuse it when
  it has none; \<^verbatim>\<open>codec/json\<close> and \<^verbatim>\<open>codec/xdr\<close> hand over to their packages. The type assertions,
  the methods of the values and the functions of the packages are parameters.
\<close>

section \<open>Type assertions\<close>

definition byte_Encode :: "('v \<Rightarrow> (go_error + byte list) option) \<Rightarrow> 'v \<Rightarrow> go_error + byte list" where
  "byte_Encode as_Encoder v =
     (case as_Encoder v of
        None \<Rightarrow> Inl (ErrorString ''source should implement Encoder interface'')
      | Some r \<Rightarrow> r)"

definition byte_Decode ::
    "('v \<Rightarrow> (byte list \<Rightarrow> 'v \<times> go_error option) option) \<Rightarrow> byte list \<Rightarrow> 'v \<Rightarrow> 'v \<times> go_error option" where
  "byte_Decode as_Decoder raw t =
     (case as_Decoder t of
        None \<Rightarrow> (t, Some (ErrorString ''target should implement Decoder interface''))
      | Some d \<Rightarrow> d raw)"

definition easyjson_Encode :: "('v \<Rightarrow> 'm option) \<Rightarrow> ('m \<Rightarrow> go_error + byte list) \<Rightarrow> 'v \<Rightarrow> go_error + byte list" where
  "easyjson_Encode as_Marshaler Marshal v =
     (case as_Marshaler v of
        None \<Rightarrow> Inl (ErrorString ''source should implement easyjson.Marshaler interface'')
      | Some m \<Rightarrow> Marshal m)"

definition easyjson_Decode ::
    "('v \<Rightarrow> 'u option) \<Rightarrow> (byte list \<Rightarrow> 'u \<Rightarrow> 'v \<times> go_error option) \<Rightarrow> byte list \<Rightarrow> 'v \<Rightarrow> 'v \<times> go_error option" where
  "easyjson_Decode as_Unmarshaler Unmarshal raw t =
     (case as_Unmarshaler t of
        None \<Rightarrow> (t, Some (ErrorString ''source should implement easyjson.Unmarshaler interface''))
      | Some u \<Rightarrow> Unmarshal raw u)"

section \<open>Packages\<close>

definition json_Encode :: "('v \<Rightarrow> go_error + byte list) \<Rightarrow> 'v \<Rightarrow> go_error + byte list" where
  "json_Encode Marshal v = (case Marshal v of Inl e \<Rightarrow> Inl e | Inr raw \<Rightarrow> Inr raw)"

definition json_Decode :: "(byte list \<Rightarrow> 'v \<Rightarrow> 'v \<times> go_error option) \<Rightarrow> byte list \<Rightarrow> 'v \<Rightarrow> 'v \<times> go_error option" where
  "json_Decode Unmarshal raw t = (case Unmarshal raw t of (t', Some e) \<Rightarrow> (t', Some e) | (t', None) \<Rightarrow> (t', None))"

text \<open>What is left of the input is dropped.\<close>

definition xdr_Encode :: "('v \<Rightarrow> go_error + byte list) \<Rightarrow> 'v \<Rightarrow> go_error + byte list" where
  "xdr_Encode Marshal v = (case Marshal v of Inl e \<Rightarrow> Inl e | Inr raw \<Rightarrow> Inr raw)"

definition xdr_Decode ::
    "(byte list \<Rightarrow> 'v \<Rightarrow> 'v \<times> byte list \<times> go_error option) \<Rightarrow> byte list \<Rightarrow> 'v \<Rightarrow> 'v \<times> go_error option" where
  "xdr_Decode Unmarshal raw t = (case Unmarshal raw t of (t', rest, Some e) \<Rightarrow> (t', Some e) | (t', rest, None) \<Rightarrow> (t', None))"

section \<open>As codecs\<close>

definition byte_codec ::
    "('v \<Rightarrow> (go_error + byte list) option) \<Rightarrow> ('v \<Rightarrow> (byte list \<Rightarrow> 'v \<times> go_error option) option) \<Rightarrow> 'v codec" where
  "byte_codec as_Encoder as_Decoder = \<lparr>Encode = byte_Encode as_Encoder, Decode = byte_Decode as_Decoder\<rparr>"

definition easyjson_codec ::
    "('v \<Rightarrow> 'm option) \<Rightarrow> ('m \<Rightarrow> go_error + byte list) \<Rightarrow> ('v \<Rightarrow> 'u option) \<Rightarrow> (byte list \<Rightarrow> 'u \<Rightarrow> 'v \<times> go_error option)
      \<Rightarrow> 'v codec" where
  "easyjson_codec as_Marshaler Marshal as_Unmarshaler Unmarshal =
     \<lparr>Encode = easyjson_Encode as_Marshaler Marshal, Decode = easyjson_Decode as_Unmarshaler Unmarshal\<rparr>"

text \<open>The values and targets the two asserting codecs take.\<close>

lemma byte_codec_encodable:
  "encodable (byte_codec as_Encoder as_Decoder) V \<longleftrightarrow> (\<forall>v\<in>V. \<exists>raw. as_Encoder v = Some (Inr raw) \<and> frame_ok raw)"
  by (auto simp: encodable_def byte_codec_def byte_Encode_def split: option.splits) force+

lemma byte_codec_fits:
  "as_Encoder v = Some (Inr raw) \<Longrightarrow>
    fits (byte_codec as_Encoder as_Decoder) t v \<longleftrightarrow> (\<exists>d. as_Decoder t = Some d \<and> d raw = (v, None))"
  by (auto simp: fits_def raw_of_def byte_codec_def byte_Encode_def byte_Decode_def split: option.splits)

lemma easyjson_codec_encodable:
  "encodable (easyjson_codec as_M Marshal as_U Unmarshal) V
    \<longleftrightarrow> (\<forall>v\<in>V. \<exists>m raw. as_M v = Some m \<and> Marshal m = Inr raw \<and> frame_ok raw)"
  by (auto simp: encodable_def easyjson_codec_def easyjson_Encode_def split: option.splits)

lemma easyjson_codec_fits:
  "as_M v = Some m \<Longrightarrow> Marshal m = Inr raw \<Longrightarrow>
    fits (easyjson_codec as_M Marshal as_U Unmarshal) t v \<longleftrightarrow> (\<exists>u. as_U t = Some u \<and> Unmarshal raw u = (v, None))"
  by (auto simp: fits_def raw_of_def easyjson_codec_def easyjson_Encode_def easyjson_Decode_def split: option.splits)

end
