(* ===== verification/Spec2Isabelle.thy ===== *)
theory Spec2Isabelle
  imports Link_Props Client_Whole_Props Server_Whole_Props Transport Selector_Runs Discovery Keepalive Logging Codec_Msgp Codec_Wrappers
begin

text \<open>
  A library for remote procedure calls over a stream of bytes: a client encodes a call as an
  id, the method's name and its arguments; a server reads it, calls the method by reflection
  and answers with the id, an error text and the results; a selector keeps a client per service
  a registry reports. Everything below is translated from the files under \<^verbatim>\<open>src/\<close>.

  \<^bold>\<open>How the parts interact.\<close> A caller puts a request object into the client's queue and waits on
  its channel. The connection's writer takes it, gives it an id, enters it into the table of
  pending requests and writes it; the reader takes responses, looks the id up, lets the request
  object read the response and signals the channel. On the server a reader builds a request
  object per message and starts a goroutine for it, which dispatches to the method table and
  hands the object to the writer. Both ends run under a lifecycle (\<^verbatim>\<open>Start\<close>, \<^verbatim>\<open>Stop\<close>) that calls
  plugins. The selector starts and stops clients and chooses one by chance, in turn, or by a
  consistent hash.

  \<^bold>\<open>The wire and the values.\<close>
    \<^item> \<open>Prelude\<close>: Go errors, the result of an operation that may fail, panic or block (\<open>res\<close>),
      decimal numerals, Go's remainder, and the locale \<open>machine_invariant\<close> with the reachable
      states of a step relation (\<open>reaches\<close>) that every machine below interprets.
    \<^item> \<open>Go_IO\<close>: readers (the bytes still to come and how they end) and writers (the bytes
      written, how many more are accepted), \<open>io.ReadFull\<close>, \<open>io.CopyN\<close>, \<open>binary.BigEndian\<close>. The
      locale \<open>prefix_codec\<close> is the contract of a self-delimiting format; a pair of such formats
      is one (\<open>pair_codec\<close>, a sublocale), and ids, frames, requests and responses are its
      interpretations.
    \<^item> \<open>Codec\<close> (\<^verbatim>\<open>codec/codec.go\<close>): the interface, and what a proof may assume of a codec:
      \<open>encodable cd V\<close> (the values of \<open>V\<close> are encoded without an error, into a frame) and
      \<open>fits cd t v\<close> (the bytes of \<open>v\<close>, decoded into a target that held \<open>t\<close>, give \<open>v\<close>).
      \<open>Codec_Msgp\<close> (\<^verbatim>\<open>codec/msgp/msgp.go\<close>) proves both for the two type switches;
      \<open>Codec_Wrappers\<close> has \<^verbatim>\<open>byte\<close>, \<^verbatim>\<open>easyjson\<close>, \<^verbatim>\<open>json\<close> and \<^verbatim>\<open>xdr\<close>.
    \<^item> \<open>Client_Request\<close> (\<^verbatim>\<open>client_request.go\<close>) and \<open>Server_Request\<close> (\<^verbatim>\<open>server_request.go\<close>): the two
      request objects, what they write and what they make of any bytes, errors included.
    \<^item> \<open>Server_Method\<close> (\<^verbatim>\<open>server_method.go\<close>, \<^verbatim>\<open>server_handler.go\<close>) and \<open>Server_Handle\<close>
      (\<^verbatim>\<open>handleRequest\<close> and \<^verbatim>\<open>Handler\<close> of \<^verbatim>\<open>server.go\<close>): the table, dispatch on every branch, and what
      becomes of a request whose method returns, fails or panics.
    \<^item> \<open>Rpc\<close>: the exchange of one request composed of these functions, and its equality with a
      direct call of the method.

  \<^bold>\<open>The two ends of a connection.\<close> \<open>Client_Conn\<close> (\<^verbatim>\<open>handleConnection\<close>, \<^verbatim>\<open>connectionReader\<close>,
  \<^verbatim>\<open>connectionWriter\<close>, \<^verbatim>\<open>call\<close>, \<^verbatim>\<open>send\<close> of \<^verbatim>\<open>client.go\<close>) and \<open>Server_Conn\<close> (the same of \<^verbatim>\<open>server.go\<close>)
  are step relations \<open>cstep\<close> and \<open>sstep\<close>: a step is what one goroutine does between two points at
  which another can see the difference, that is a channel operation, a region under a lock, a
  read or a write; each body is a function of its own. Request objects that several goroutines
  share live in a store. The network is a step that replaces what will be read and how much will
  still be written. \<open>Client_Conn_Inv\<close> and \<open>Server_Conn_Inv\<close> prove the invariants step by step and
  interpret \<open>machine_invariant\<close>; \<open>Client_Conn_Live\<close> and \<open>Server_Conn_Live\<close> hold what follows:
  no request object in two places, no lost wake-up, distinct ids, the limit of worker slots, every
  response for a request of its own, and that a stopped connection can always run to its end.
  These last are possibility statements: from every reachable state with the stop channel closed
  there is a run to the end, so no state is a deadlock; that the scheduler takes it is not claimed.

  \<^bold>\<open>The two ends together.\<close> \<open>Link\<close> joins a client's machine and a server's machine by two pipes of
  bytes: a step is a step of either end or the delivery of a part of a pipe, which may then end
  in any error. \<open>Link_Client\<close> and \<open>Link_Inv\<close> prove that what is on the wire and in the server
  belongs to pending requests of its own, each id once, and interpret \<open>machine_invariant\<close>;
  \<open>Link_Props\<close> concludes that a call on a shared connection gets what the exchange of \<open>Rpc\<close>, and
  so a direct call of the method, would give it, and that a call on an idle connection can be
  answered. The one restriction is that no buffer holds \<open>2 ^ 63\<close> bytes or more.

  \<^bold>\<open>Lifecycles and plugins.\<close> \<open>Hooks\<close> states the contract of a plugin registry (locale
  \<open>hook_chain\<close>: the hooks run in the order they were added, up to the first error);
  \<open>Client_Plugin\<close> and \<open>Server_Plugin\<close> interpret it once per hook. \<open>Client_Life\<close> (\<^verbatim>\<open>Start\<close>, \<^verbatim>\<open>Stop\<close>,
  \<^verbatim>\<open>handleConnections\<close>) and \<open>Server_Life\<close> (\<^verbatim>\<open>Start\<close>, \<^verbatim>\<open>Serve\<close>, \<^verbatim>\<open>Stop\<close>, \<^verbatim>\<open>acceptConnections\<close>) are machines
  in which a connection is one phase of its goroutine; \<open>Lifecycle\<close> has the stop channel and the
  locale \<open>stoppable\<close>, a contract under which \<^verbatim>\<open>Stop\<close> can return, which both interpret.
  \<open>Client_Whole\<close> joins the client's lifecycle with its connection's machine, for the default of one
  connection at a time: the queue and the request objects outlive connections, stops and starts.
  \<open>Client_Whole_Props\<close> shows that \<^verbatim>\<open>Stop\<close> returns with no call left in the table, that a queued call
  goes out on the next connection, and that one still queued at a new start is lost.
  \<open>Server_Whole\<close> joins the server's lifecycle with one connection machine per accepted connection, for
  one run of the server: the connections share the worker slots (\<open>sv_slots\<close>) and the stop channel, and
  handlers outlive both. \<open>Server_Whole_Props\<close> shows that each connection, seen with the slots all
  use, is a run of the connection machine, so that what \<open>Server_Conn_Live\<close> proves holds of every
  connection of a server; that the slots in use stay within the concurrency; that \<^verbatim>\<open>Stop\<close> can return;
  and that the slots of stranded handlers are lost to all connections.
  \<open>Transport\<close> (\<^verbatim>\<open>transport.go\<close>), \<open>Logging\<close> (\<^verbatim>\<open>logger/\<close>, \<^verbatim>\<open>plugin/logging\<close>) and \<open>Keepalive\<close>
  (\<^verbatim>\<open>plugin/keepalive\<close>) build on them.

  \<^bold>\<open>Choosing a client.\<close> \<open>Consistent_Hash\<close> (\<^verbatim>\<open>consistenthash/consistenthash.go\<close>): the sorted array of
  positions and the map, the binary search, and a refinement to an abstract ring; its contract
  is the locale \<open>consistent_ring\<close>, interpreted on the code's ring. \<open>Tagged\<close> (\<^verbatim>\<open>tagged.go\<close>,
  \<^verbatim>\<open>registry/registry.go\<close>): a pool; the locale \<open>client_pool\<close> is what the selector relies on.
  \<open>Selector\<close>, \<open>Selector_Inv\<close> and \<open>Selector_Props\<close> (\<^verbatim>\<open>selector.go\<close>): every operation, the invariant
  that the clients that run are exactly those of the pools, and what a replacement keeps.
  \<open>Selector_Conc\<close> cuts the operations at their locks and lets the goroutine that pulls the
  registry and the callers interleave; \<open>Selector_Runs\<close> shows that the atomic operations are runs of that
  machine, that its pools only hold running clients, and the leak its missing lock leaves.
  \<open>Registry\<close> (\<^verbatim>\<open>registry/consul\<close>, \<^verbatim>\<open>plugin/registry\<close>): what is registered and what is found again.
  \<open>Discovery\<close> puts the plugin of several servers, the agent and a selector together: after any
  sequence of starts and stops the selector has a running client for exactly the servers that run and
  have the method. There the agent's laws are the hypothesis \<open>agent_ok\<close>, shown to hold of a list of
  registrations.

  \<^bold>\<open>Bounds and loops.\<close> Ids, counters and lengths are 64-bit words and wrap around as in the code.
  The search for a free id is a \<open>partial_function\<close>, so that a search that never ends is
  \<open>None\<close>; it is proved to end when fewer than \<open>2 ^ 64\<close> requests are pending. The binary search and
  the decimal numerals are total by a measure; all other loops are structural. No definition has fuel.

  \<^bold>\<open>Parameters.\<close> What is not in the repository is an argument: the functions of the msgp, easyjson
  and xdr packages, \<^verbatim>\<open>fnv1a\<close>, \<^verbatim>\<open>rand.Intn\<close>, the Consul agent, zap's \<^verbatim>\<open>Check\<close> and \<^verbatim>\<open>Write\<close>, \<^verbatim>\<open>net\<close>'s
  listen, dial and keep-alive calls, the methods of the application. Assumptions on them are
  hypotheses of the theorems that need them, and each has a witness with a concrete instance.
  Of reflection the model has what the code asks of it: number of results, zero values of the
  parameters, whether the last result is an error, the call.

  \<^bold>\<open>Not modelled.\<close> \<^verbatim>\<open>codec_struct.go\<close> is a sample value of the benchmarks. The function that stops a
  client of the selector is the application's; the model counts the clients handed to it. The capacity of byte buffers matters only where the code reads it. Timeouts
  and the pauses after an error are steps that may happen at any time. A Go map is ranged over
  in the order an argument of the model gives. \<open>Server_Whole\<close> has no second start. After
  one the listener is closed (\<open>restarted_server_is_deaf\<close>) and no connection is served, unless the stop
  met the accept loop in its pause; handlers of the first run would then use the new worker slots.

  The properties that span components are below; the others stand at the end of their theories.
\<close>

section \<open>Remote calls\<close>

text \<open>A method that joins its two arguments, and a table that has it under one name.\<close>

definition cat_method :: "byte list go_method" where
  "cat_method = \<lparr>NumOut = 2, In_zero = [[], []], last_is_error = True,
     Call = (\<lambda>args. Results [concat args] (Nilable (Some (ErrorString ''joined''))))\<rparr>"

definition cat_methods :: "byte list serverMethods" where
  "cat_methods = snd (sv_Handler False
     \<lparr>is_ptr = True, MethodByName = [''Cat'' \<mapsto> cat_method], Methods = [(''cat'', ''Cat'')]\<rparr> no_methods)"

lemma cat_methods_items:
  "items cat_methods = [''cat'' \<mapsto> \<lparr>iNum = 2, fVal = cat_method, fArgs = [[], []]\<rparr>]"
  by (simp add: cat_methods_def sv_Handler_def sm_add_def sm_register_def cat_method_def no_methods_def numeral_2_eq_2)

text \<open>C5: A remote call is a direct call of the method: for a registered method that returns,
  the exchange of the client's request and the server's answer leaves the method's results in
  the reply targets, the text of its error in the request, one signal on the request's
  channel, and the reader of the connection without an error.\<close>

theorem rpc_call_is_direct_call:
  assumes "codecs_agree c d V" "set args \<subseteq> V" "set vs \<subseteq> V"
    and "items m name = Some sm" "list_all2 (fits d) (fArgs sm) args"
    and "direct_call (Call (fVal sm) args) = Some (vs, err)"
    and "list_all2 (fits c) ts vs" "i \<noteq> 0"
    and "frame_ok (call_payload c name args)" "within lim (put_values c vs)" "within lim (err_bytes err)"
  shows "\<exists>r. rpc_exchange lim c d m i (make_request name args ts) = Some (i, Ok (), r)
    \<and> cr_reply r = vs \<and> cr_err r = remote_error err \<and> cr_done r = DoneFull"
  using assms by (rule exchange_direct)

lemma rpc_call_is_direct_call_witness:
  "\<exists>r. rpc_exchange 100 id_codec id_codec cat_methods 7 (make_request ''cat'' [[1], [2]] [[]])
      = Some (7, Ok (), r)
    \<and> cr_reply r = [[1, 2]] \<and> cr_err r = Some (ErrorString ''joined'') \<and> cr_done r = DoneFull"
proof -
  have "codecs_agree id_codec id_codec {v. frame_ok v}"
    by (intro id_codecs_agree) simp
  then show ?thesis
    using rpc_call_is_direct_call [of id_codec id_codec "{v. frame_ok v}" "[[1], [2]]" "[[1, 2]]"
        cat_methods "''cat''" "\<lparr>iNum = 2, fVal = cat_method, fArgs = [[], []]\<rparr>"
        "Some (ErrorString ''joined'')" "[[]]" 7 100]
    by (simp add: cat_methods_items cat_method_def frame_ok_def within_def call_payload_def
        put_frame_def id_codec_fits_all err_bytes_def remote_error_def)
qed

text \<open>C6: With the msgp codec on both sides a remote call is a direct call whenever the arguments have
  the types of the method's parameters and the reply targets the types of its results, all of
  them types the codec takes both ways: the switches on the dynamic types, the frames, the
  dispatch and the answer compose.\<close>

theorem msgp_call_is_direct_call:
  assumes "msgp_laws L M T" "\<And>v. v \<in> set args \<union> set vs \<Longrightarrow> both_ways M T v"
    and "items m name = Some sm" "list_all2 (same_type L) (fArgs sm) args"
    and "direct_call (Call (fVal sm) args) = Some (vs, err)"
    and "list_all2 (same_type L) ts vs" "i \<noteq> 0"
    and "frame_ok (call_payload (msgp_codec L) name args)"
    and "within lim (put_values (msgp_codec L) vs)" "within lim (err_bytes err)"
  shows "\<exists>r. rpc_exchange lim (msgp_codec L) (msgp_codec L) m i (make_request name args ts) = Some (i, Ok (), r)
    \<and> cr_reply r = vs \<and> cr_err r = remote_error err \<and> cr_done r = DoneFull"
proof (rule exchange_direct)
  let ?c = "msgp_codec L" and ?V = "set args \<union> set vs"
  have frames: "frame_ok (put_values ?c args)" "frame_ok (put_values ?c vs)"
    using assms(8,9) by (auto simp: call_payload_def frame_ok_def within_def)
  have "encodable ?c ?V"
    using assms(2) frame_value [OF frames(1)] frame_value [OF frames(2)] by (intro msgp_encodable [OF assms(1)]) auto
  then show "codecs_agree ?c ?c ?V"
    by (simp add: codecs_agree_def)
  show "list_all2 (fits ?c) (fArgs sm) args" "list_all2 (fits ?c) ts vs"
    using assms(2,4,6) msgp_fits [OF assms(1)] by (auto simp: list_all2_conv_all_nth)
qed (use assms in auto)

definition add_method :: "(8 word, 64 word) go_val go_method" where
  "add_method = \<lparr>NumOut = 2, In_zero = [VInt 0, VInt 0], last_is_error = True,
     Call = (\<lambda>args. case args of [VInt a, VInt b] \<Rightarrow> Results [VInt (a + b), VString ''sum''] (Nilable None) | _ \<Rightarrow> Panicked ''types'')\<rparr>"

lemma msgp_call_is_direct_call_witness:
  "\<exists>r. rpc_exchange 100 (msgp_codec toy_msgp) (msgp_codec toy_msgp)
        (sm_register ''add'' \<lparr>iNum = 2, fVal = add_method, fArgs = [VInt 0, VInt 0]\<rparr> no_methods) 9
        (make_request ''add'' [VInt 2, VInt 3] [VInt 0, VString '''']) = Some (9, Ok (), r)
    \<and> cr_reply r = [VInt 5, VString ''sum''] \<and> cr_err r = None \<and> cr_done r = DoneFull"
proof -
  have raw: "raw_of (msgp_codec toy_msgp) (VInt w) = be_put w"
      "raw_of (msgp_codec toy_msgp) (VString s) = put_frame (bytes_of_string s)" for w s
    by (simp_all add: raw_of_def msgp_codec_def toy_msgp_def word_prim_def iso_prim_def frame_prim_def)
  show ?thesis
    by (rule msgp_call_is_direct_call [OF toy_msgp_laws, where vs = "[VInt 5, VString ''sum'']" and err = None, simplified remote_error_def option.case])
      (auto simp: sm_register_def no_methods_def add_method_def raw frame_ok_def within_def call_payload_def put_frame_def
        err_bytes_def st_int st_string)
qed

text \<open>C37: A call of a name the server does not know brings the error to the caller; but where the caller passed reply targets the missing payload
  is the end of the input for the reader of the connection, which ends with \<open>EOF\<close>.\<close>

theorem rpc_unknown_method:
  assumes "codecs_agree c d V" "set args \<subseteq> V" "items m name = None" "i \<noteq> 0"
    and "frame_ok (call_payload c name args)"
    and "within lim (bytes_of_string (''name '' @ quoted name @ '' is not registered''))"
  shows "\<exists>r. rpc_exchange lim c d m i (make_request name args ts)
      = Some (i, if ts = [] then Ok () else Err EOF, r)
    \<and> cr_err r = Some (ErrorString (''name '' @ quoted name @ '' is not registered''))
    \<and> cr_reply r = ts \<and> cr_done r = DoneFull"
proof -
  let ?e = "ErrorString (''name '' @ quoted name @ '' is not registered'')"
  from assms(1) have c: "encodable c V"
    by (simp add: codecs_agree_def)
  have name: "frame_ok (bytes_of_string name)"
    using assms(5) by (simp add: frame_ok_def call_payload_def put_frame_def)
  have err: "within lim (err_bytes (Some ?e))"
    using assms(6) by (simp add: err_bytes_def)
  have "rpc_exchange lim c d m i (make_request name args ts)
      = client_receives lim c (make_request name args ts) (response_bytes i (Some ?e) [])"
    using rpc_exchange_eq [OF assms(1,2,4,5) dispatch_unknown [OF name assms(3)], of "Some ?e"] err by simp
  then show ?thesis
    using client_receives_bare_error [OF err, of ts c name args i]
      client_receives_answer [of c "[]" "[]" lim "Some ?e" name args i] err
    by (cases "ts = []") (auto simp: remote_error_def within_def frame_ok_def)
qed

lemma rpc_unknown_method_witness:
  "\<exists>r. rpc_exchange 100 id_codec id_codec cat_methods 7 (make_request ''dog'' [] [[]]) = Some (7, Err EOF, r)
    \<and> cr_err r = Some (ErrorString (''name '' @ quoted ''dog'' @ '' is not registered''))
    \<and> cr_reply r = [[]] \<and> cr_done r = DoneFull"
proof -
  have "codecs_agree id_codec id_codec {v. frame_ok v}"
    by (intro id_codecs_agree) simp
  then show ?thesis
    using rpc_unknown_method [of id_codec id_codec "{v. frame_ok v}" "[]" cat_methods "''dog''" 7 100 "[[]]"]
    by (simp add: cat_methods_items frame_ok_def within_def call_payload_def put_frame_def quoted_def)
qed

text \<open>A request without an id is never answered, whatever its bytes are.\<close>

lemma no_reply_no_answer: "server_answers cd m (be_put 0 @ bs) = None"
  by (rule server_answers_id_0)

text \<open>A complete request with an id is answered, and the answer starts with that id,
  whatever dispatch makes of the payload: a result, an error or a panic.\<close>

lemma request_is_answered:
  assumes "frame_ok payload" "i \<noteq> 0"
  shows "\<exists>rest. server_answers cd m (be_put i @ put_frame payload) = Some (be_put i @ rest)"
  using assms by (rule server_answers_id)

lemma request_is_answered_witness:
  "\<exists>rest. server_answers id_codec cat_methods (be_put 5 @ put_frame [1, 2, 3]) = Some (be_put 5 @ rest)"
  by (rule request_is_answered) (simp_all add: frame_ok_def)

text \<open>A response is self-delimiting: two responses that start the same stream of bytes have the
  same id, the same error text and the same payload, and leave the same rest. Of an error only
  its text is on the wire, so an error with an empty text cannot be told from none.\<close>

lemma response_unambiguous:
  assumes "sr_errLen r = 0" "frame_ok (err_bytes (sr_err r))" "frame_ok (sr_output r)"
    and "sr_errLen r' = 0" "frame_ok (err_bytes (sr_err r'))" "frame_ok (sr_output r')"
    and "wr_out (snd (snd (sr_writeTo r open_writer))) @ rest
      = wr_out (snd (snd (sr_writeTo r' open_writer))) @ rest'"
  shows "sr_id r = sr_id r' \<and> err_bytes (sr_err r) = err_bytes (sr_err r')
    \<and> sr_output r = sr_output r' \<and> rest = rest'"
  using resp.put_prefix_free [of "(sr_id r, err_bytes (sr_err r), sr_output r)"
      "(sr_id r', err_bytes (sr_err r'), sr_output r')" rest rest']
    sr_writeTo_ok [of open_writer r] sr_writeTo_ok [of open_writer r'] assms
  by (auto simp: ok_pair_def put_pair_def open_writer_def)

lemma response_unambiguous_witness:
  "err_bytes (sr_err (newServerRequest\<lparr>sr_id := 4\<rparr>))
    = err_bytes (sr_err (newServerRequest\<lparr>sr_id := 4, sr_err := Some (ErrorString '''')\<rparr>))"
proof -
  let ?r = "newServerRequest\<lparr>sr_id := 4\<rparr>"
    and ?r' = "newServerRequest\<lparr>sr_id := 4, sr_err := Some (ErrorString '''')\<rparr>"
  have "wr_out (snd (snd (sr_writeTo ?r open_writer))) @ [] = wr_out (snd (snd (sr_writeTo ?r' open_writer))) @ []"
    by (simp add: sr_writeTo_def sr_set_err_def sr_write_output_def newServerRequest_def open_writer_def Let_def)
  then show ?thesis
    by (intro response_unambiguous [THEN conjunct2, THEN conjunct1])
      (simp_all add: newServerRequest_def err_bytes_def frame_ok_def)
qed

end
